(* ===== verification/Prelude.thy ===== *)
theory Prelude
  imports Main "HOL-Library.Word"
begin

text \<open>
  Shared vocabulary of the development: the machine integers of the crate, the two ways Rust
  compiles integer arithmetic (with and without overflow checks), the outcome of a call (a value, an
  \<open>Err\<close>, a panic, or an access outside the mapping), the state-passing monad every
  operation is written in, little-endian byte encodings, and the byte-range loads and stores the
  mapped file is read and written with.

  The collections \<open>act_simps\<close> (one step of the monad) and \<open>word_nat\<close> (reading
  a word expression as a natural number) drive the component proofs.
\<close>

unbundle bit_operations_syntax

named_theorems act_simps "evaluate one step of a state-passing action"
named_theorems word_nat "read word expressions as natural numbers"

section \<open>Machine integers\<close>

text \<open>The crate targets 64-bit platforms: \<open>usize\<close> and \<open>u64\<close> have the same range.\<close>

type_synonym u8 = "8 word"
type_synonym u32 = "32 word"
type_synonym u64 = "64 word"
type_synonym usize = "64 word"

text \<open>Rust's \<open>is_power_of_two\<close>: the value is \<open>2 ^ k\<close> for some \<open>k\<close>.\<close>

definition is_power_of_two :: "'a::len word \<Rightarrow> bool" where
  "is_power_of_two w = list_ex (\<lambda>k. w = 2 ^ k) [0..<LENGTH('a)]"

text \<open>
  \<open>+\<close>, \<open>-\<close> and \<open>*\<close> on unsigned integers: a build with overflow checks
  (debug and test profiles) panics where the mathematical result does not fit, a release build wraps.
\<close>

datatype build = Debug | Release

datatype ('e, 'a) outcome =
    Done 'a    \<comment> \<open>returned, or \<open>Ok\<close>\<close>
  | Fail 'e    \<comment> \<open>\<open>Err\<close>\<close>
  | Panic
  | Fault      \<comment> \<open>a memory access outside the mapping: undefined behaviour in Rust\<close>

definition add_w :: "build \<Rightarrow> 'a::len word \<Rightarrow> 'a word \<Rightarrow> ('e, 'a word) outcome" where
  "add_w b x y = (if b = Debug \<and> 2 ^ LENGTH('a) \<le> unat x + unat y then Panic else Done (x + y))"

definition sub_w :: "build \<Rightarrow> 'a::len word \<Rightarrow> 'a word \<Rightarrow> ('e, 'a word) outcome" where
  "sub_w b x y = (if b = Debug \<and> unat x < unat y then Panic else Done (x - y))"

definition mul_w :: "build \<Rightarrow> 'a::len word \<Rightarrow> 'a word \<Rightarrow> ('e, 'a word) outcome" where
  "mul_w b x y = (if b = Debug \<and> 2 ^ LENGTH('a) \<le> unat x * unat y then Panic else Done (x * y))"

text \<open>The overflow checks compute on binary integers when they are evaluated.\<close>

lemma overflow_code [code]:
  "add_w b (x :: 'a::len word) y =
     (if b = Debug \<and> 2 ^ LENGTH('a) \<le> uint x + uint y then Panic else Done (x + y))"
  "sub_w b x y = (if b = Debug \<and> x < y then Panic else Done (x - y))"
  "mul_w b x y =
     (if b = Debug \<and> 2 ^ LENGTH('a) \<le> uint x * uint y then Panic else Done (x * y))"
proof -
  have nat: "(2 ^ LENGTH('a) \<le> m) = (2 ^ LENGTH('a) \<le> int m)" for m :: nat
    by (metis of_nat_le_iff of_nat_numeral of_nat_power)
  show "add_w b x y = (if b = Debug \<and> 2 ^ LENGTH('a) \<le> uint x + uint y then Panic else Done (x + y))"
    by (simp add: add_w_def nat)
  show "mul_w b x y = (if b = Debug \<and> 2 ^ LENGTH('a) \<le> uint x * uint y then Panic else Done (x * y))"
    by (simp add: mul_w_def nat)
  show "sub_w b x y = (if b = Debug \<and> x < y then Panic else Done (x - y))"
    by (simp add: sub_w_def word_less_nat_alt)
qed

lemma unat_pow2 [word_nat]:
  assumes "k < LENGTH('a)"
  shows "unat (2 ^ k :: 'a::len word) = 2 ^ k"
proof -
  have "(2 :: nat) ^ k < 2 ^ LENGTH('a)" using assms by simp
  then have "unat (of_nat (2 ^ k) :: 'a word) = 2 ^ k" by (simp only: unat_of_nat mod_less)
  then show ?thesis by simp
qed

lemma is_power_of_two_iff:
  "is_power_of_two (w :: 'a::len word) \<longleftrightarrow> (\<exists>k < LENGTH('a). unat w = 2 ^ k)"
  by (auto simp: is_power_of_two_def list_ex_iff unat_pow2)
     (metis unat_pow2 word_unat_eq_iff atLeastLessThan_iff le0)

lemma is_power_of_two_nonzero: "is_power_of_two w \<Longrightarrow> w \<noteq> 0"
  by (auto simp: is_power_of_two_iff)

text \<open>Masking with a power of two less one is the remainder: the crate's index arithmetic.\<close>

lemma unat_and_pow2_mask:
  assumes "is_power_of_two (c :: 'a::len word)"
  shows "unat (w AND (c - 1)) = unat w mod unat c"
proof -
  obtain k where k: "k < LENGTH('a)" "unat c = 2 ^ k"
    using assms by (auto simp: is_power_of_two_iff)
  then have c: "c = 2 ^ k" by (metis unat_pow2 word_unat_eq_iff)
  have "w AND (c - 1) = take_bit k w" by (simp add: c take_bit_eq_mask mask_eq_exp_minus_1)
  then show ?thesis using k by (simp add: unsigned_take_bit_eq flip: take_bit_eq_mod)
qed

lemma unat_min [word_nat]: "unat (min a b) = min (unat a) (unat b)"
  by (simp add: min_def word_le_nat_alt)

lemma unat_max [word_nat]: "unat (max a b) = max (unat a) (unat b)"
  by (simp add: max_def word_le_nat_alt)

lemma unat_add_one [word_nat]:
  "unat x + 1 < 2 ^ LENGTH('a) \<Longrightarrow> unat (x + 1 :: 'a::len word) = unat x + 1"
  by (simp add: unat_word_ariths)

lemma unat_less_2p64: "unat (w :: u64) < 2 ^ 64"
  using unsigned_less [of w] by simp

lemma add_w_Done: "unat x + unat y < 2 ^ LENGTH('a) \<Longrightarrow> add_w b x y = Done (x + y :: 'a::len word)"
  by (simp add: add_w_def)

lemma sub_w_Done: "unat y \<le> unat x \<Longrightarrow> sub_w b x y = Done (x - y)"
  by (simp add: sub_w_def)

lemma mul_w_Done: "unat x * unat y < 2 ^ LENGTH('a) \<Longrightarrow> mul_w b x y = Done (x * y :: 'a::len word)"
  by (simp add: mul_w_def)

section \<open>Actions: state, errors, panics\<close>

type_synonym ('s, 'e, 'a) act = "'s \<Rightarrow> ('e, 'a) outcome \<times> 's"

definition bind_out :: "('e, 'a) outcome \<Rightarrow> ('a \<Rightarrow> ('e, 'b) outcome) \<Rightarrow> ('e, 'b) outcome" where
  "bind_out m f = (case m of Done x \<Rightarrow> f x | Fail e \<Rightarrow> Fail e | Panic \<Rightarrow> Panic | Fault \<Rightarrow> Fault)"

definition ret :: "'a \<Rightarrow> ('s, 'e, 'a) act" where
  "ret x s = (Done x, s)"

definition fail :: "'e \<Rightarrow> ('s, 'e, 'a) act" where
  "fail e s = (Fail e, s)"

definition lift_out :: "('e, 'a) outcome \<Rightarrow> ('s, 'e, 'a) act" where
  "lift_out m s = (m, s)"

definition gets :: "('s \<Rightarrow> 'a) \<Rightarrow> ('s, 'e, 'a) act" where
  "gets f s = (Done (f s), s)"

text \<open>\<open>asks\<close> runs a read-only computation that may itself fail or panic.\<close>

definition asks :: "('s \<Rightarrow> ('e, 'a) outcome) \<Rightarrow> ('s, 'e, 'a) act" where
  "asks f s = (f s, s)"

definition modify :: "('s \<Rightarrow> 's) \<Rightarrow> ('s, 'e, unit) act" where
  "modify f s = (Done (), f s)"

text \<open>Sequencing: \<open>?\<close>, panics and faults leave the state as it stands and stop.\<close>

definition bind_act :: "('s, 'e, 'a) act \<Rightarrow> ('a \<Rightarrow> ('s, 'e, 'b) act) \<Rightarrow> ('s, 'e, 'b) act" where
  "bind_act m f s =
     (case m s of (r, s') \<Rightarrow>
       (case r of Done x \<Rightarrow> f x s' | Fail e \<Rightarrow> (Fail e, s') | Panic \<Rightarrow> (Panic, s') | Fault \<Rightarrow> (Fault, s')))"

lemma bind_out_simps [simp]:
  "bind_out (Done x) f = f x" "bind_out (Fail e) f = Fail e"
  "bind_out Panic f = Panic" "bind_out Fault f = Fault"
  by (simp_all add: bind_out_def)

lemma act_prim_simps [act_simps]:
  "ret x s = (Done x, s)" "fail e s = (Fail e, s)" "lift_out m s = (m, s)"
  "gets f s = (Done (f s), s)" "asks g s = (g s, s)" "modify h s = (Done (), h s)"
  by (simp_all add: ret_def fail_def lift_out_def gets_def asks_def modify_def)

lemma bind_act_Done: "m s = (Done x, s') \<Longrightarrow> bind_act m f s = f x s'"
  by (simp add: bind_act_def)

lemma bind_act_stop:
  "m s = (Fail e, s') \<Longrightarrow> bind_act m f s = (Fail e, s')"
  "m s = (Panic, s') \<Longrightarrow> bind_act m f s = (Panic, s')"
  "m s = (Fault, s') \<Longrightarrow> bind_act m f s = (Fault, s')"
  by (simp_all add: bind_act_def)

lemma bind_act_prim [act_simps]:
  "bind_act (ret x) f s = f x s" "bind_act (fail e) f s = (Fail e, s)"
  "bind_act (gets g) f s = f (g s) s" "bind_act (modify h) k s = k () (h s)"
  by (simp_all add: bind_act_def ret_def fail_def gets_def modify_def)

lemma bind_act_out [act_simps]:
  "bind_act (lift_out m) f s =
     (case m of Done x \<Rightarrow> f x s | Fail e \<Rightarrow> (Fail e, s) | Panic \<Rightarrow> (Panic, s) | Fault \<Rightarrow> (Fault, s))"
  "bind_act (asks g) f s =
     (case g s of Done x \<Rightarrow> f x s | Fail e \<Rightarrow> (Fail e, s) | Panic \<Rightarrow> (Panic, s) | Fault \<Rightarrow> (Fault, s))"
  by (simp_all add: bind_act_def lift_out_def asks_def split: outcome.split)

lemma bind_act_assoc [act_simps]: "bind_act (bind_act m f) g s = bind_act m (\<lambda>x. bind_act (f x) g) s"
  by (simp add: bind_act_def split: prod.split outcome.split)

section \<open>Bytes\<close>

text \<open>A range of a byte sequence, and the sequence with a range replaced.\<close>

definition load :: "nat \<Rightarrow> nat \<Rightarrow> 'b list \<Rightarrow> 'b list" where
  "load off n bs = take n (drop off bs)"

definition store :: "nat \<Rightarrow> 'b list \<Rightarrow> 'b list \<Rightarrow> 'b list" where
  "store off xs bs = take off bs @ xs @ drop (off + length xs) bs"

lemma length_load [simp]: "length (load off n bs) = min n (length bs - off)"
  by (simp add: load_def)

lemma length_store [simp]: "off + length xs \<le> length bs \<Longrightarrow> length (store off xs bs) = length bs"
  by (simp add: store_def)

lemma load_store_same: "off + length xs \<le> length bs \<Longrightarrow> load off (length xs) (store off xs bs) = xs"
  by (simp add: load_def store_def)

lemma load_store_disjoint:
  assumes "off + length xs \<le> length bs" and "i + n \<le> off \<or> off + length xs \<le> i" and "i + n \<le> length bs"
  shows "load i n (store off xs bs) = load i n bs"
proof (rule nth_equalityI)
  show "length (load i n (store off xs bs)) = length (load i n bs)" using assms(1) by simp
next
  fix k assume "k < length (load i n (store off xs bs))"
  with assms show "load i n (store off xs bs) ! k = load i n bs ! k"
    by (auto simp: load_def store_def nth_append)
qed

text \<open>Little-endian representation of integers, the byte order of the supported targets.\<close>

definition le_bytes :: "nat \<Rightarrow> 'a::len word \<Rightarrow> u8 list" where
  "le_bytes n w = map (\<lambda>i. ucast (drop_bit (8 * i) w)) [0..<n]"

fun of_le :: "u8 list \<Rightarrow> 'a::len word" where
  "of_le [] = 0"
| "of_le (b # bs) = ucast b OR push_bit 8 (of_le bs)"

lemma length_le_bytes [simp]: "length (le_bytes n w) = n"
  by (simp add: le_bytes_def)

lemma bit_of_le:
  "bit (of_le bs :: 'a::len word) k \<longleftrightarrow>
     k < LENGTH('a) \<and> k div 8 < length bs \<and> bit (bs ! (k div 8)) (k mod 8)"
proof (induction bs arbitrary: k)
  case Nil
  then show ?case by simp
next
  case (Cons b bs)
  show ?case
  proof (cases "k < 8")
    case True
    then show ?thesis by (auto simp: bit_simps Cons.IH)
  next
    case False
    then have "k div 8 = Suc ((k - 8) div 8)" "k mod 8 = (k - 8) mod 8"
      by (simp_all add: le_div_geq le_mod_geq not_less)
    moreover have "\<not> bit b k"
      using False bit_imp_le_length [of b k] by auto
    ultimately show ?thesis using False
      by (auto simp: bit_simps Cons.IH)
  qed
qed

lemma of_le_le_bytes:
  assumes "LENGTH('a) \<le> 8 * n"
  shows "of_le (le_bytes n w) = (w :: 'a::len word)"
proof (rule bit_word_eqI)
  fix k assume k: "k < LENGTH('a)"
  with assms have "k div 8 < n" by (simp add: less_mult_imp_div_less mult.commute)
  with k show "bit (of_le (le_bytes n w) :: 'a word) k = bit w k"
    by (simp add: bit_of_le le_bytes_def bit_simps)
qed

lemma of_le_le_bytes_fixed [simp]:
  "of_le (le_bytes 8 w) = (w :: u64)" "of_le (le_bytes 4 v) = (v :: u32)"
  by (simp_all add: of_le_le_bytes)

lemma of_le_zeros [simp]: "of_le (replicate n 0) = 0"
  by (induction n) simp_all

lemma le_bytes_of_le:
  assumes "length bs = n" and "8 * n \<le> LENGTH('a)"
  shows "le_bytes n (of_le bs :: 'a::len word) = bs"
proof (rule nth_equalityI)
  show "length (le_bytes n (of_le bs :: 'a word)) = length bs" using assms(1) by simp
next
  fix i assume "i < length (le_bytes n (of_le bs :: 'a word))"
  then have i: "i < n" by simp
  show "le_bytes n (of_le bs :: 'a word) ! i = bs ! i"
  proof (rule bit_word_eqI)
    fix k assume k: "k < LENGTH(8)"
    then have "8 * i + k < LENGTH('a)" using i assms(2) by simp
    with i k assms(1) show "bit (le_bytes n (of_le bs :: 'a word) ! i) k = bit (bs ! i) k"
      by (simp add: le_bytes_def bit_simps bit_of_le)
  qed
qed

lemma load_append: "load i m bs @ load (i + m) n bs = load i (m + n) bs"
  by (simp add: load_def take_add add.commute)

section \<open>Lists\<close>

lemma Min_list_update_ge:
  assumes "i < length cs" and "cs ! i \<le> (c :: nat)"
  shows "Min (set cs) \<le> Min (set (cs[i := c]))"
proof -
  have "cs \<noteq> []" using assms(1) by auto
  then have "Min (set cs) \<le> x" if "x \<in> set (cs[i := c])" for x
  proof (cases "x = c")
    case True
    have "Min (set cs) \<le> cs ! i" using assms(1) by simp
    with True assms(2) show ?thesis by simp
  next
    case False
    with that have "x \<in> set cs" using set_update_subset_insert [of cs i c] by auto
    then show ?thesis by simp
  qed
  moreover have "set (cs[i := c]) \<noteq> {}" using \<open>cs \<noteq> []\<close> by simp
  ultimately show ?thesis by simp
qed

lemma mod_window_inj:
  assumes "(lo :: nat) \<le> j" "j < lo + c" "lo \<le> k" "k < lo + c" "j mod c = k mod c"
  shows "j = k"
proof -
  have "j = k" if "lo \<le> j" "j \<le> k" "k < lo + c" "j mod c = k mod c" for j k
  proof -
    from that(2,4) have "c dvd k - j" by (metis mod_eq_dvd_iff_nat)
    with that show ?thesis by (auto dest: dvd_imp_le)
  qed
  from this [of j k] this [of k j] assms show ?thesis by (cases "j \<le> k") auto
qed

lemma foldl_min_Min: "foldl min a xs = Min (insert a (set xs))" for a :: "'a::linorder"
proof (induction xs arbitrary: a)
  case Nil
  then show ?case by simp
next
  case (Cons x xs)
  have "foldl min a (x # xs) = Min (insert (min a x) (set xs))" by (simp add: Cons.IH)
  also have "\<dots> = min (min a x) (Min (insert (min a x) (set xs)))"
    by (cases "xs = []") simp_all
  also have "\<dots> = Min (insert a (set (x # xs)))"
    by (cases "xs = []") (simp_all add: min.assoc min.left_commute)
  finally show ?case .
qed

lemma unat_foldl_min: "unat (foldl min a xs) = foldl min (unat a) (map unat xs)"
  by (induction xs arbitrary: a) (simp_all add: unat_min)

lemma unat_foldl_min_max:
  assumes "xs \<noteq> []"
  shows "unat (foldl min (- 1 :: 'a::len word) xs) = Min (set (map unat xs))"
proof -
  have "Min (set (map unat xs)) \<le> unat (- 1 :: 'a word)"
  proof -
    obtain x where "x \<in> set xs" using assms by (cases xs) auto
    then have "Min (set (map unat xs)) \<le> unat x" by simp
    also have "unat x \<le> unat (- 1 :: 'a word)" by (simp add: word_le_nat_alt [symmetric])
    finally show ?thesis .
  qed
  moreover have "unat (foldl min (- 1 :: 'a word) xs) = Min (insert (unat (- 1 :: 'a word)) (set (map unat xs)))"
    using foldl_min_Min [of "unat (- 1 :: 'a word)" "map unat xs"] by (simp only: unat_foldl_min)
  moreover have "set (map unat xs) \<noteq> {}" using assms by simp
  ultimately show ?thesis by (metis Min_insert List.finite_set min_absorb2)
qed

end
