(* ===== verification/Shm_Error.thy ===== *)
theory Shm_Error
  imports Prelude
begin

text \<open>
  The error vocabulary of the crate (\<open>src/error.rs\<close>). A standard-library
  \<open>io::Error\<close> is represented by its \<open>ErrorKind\<close>, which is all the crate
  ever inspects.
\<close>

datatype IoErrorKind =
    IoAlreadyExists
  | IoNotFound
  | IoWouldBlock
  | IoInterrupted
  | IoOther

datatype ShmRingError =
    InvalidCapacity usize                   \<comment> \<open>\<open>got\<close>\<close>
  | AlreadyExists
  | FileTooShort u64 u64                    \<comment> \<open>\<open>expected\<close>, \<open>got\<close>\<close>
  | HeaderCorruption string u64 u64         \<comment> \<open>\<open>field\<close>, \<open>expected\<close>, \<open>got\<close>\<close>
  | VersionMismatch u32 u32                 \<comment> \<open>\<open>expected\<close>, \<open>got\<close>\<close>
  | Io IoErrorKind
  | InvalidReaderId usize usize             \<comment> \<open>\<open>id\<close>, \<open>max\<close>\<close>
  | LoanOutstanding usize                   \<comment> \<open>\<open>reader_id\<close>\<close>
  | LoanNotAtCursor u64 u64                 \<comment> \<open>\<open>index\<close>, \<open>cursor\<close>\<close>

text \<open>The \<open>?\<close> operator on an \<open>io::Result\<close>: \<open>#[from] io::Error\<close>.\<close>

definition io_result :: "IoErrorKind option \<Rightarrow> 'a \<Rightarrow> (ShmRingError, 'a) outcome" where
  "io_result e x = (case e of None \<Rightarrow> Done x | Some k \<Rightarrow> Fail (Io k))"

lemma io_result_simps [simp]:
  "io_result None x = Done x" "io_result (Some k) x = Fail (Io k)"
  by (simp_all add: io_result_def)

end
