(* ===== verification/Ring_Header.thy ===== *)
theory Ring_Header
  imports Shm_Error
begin

text \<open>
  The shared control block at the start of every ring file (\<open>src/header.rs\<close>): the
  \<open>repr(C)\<close> struct, its construction and validation, its accessors, and its on-disk
  image. The struct is modelled as a record; \<open>header_bytes\<close> and
  \<open>header_of_bytes\<close> are the 256 bytes it occupies, at the offsets the source pins with
  its \<open>offset_of!\<close> assertions, and the lemmas show that reading and writing a field of the
  record is reading and writing those bytes.
\<close>

section \<open>Constants and the struct\<close>

definition MAGIC :: u64 where "MAGIC = 0x52494E4753504D43"
definition VERSION :: u32 where "VERSION = 1"
definition MAX_READERS :: usize where "MAX_READERS = 8"
definition HEADER_SIZE :: usize where "HEADER_SIZE = 256"

record RingHeader =
  magic :: u64
  version :: u32
  num_readers :: u32
  pad1 :: u64
  write_idx :: u64
  read_indices :: "u64 list"
  capacity_mask :: u64
  total_written :: u64
  pad_to_256 :: "u64 list"

text \<open>The two array fields have their declared lengths.\<close>

definition header_wf :: "RingHeader \<Rightarrow> bool" where
  "header_wf h \<longleftrightarrow> length (read_indices h) = 8 \<and> length (pad_to_256 h) = 18"

section \<open>Construction, validation, accessors\<close>

definition header_new :: "u64 \<Rightarrow> usize \<Rightarrow> (ShmRingError, RingHeader) outcome" where
  "header_new cmask n =
     (if \<not> (1 \<le> n \<and> n \<le> MAX_READERS) then Panic
      else Done \<lparr> magic = MAGIC, version = VERSION, num_readers = ucast n, pad1 = 0, write_idx = 0,
             read_indices = replicate (unat MAX_READERS) 0, capacity_mask = cmask,
             total_written = 0, pad_to_256 = replicate 18 0 \<rparr>)"

definition header_validate :: "build \<Rightarrow> RingHeader \<Rightarrow> (ShmRingError, unit) outcome" where
  "header_validate b h =
     (if magic h \<noteq> MAGIC then Fail (HeaderCorruption ''magic'' MAGIC (magic h))
      else if version h \<noteq> VERSION then Fail (VersionMismatch VERSION (version h))
      else let cmask = capacity_mask h in
        if cmask = 0 then Fail (HeaderCorruption ''capacity_mask'' 0 cmask)
        else bind_out (add_w b cmask 1) (\<lambda>c.
          if \<not> is_power_of_two c then Fail (HeaderCorruption ''capacity_mask'' 0 cmask) else Done ()))"

definition set_write_idx :: "u64 \<Rightarrow> RingHeader \<Rightarrow> RingHeader" where
  "set_write_idx v h = h\<lparr>write_idx := v\<rparr>"

definition read_idx :: "usize \<Rightarrow> RingHeader \<Rightarrow> ('e, u64) outcome" where
  "read_idx i h = (if unat i < length (read_indices h) then Done (read_indices h ! unat i) else Panic)"

definition set_read_idx :: "usize \<Rightarrow> u64 \<Rightarrow> RingHeader \<Rightarrow> ('e, RingHeader) outcome" where
  "set_read_idx i v h =
     (if unat i < length (read_indices h) then Done (h\<lparr>read_indices := (read_indices h)[unat i := v]\<rparr>)
      else Panic)"

text \<open>\<open>self.read_indices[..n].iter().map(load).fold(u64::MAX, u64::min)\<close>\<close>

definition slowest_read_idx :: "usize \<Rightarrow> RingHeader \<Rightarrow> ('e, u64) outcome" where
  "slowest_read_idx n h =
     (if unat n \<le> length (read_indices h) then Done (foldl min (- 1) (take (unat n) (read_indices h)))
      else Panic)"

text \<open>\<open>fetch_add\<close> wraps in every build.\<close>

definition bump_total_written :: "RingHeader \<Rightarrow> RingHeader" where
  "bump_total_written h = h\<lparr>total_written := total_written h + 1\<rparr>"

definition reader_count_of :: "RingHeader \<Rightarrow> usize" where
  "reader_count_of h = ucast (num_readers h)"

section \<open>The on-disk image\<close>

definition header_bytes :: "RingHeader \<Rightarrow> u8 list" where
  "header_bytes h =
     le_bytes 8 (magic h) @ le_bytes 4 (version h) @ le_bytes 4 (num_readers h) @ le_bytes 8 (pad1 h)
     @ le_bytes 8 (write_idx h) @ concat (map (le_bytes 8) (read_indices h))
     @ le_bytes 8 (capacity_mask h) @ le_bytes 8 (total_written h)
     @ concat (map (le_bytes 8) (pad_to_256 h))"

definition load_u64s :: "nat \<Rightarrow> nat \<Rightarrow> u8 list \<Rightarrow> u64 list" where
  "load_u64s off n bs = map (\<lambda>i. of_le (load (off + 8 * i) 8 bs)) [0..<n]"

definition header_of_bytes :: "u8 list \<Rightarrow> RingHeader" where
  "header_of_bytes bs =
     \<lparr> magic = of_le (load 0 8 bs), version = of_le (load 8 4 bs), num_readers = of_le (load 12 4 bs),
       pad1 = of_le (load 16 8 bs), write_idx = of_le (load 24 8 bs),
       read_indices = load_u64s 32 8 bs, capacity_mask = of_le (load 96 8 bs),
       total_written = of_le (load 104 8 bs), pad_to_256 = load_u64s 112 18 bs \<rparr>"

lemma header_of_bytes_wf [simp]: "header_wf (header_of_bytes bs)"
  by (simp add: header_wf_def header_of_bytes_def load_u64s_def)

lemma length_concat_le8 [simp]: "length (concat (map (le_bytes 8) ws)) = 8 * length ws"
  by (induction ws) simp_all

lemma length_header_bytes: "header_wf h \<Longrightarrow> length (header_bytes h) = 256"
  by (simp add: header_bytes_def header_wf_def)

lemma load_append_right: "length xs \<le> off \<Longrightarrow> load off n (xs @ ys) = load (off - length xs) n ys"
  by (simp add: load_def)

lemma load_append_left: "off + n \<le> length xs \<Longrightarrow> load off n (xs @ ys) = load off n xs"
  by (simp add: load_def)

lemma load_all: "length xs = n \<Longrightarrow> load 0 n (xs @ ys) = xs"
  by (simp add: load_def)

lemma load_u64s_concat: "load_u64s 0 (length ws) (concat (map (le_bytes 8) ws) @ rest) = ws"
proof (induction ws)
  case Nil
  then show ?case by (simp add: load_u64s_def)
next
  case (Cons w ws)
  have "load_u64s 0 (length (w # ws)) (concat (map (le_bytes 8) (w # ws)) @ rest)
      = w # load_u64s 0 (length ws) (concat (map (le_bytes 8) ws) @ rest)"
    by (simp add: load_u64s_def upt_conv_Cons load_all load_append_right comp_def
          flip: map_Suc_upt del: upt_Suc)
  with Cons.IH show ?case by simp
qed

lemma load_u64s_shift: "length xs \<le> off \<Longrightarrow> load_u64s off n (xs @ ys) = load_u64s (off - length xs) n ys"
  by (simp add: load_u64s_def load_append_right)

lemma load_u64s_all: "length ws = n \<Longrightarrow> load_u64s 0 n (concat (map (le_bytes 8) ws) @ rest) = ws"
  using load_u64s_concat [of ws rest] by simp

lemma store_concat_le8:
  "i < length ws \<Longrightarrow>
     concat (map (le_bytes 8) (ws[i := w])) = store (8 * i) (le_bytes 8 w) (concat (map (le_bytes 8) ws))"
proof (induction ws arbitrary: i)
  case Nil
  then show ?case by simp
next
  case (Cons a ws)
  then show ?case by (cases i) (simp_all add: store_def add.commute)
qed

text \<open>Decoding the image of a header gives the header back, whatever follows it in the file.\<close>

lemma header_of_bytes_header_bytes:
  assumes "header_wf h"
  shows "header_of_bytes (header_bytes h @ rest) = h"
  using assms
  by (simp add: header_of_bytes_def header_bytes_def header_wf_def load_all load_append_right
        load_u64s_shift load_u64s_all)

text \<open>Conversely the record keeps every byte of the header area, padding included.\<close>

lemma concat_load_u64s:
  "off + 8 * n \<le> length bs \<Longrightarrow> concat (map (le_bytes 8) (load_u64s off n bs)) = load off (8 * n) bs"
proof (induction n)
  case 0
  then show ?case by (simp add: load_u64s_def load_def)
next
  case (Suc n)
  have "concat (map (le_bytes 8) (load_u64s off (Suc n) bs))
      = concat (map (le_bytes 8) (load_u64s off n bs)) @ le_bytes 8 (of_le (load (off + 8 * n) 8 bs) :: u64)"
    by (simp add: load_u64s_def)
  also have "\<dots> = load off (8 * n) bs @ load (off + 8 * n) 8 bs"
    using Suc by (simp add: le_bytes_of_le)
  also have "\<dots> = load off (8 * Suc n) bs"
    by (simp add: load_append add.commute)
  finally show ?case .
qed

lemma header_bytes_header_of_bytes:
  assumes "256 \<le> length bs"
  shows "header_bytes (header_of_bytes bs) = take 256 bs"
proof -
  have "header_bytes (header_of_bytes bs) =
     load 0 8 bs @ load 8 4 bs @ load 12 4 bs @ load 16 8 bs @ load 24 8 bs
     @ load 32 64 bs @ load 96 8 bs @ load 104 8 bs @ load 112 144 bs"
    using assms by (simp add: header_bytes_def header_of_bytes_def concat_load_u64s le_bytes_of_le)
  also have "\<dots> = load 0 256 bs"
    using load_append [of 104 8 bs 144] load_append [of 96 8 bs 152] load_append [of 32 64 bs 160]
      load_append [of 24 8 bs 224] load_append [of 16 8 bs 232] load_append [of 12 4 bs 240]
      load_append [of 8 4 bs 244] load_append [of 0 8 bs 248]
    by simp
  finally show ?thesis by (simp add: load_def)
qed

text \<open>An atomic store to a field rewrites that field's bytes and no other.\<close>

lemma header_bytes_set_write_idx:
  assumes "header_wf h"
  shows "header_bytes (set_write_idx v h) = store 24 (le_bytes 8 v) (header_bytes h)"
  using assms by (simp add: header_bytes_def set_write_idx_def header_wf_def store_def)

lemma header_bytes_set_read_idx:
  assumes "header_wf h" and "set_read_idx i v h = Done h'"
  shows "header_bytes h' = store (32 + 8 * unat i) (le_bytes 8 v) (header_bytes h)"
  using assms
  by (auto simp: header_bytes_def set_read_idx_def header_wf_def store_concat_le8 store_def add.commute
        split: if_splits)

end
