(* ===== verification/Slot_Array.thy ===== *)
theory Slot_Array
  imports Prelude
begin

text \<open>
  Slots. A ring stores message \<open>k\<close> of the stream in slot \<open>k mod capacity\<close>. The
  locale \<open>slot_array\<close> is the interface the ring protocol needs from its storage: reading a
  slot returns the last value written to it, and a write disturbs no other slot. It is interpreted
  here on the byte area of the mapped file, where a message occupies \<open>size_of::<T>()\<close> bytes
  (\<open>src/ring.rs\<close>). The client lemmas are about the window of live messages, which is what
  backpressure protects.
\<close>

section \<open>Message types\<close>

text \<open>
  What the crate uses of its type parameter \<open>T: Copy + FromBytes + Immutable\<close>: its size,
  its alignment and its bytes. \<open>pod_dec\<close> is total, as \<open>FromBytes\<close> demands.
\<close>

record 'a pod =
  pod_size :: usize
  pod_align :: usize
  pod_enc :: "'a \<Rightarrow> u8 list"
  pod_dec :: "u8 list \<Rightarrow> 'a"

text \<open>
  The layout guarantees of Rust: a value's image has the type's size, a bitwise copy is the same value,
  alignments are powers of two and divide sizes.
\<close>

locale pod_type =
  fixes T :: "'a pod"
  assumes enc_length: "length (pod_enc T v) = unat (pod_size T)"
    and dec_enc: "pod_dec T (pod_enc T v) = v"
    and align_pow2: "is_power_of_two (pod_align T)"
    and align_dvd: "unat (pod_align T) dvd unat (pod_size T)"

text \<open>\<open>u64\<close>, the message type of the crate's own tests and benchmarks.\<close>

definition u64_pod :: "u64 pod" where
  "u64_pod = \<lparr> pod_size = 8, pod_align = 8, pod_enc = le_bytes 8, pod_dec = of_le \<rparr>"

interpretation u64_pod: pod_type u64_pod
  by unfold_locales (auto simp: u64_pod_def is_power_of_two_iff intro!: exI [of _ 3])

lemma u64_pod_simps [simp]:
  "pod_size u64_pod = 8" "pod_align u64_pod = 8" "pod_enc u64_pod = le_bytes 8" "pod_dec u64_pod = of_le"
  by (simp_all add: u64_pod_def)

section \<open>The storage interface\<close>

locale slot_array =
  fixes rd :: "'s \<Rightarrow> nat \<Rightarrow> 'v"
    and wr :: "nat \<Rightarrow> 'v \<Rightarrow> 's \<Rightarrow> 's"
    and ok :: "'s \<Rightarrow> bool"
    and cap :: nat
  assumes rd_wr: "ok s \<Longrightarrow> i < cap \<Longrightarrow> j < cap \<Longrightarrow> rd (wr i v s) j = (if j = i then v else rd s j)"
    and ok_wr: "ok s \<Longrightarrow> i < cap \<Longrightarrow> ok (wr i v s)"

text \<open>
  The messages of the stream \<open>xs\<close> from index \<open>lo\<close> on are all still in their slots.
\<close>

definition live_window :: "('s \<Rightarrow> nat \<Rightarrow> 'v) \<Rightarrow> nat \<Rightarrow> 'v list \<Rightarrow> nat \<Rightarrow> 's \<Rightarrow> bool" where
  "live_window rd cap xs lo s \<longleftrightarrow> (\<forall>k. lo \<le> k \<and> k < length xs \<longrightarrow> rd s (k mod cap) = xs ! k)"

lemma live_windowD: "live_window rd cap xs lo s \<Longrightarrow> lo \<le> k \<Longrightarrow> k < length xs \<Longrightarrow> rd s (k mod cap) = xs ! k"
  by (simp add: live_window_def)

lemma live_window_mono: "live_window rd cap xs lo s \<Longrightarrow> lo \<le> lo' \<Longrightarrow> live_window rd cap xs lo' s"
  by (simp add: live_window_def)

lemma live_window_Nil [simp]: "live_window rd cap [] lo s"
  by (simp add: live_window_def)

context slot_array begin

text \<open>Appending a message overwrites only slots below the window, if the window is not full.\<close>

lemma live_window_append:
  assumes "ok s" and "live_window rd cap xs lo s" and "length xs < lo + cap"
  shows "live_window rd cap (xs @ [v]) lo (wr (length xs mod cap) v s)"
proof -
  have cap: "0 < cap" if "lo \<le> k" "k \<le> length xs" for k using assms(3) that by auto
  have "rd (wr (length xs mod cap) v s) (k mod cap) = (xs @ [v]) ! k"
    if k: "lo \<le> k" "k < length (xs @ [v])" for k
  proof (cases "k = length xs")
    case True
    then show ?thesis using assms(1) cap [of k] k by (simp add: rd_wr)
  next
    case False
    then have "k mod cap \<noteq> length xs mod cap"
      using mod_window_inj [of lo k cap "length xs"] k assms(3) by auto
    then show ?thesis
      using False k assms(1) cap [of k] live_windowD [OF assms(2), of k]
      by (simp add: rd_wr nth_append)
  qed
  then show ?thesis by (simp add: live_window_def)
qed

text \<open>
  A full window is the reason for backpressure: the slot the next message would take is the slot of
  the oldest live one.
\<close>

lemma full_window_overwrites:
  assumes "ok s" and "0 < cap" and "length xs = lo + cap"
  shows "rd (wr (length xs mod cap) v s) (lo mod cap) = v"
  using assms by (simp add: rd_wr)

end

section \<open>Slots in the mapped bytes\<close>

text \<open>Slot \<open>i\<close> of the byte area that follows the header, as a value of the message type.\<close>

definition slot_read :: "'a pod \<Rightarrow> u8 list \<Rightarrow> nat \<Rightarrow> 'a" where
  "slot_read T bs i = pod_dec T (load (i * unat (pod_size T)) (unat (pod_size T)) bs)"

definition slot_write :: "'a pod \<Rightarrow> nat \<Rightarrow> 'a \<Rightarrow> u8 list \<Rightarrow> u8 list" where
  "slot_write T i v bs = store (i * unat (pod_size T)) (pod_enc T v) bs"

definition slots_ok :: "'a pod \<Rightarrow> nat \<Rightarrow> u8 list \<Rightarrow> bool" where
  "slots_ok T cap bs \<longleftrightarrow> pod_type T \<and> cap * unat (pod_size T) \<le> length bs"

lemma slot_in_bounds: "i < cap \<Longrightarrow> cap * n \<le> len \<Longrightarrow> i * n + n \<le> (len :: nat)"
  by (metis Suc_leI add.commute le_trans mult_Suc mult_le_mono1)

lemma slots_disjoint: "i \<noteq> j \<Longrightarrow> i * n + n \<le> j * n \<or> j * n + n \<le> i * (n :: nat)"
  by (metis Suc_leI add.commute linorder_neqE_nat mult_Suc mult_le_mono1)

lemma length_slot_write:
  "slots_ok T cap bs \<Longrightarrow> i < cap \<Longrightarrow> length (slot_write T i v bs) = length bs"
  by (simp add: slots_ok_def slot_write_def slot_in_bounds pod_type.enc_length)

interpretation mapped: slot_array "slot_read T" "slot_write T" "slots_ok T cap" cap
proof unfold_locales
  fix bs i j v
  assume ok: "slots_ok T cap bs" and i: "i < cap" and j: "j < cap"
  let ?n = "unat (pod_size T)"
  have T: "pod_type T" and len: "length (pod_enc T v) = ?n"
    using ok by (simp_all add: slots_ok_def pod_type.enc_length)
  have bi: "i * ?n + ?n \<le> length bs" and bj: "j * ?n + ?n \<le> length bs"
    using ok i j by (simp_all add: slots_ok_def slot_in_bounds)
  show "slot_read T (slot_write T i v bs) j = (if j = i then v else slot_read T bs j)"
  proof (cases "j = i")
    case True
    then show ?thesis
      using bi len load_store_same [of "i * ?n" "pod_enc T v" bs] T
      by (simp add: slot_read_def slot_write_def pod_type.dec_enc)
  next
    case False
    then show ?thesis
      using bi bj len slots_disjoint [of i j ?n]
      by (auto simp: slot_read_def slot_write_def load_store_disjoint)
  qed
next
  fix bs i v
  assume "slots_ok T cap bs" and "i < cap"
  then show "slots_ok T cap (slot_write T i v bs)"
    using length_slot_write [of T cap bs i v] by (simp add: slots_ok_def)
qed

end
