(* ===== verification/Stream_Spec.thy ===== *)
theory Stream_Spec
  imports Prelude
begin

text \<open>
  What a single-producer multi-consumer ring promises, without any ring: an append-only stream of
  messages and one cursor per participating reader. A push is accepted exactly while the slowest
  cursor lags by less than the capacity; a pop returns the message under the reader's own cursor and
  moves that cursor only. This is the \<open>VecDeque\<close> oracle the crate's property test drives the
  ring against.

  The locale \<open>spmc_queue\<close> states that a pair of operations implements this stream. Its client
  lemmas carry the contract over to arbitrary sequences of operations.
\<close>

section \<open>The abstract stream\<close>

record 'v stream =
  msgs :: "'v list"
  cursors :: "nat list"

definition slowest :: "'v stream \<Rightarrow> nat" where
  "slowest S = Min (set (cursors S))"

definition stream_ok :: "nat \<Rightarrow> 'v stream \<Rightarrow> bool" where
  "stream_ok cap S \<longleftrightarrow> cursors S \<noteq> [] \<and> (\<forall>c \<in> set (cursors S). c \<le> length (msgs S))
     \<and> length (msgs S) \<le> slowest S + cap"

definition stream_new :: "nat \<Rightarrow> 'v stream" where
  "stream_new n = \<lparr>msgs = [], cursors = replicate n 0\<rparr>"

definition stream_push :: "nat \<Rightarrow> 'v \<Rightarrow> 'v stream \<Rightarrow> bool \<times> 'v stream" where
  "stream_push cap v S =
     (if length (msgs S) < slowest S + cap then (True, S\<lparr>msgs := msgs S @ [v]\<rparr>) else (False, S))"

definition stream_pop :: "nat \<Rightarrow> 'v stream \<Rightarrow> 'v option \<times> 'v stream" where
  "stream_pop i S =
     (let c = cursors S ! i in
      if c < length (msgs S) then (Some (msgs S ! c), S\<lparr>cursors := (cursors S)[i := Suc c]\<rparr>)
      else (None, S))"

lemma stream_okD:
  assumes "stream_ok cap S"
  shows "cursors S \<noteq> []" and "i < length (cursors S) \<Longrightarrow> cursors S ! i \<le> length (msgs S)"
    and "length (msgs S) \<le> slowest S + cap"
  using assms by (simp_all add: stream_ok_def)

lemma slowest_le: "i < length (cursors S) \<Longrightarrow> slowest S \<le> cursors S ! i"
  by (simp add: slowest_def)

lemma slowest_le_length:
  assumes "stream_ok cap S"
  shows "slowest S \<le> length (msgs S)"
proof -
  from stream_okD(1) [OF assms] have "0 < length (cursors S)" by simp
  with slowest_le [of 0 S] stream_okD(2) [OF assms, of 0] show ?thesis by simp
qed

lemma slowest_append [simp]: "slowest (S\<lparr>msgs := xs\<rparr>) = slowest S"
  by (simp add: slowest_def)

lemma slowest_pop_mono:
  assumes "i < length (cursors S)"
  shows "slowest S \<le> slowest (snd (stream_pop i S))"
  using assms Min_list_update_ge [of i "cursors S" "Suc (cursors S ! i)"]
  by (simp add: stream_pop_def slowest_def Let_def)

lemma stream_ok_new: "0 < n \<Longrightarrow> stream_ok cap (stream_new n)"
  by (simp add: stream_ok_def stream_new_def slowest_def)

lemma stream_ok_push: "stream_ok cap S \<Longrightarrow> stream_ok cap (snd (stream_push cap v S))"
  by (auto simp: stream_ok_def stream_push_def)

lemma stream_ok_pop:
  assumes ok: "stream_ok cap S" and i: "i < length (cursors S)"
  shows "stream_ok cap (snd (stream_pop i S))"
proof -
  have "c \<le> length (msgs S)"
    if "cursors S ! i < length (msgs S)" "c \<in> set ((cursors S)[i := Suc (cursors S ! i)])" for c
  proof (cases "c = Suc (cursors S ! i)")
    case False
    with that(2) have "c \<in> set (cursors S)"
      using set_update_subset_insert [of "cursors S" i "Suc (cursors S ! i)"] by auto
    with ok show ?thesis by (simp add: stream_ok_def)
  qed (use that(1) in simp)
  with ok slowest_pop_mono [OF i] show ?thesis
    by (fastforce simp: stream_ok_def stream_pop_def Let_def)
qed

lemma length_cursors_push [simp]: "cursors (snd (stream_push cap v S)) = cursors S"
  by (simp add: stream_push_def)

lemma length_cursors_pop [simp]: "length (cursors (snd (stream_pop i S))) = length (cursors S)"
  by (simp add: stream_pop_def Let_def)

lemma msgs_pop [simp]: "msgs (snd (stream_pop i S)) = msgs S"
  by (simp add: stream_pop_def Let_def)

section \<open>Sequences of operations\<close>

datatype 'v ring_op = Push 'v | Pop nat
datatype 'v answer = Pushed bool | Popped "'v option"

primrec stream_run :: "nat \<Rightarrow> 'v ring_op list \<Rightarrow> 'v stream \<Rightarrow> 'v answer list \<times> 'v stream" where
  "stream_run cap [] S = ([], S)"
| "stream_run cap (x # xs) S =
     (let (a, S1) = (case x of
            Push v \<Rightarrow> (let (r, S1) = stream_push cap v S in (Pushed r, S1))
          | Pop i \<Rightarrow> (let (r, S1) = stream_pop i S in (Popped r, S1)));
          (as, S2) = stream_run cap xs S1
      in (a # as, S2))"

definition op_valid :: "nat \<Rightarrow> 'v ring_op \<Rightarrow> bool" where
  "op_valid n x = (case x of Push v \<Rightarrow> True | Pop i \<Rightarrow> i < n)"

definition push_count :: "'v ring_op list \<Rightarrow> nat" where
  "push_count ops = length (filter (\<lambda>x. case x of Push v \<Rightarrow> True | Pop i \<Rightarrow> False) ops)"

text \<open>What one reader saw during a run, and what the producer got accepted.\<close>

fun reader_view :: "nat \<Rightarrow> 'v ring_op list \<Rightarrow> 'v answer list \<Rightarrow> 'v list" where
  "reader_view i (Pop j # ops) (Popped (Some v) # as) =
     (if i = j then v # reader_view i ops as else reader_view i ops as)"
| "reader_view i (x # ops) (a # as) = reader_view i ops as"
| "reader_view i _ _ = []"

fun accepted :: "'v ring_op list \<Rightarrow> 'v answer list \<Rightarrow> 'v list" where
  "accepted (Push v # ops) (Pushed True # as) = v # accepted ops as"
| "accepted (x # ops) (a # as) = accepted ops as"
| "accepted _ _ = []"

lemma push_count_simps [simp]:
  "push_count [] = 0" "push_count (Push v # ops) = Suc (push_count ops)"
  "push_count (Pop i # ops) = push_count ops"
  by (simp_all add: push_count_def)

lemma stream_run_Push:
  "stream_run cap (Push v # ops) S =
     (let (as, S2) = stream_run cap ops (snd (stream_push cap v S))
      in (Pushed (fst (stream_push cap v S)) # as, S2))"
  by (simp add: case_prod_beta)

lemma stream_run_Pop:
  "stream_run cap (Pop i # ops) S =
     (let (as, S2) = stream_run cap ops (snd (stream_pop i S))
      in (Popped (fst (stream_pop i S)) # as, S2))"
  by (simp add: case_prod_beta)

lemma stream_run_ok:
  "stream_ok cap S \<Longrightarrow> list_all (op_valid (length (cursors S))) ops \<Longrightarrow>
     stream_ok cap (snd (stream_run cap ops S))
     \<and> length (cursors (snd (stream_run cap ops S))) = length (cursors S)"
proof (induction ops arbitrary: S)
  case Nil
  then show ?case by simp
next
  case (Cons x ops)
  show ?case
  proof (cases x)
    case (Push v)
    then show ?thesis using Cons.IH [of "snd (stream_push cap v S)"] Cons.prems stream_ok_push [of cap S v]
      by (simp add: case_prod_beta)
  next
    case (Pop i)
    then have "i < length (cursors S)" using Cons.prems(2) by (simp add: op_valid_def)
    then show ?thesis using Pop Cons.IH [of "snd (stream_pop i S)"] Cons.prems stream_ok_pop [of cap S i]
      by (simp add: case_prod_beta)
  qed
qed

text \<open>The stream only grows, by exactly the accepted pushes.\<close>

lemma stream_run_msgs:
  "msgs (snd (stream_run cap ops S)) = msgs S @ accepted ops (fst (stream_run cap ops S))"
proof (induction ops arbitrary: S)
  case Nil
  then show ?case by simp
next
  case (Cons x ops)
  then show ?case
    by (cases x) (auto simp: case_prod_beta stream_push_def)
qed

lemma length_accepted: "length (accepted ops as) \<le> push_count ops"
  by (induction ops as rule: accepted.induct)
     (auto simp: push_count_def split: ring_op.split)

lemma stream_run_pushes: "length (msgs (snd (stream_run cap ops S))) \<le> length (msgs S) + push_count ops"
  using length_accepted by (simp add: stream_run_msgs)

text \<open>
  Every reader sees the stream from its cursor on, in order, with no gap and no duplicate.
\<close>

lemma stream_run_fifo:
  "stream_ok cap S \<Longrightarrow> list_all (op_valid (length (cursors S))) ops \<Longrightarrow> i < length (cursors S) \<Longrightarrow>
     stream_run cap ops S = (as, S') \<Longrightarrow>
     cursors S' ! i = cursors S ! i + length (reader_view i ops as) \<and>
     reader_view i ops as = take (length (reader_view i ops as)) (drop (cursors S ! i) (msgs S'))"
proof (induction ops arbitrary: S as)
  case Nil
  then show ?case by simp
next
  case (Cons x ops)
  show ?case
  proof (cases x)
    case (Push v)
    obtain as' where run: "stream_run cap ops (snd (stream_push cap v S)) = (as', S')"
      and as: "as = Pushed (fst (stream_push cap v S)) # as'"
      using Cons.prems(4) Push by (auto simp: stream_run_Push Let_def split: prod.splits)
    from Cons.IH [OF _ _ _ run] Cons.prems(1-3) Push show ?thesis
      by (simp add: as stream_ok_push)
  next
    case (Pop j)
    let ?S1 = "snd (stream_pop j S)"
    have j: "j < length (cursors S)" using Cons.prems(2) Pop by (simp add: op_valid_def)
    obtain as' where run: "stream_run cap ops ?S1 = (as', S')"
      and as: "as = Popped (fst (stream_pop j S)) # as'"
      using Cons.prems(4) Pop by (auto simp: stream_run_Pop Let_def split: prod.splits)
    have IH: "cursors S' ! i = cursors ?S1 ! i + length (reader_view i ops as')"
      "reader_view i ops as' = take (length (reader_view i ops as')) (drop (cursors ?S1 ! i) (msgs S'))"
      using Cons.IH [OF _ _ _ run] Cons.prems(1-3) j by (simp_all add: stream_ok_pop)
    show ?thesis
    proof (cases "i = j \<and> cursors S ! j < length (msgs S)")
      case True
      have "msgs S' = msgs S @ accepted ops as'"
        using stream_run_msgs [of cap ops ?S1] run by simp
      then have "drop (cursors S ! j) (msgs S') = msgs S ! (cursors S ! j) # drop (Suc (cursors S ! j)) (msgs S')"
        using True by (metis Cons_nth_drop_Suc length_append nth_append trans_less_add1)
      then show ?thesis using IH True Cons.prems(3) Pop
        by (simp add: as stream_pop_def Let_def)
    next
      case False
      then show ?thesis using IH Pop Cons.prems(3)
        by (auto simp: as stream_pop_def Let_def split: if_splits)
    qed
  qed
qed

section \<open>The contract of an implementation\<close>

primrec run_ops ::
  "('v \<Rightarrow> ('s, 'e, bool) act) \<Rightarrow> (nat \<Rightarrow> ('s, 'e, 'v option) act) \<Rightarrow> 'v ring_op list
     \<Rightarrow> ('s, 'e, 'v answer list) act" where
  "run_ops push pop [] = ret []"
| "run_ops push pop (x # xs) =
     bind_act (case x of
         Push v \<Rightarrow> bind_act (push v) (\<lambda>r. ret (Pushed r))
       | Pop i \<Rightarrow> bind_act (pop i) (\<lambda>r. ret (Popped r)))
       (\<lambda>a. bind_act (run_ops push pop xs) (\<lambda>as. ret (a # as)))"

locale spmc_queue =
  fixes push :: "'v \<Rightarrow> ('s, 'e, bool) act"
    and pop :: "nat \<Rightarrow> ('s, 'e, 'v option) act"
    and rel :: "'s \<Rightarrow> 'v stream \<Rightarrow> bool"
    and cap :: nat
    and bound :: nat  \<comment> \<open>messages the index type can count\<close>
  assumes rel_ok: "rel s S \<Longrightarrow> stream_ok cap S"
    and push_refines: "rel s S \<Longrightarrow> length (msgs S) < bound \<Longrightarrow>
      \<exists>s'. push v s = (Done (fst (stream_push cap v S)), s') \<and> rel s' (snd (stream_push cap v S))"
    and pop_refines: "rel s S \<Longrightarrow> i < length (cursors S) \<Longrightarrow>
      \<exists>s'. pop i s = (Done (fst (stream_pop i S)), s') \<and> rel s' (snd (stream_pop i S))"

context spmc_queue begin

lemma run_refines:
  "rel s S \<Longrightarrow> list_all (op_valid (length (cursors S))) ops \<Longrightarrow>
     length (msgs S) + push_count ops \<le> bound \<Longrightarrow>
     \<exists>s'. run_ops push pop ops s = (Done (fst (stream_run cap ops S)), s')
        \<and> rel s' (snd (stream_run cap ops S))"
proof (induction ops arbitrary: s S)
  case Nil
  then show ?case by (simp add: act_simps)
next
  case (Cons x ops)
  show ?case
  proof (cases x)
    case (Push v)
    obtain s1 where s1: "push v s = (Done (fst (stream_push cap v S)), s1)"
      "rel s1 (snd (stream_push cap v S))"
      using push_refines [OF Cons.prems(1), of v] Cons.prems(3) Push by auto
    have "length (msgs (snd (stream_push cap v S))) \<le> Suc (length (msgs S))"
      by (simp add: stream_push_def)
    with Cons.IH [OF s1(2)] Cons.prems(2,3) Push obtain s2 where
      "run_ops push pop ops s1 = (Done (fst (stream_run cap ops (snd (stream_push cap v S)))), s2)"
      "rel s2 (snd (stream_run cap ops (snd (stream_push cap v S))))"
      by auto
    then show ?thesis using Push s1
      by (simp add: act_simps bind_act_Done case_prod_beta)
  next
    case (Pop i)
    then have i: "i < length (cursors S)" using Cons.prems(2) by (simp add: op_valid_def)
    obtain s1 where s1: "pop i s = (Done (fst (stream_pop i S)), s1)" "rel s1 (snd (stream_pop i S))"
      using pop_refines [OF Cons.prems(1) i] by auto
    with Cons.IH [OF s1(2)] Cons.prems(2,3) Pop obtain s2 where
      "run_ops push pop ops s1 = (Done (fst (stream_run cap ops (snd (stream_pop i S)))), s2)"
      "rel s2 (snd (stream_run cap ops (snd (stream_pop i S))))"
      by auto
    then show ?thesis using Pop s1
      by (simp add: act_simps bind_act_Done case_prod_beta)
  qed
qed

text \<open>FIFO for the implementation: what a reader pops is a segment of the stream.\<close>

lemma run_fifo:
  assumes "rel s S" and "list_all (op_valid (length (cursors S))) ops"
    and "length (msgs S) + push_count ops \<le> bound" and "i < length (cursors S)"
  obtains as s' S' where "run_ops push pop ops s = (Done as, s')" and "rel s' S'"
    and "msgs S' = msgs S @ accepted ops as"
    and "cursors S' ! i = cursors S ! i + length (reader_view i ops as)"
    and "reader_view i ops as = take (length (reader_view i ops as)) (drop (cursors S ! i) (msgs S'))"
    and "length (cursors S') = length (cursors S)"
proof -
  let ?R = "stream_run cap ops S"
  obtain s' where s': "run_ops push pop ops s = (Done (fst ?R), s')" "rel s' (snd ?R)"
    using run_refines [OF assms(1-3)] by auto
  have "stream_run cap ops S = (fst ?R, snd ?R)" by simp
  note stream_run_fifo [OF rel_ok [OF assms(1)] assms(2,4) this]
  with s' stream_run_msgs [of cap ops S] stream_run_ok [OF rel_ok [OF assms(1)] assms(2)]
  show ?thesis by (intro that [of "fst ?R" s' "snd ?R"]) auto
qed

end

end
