(* ===== verification/Ring.thy ===== *)
theory Ring
  imports Ring_Header Slot_Array Stream_Spec
begin

text \<open>
  The ring's operations on a handle (\<open>src/ring.rs\<close>): \<open>slot_ptr\<close>,
  \<open>try_push\<close>, \<open>try_pop\<close>, \<open>peek\<close> and the diagnostics. A handle owns its
  view of the mapping and the handle-local loan bookkeeping. Slot pointers are byte offsets from the
  mapping base; an access outside the slot area is a \<open>Fault\<close>. The invariant
  \<open>ring_rel\<close> relates a handle to an abstract stream, and the operations are shown to implement
  \<open>stream_push\<close> and \<open>stream_pop\<close> in both build modes.
\<close>

section \<open>State\<close>

text \<open>The mapped file: the header and the bytes that follow it.\<close>

record mapping =
  hdr :: RingHeader
  data :: "u8 list"

record SpmcRingBuffer =
  mmap :: mapping
  capacity :: usize
  path :: string
  claim_base :: "u64 list"
  loan_depth :: "u64 list"

abbreviation rhdr :: "SpmcRingBuffer \<Rightarrow> RingHeader" where
  "rhdr r \<equiv> hdr (mmap r)"

abbreviation rdata :: "SpmcRingBuffer \<Rightarrow> u8 list" where
  "rdata r \<equiv> data (mmap r)"

abbreviation cap_of :: "SpmcRingBuffer \<Rightarrow> nat" where
  "cap_of r \<equiv> unat (capacity r)"

definition DATA_OFFSET :: usize where "DATA_OFFSET = HEADER_SIZE"

definition upd_hdr :: "(RingHeader \<Rightarrow> RingHeader) \<Rightarrow> SpmcRingBuffer \<Rightarrow> SpmcRingBuffer" where
  "upd_hdr f r = r\<lparr>mmap := (mmap r)\<lparr>hdr := f (rhdr r)\<rparr>\<rparr>"

definition upd_data :: "(u8 list \<Rightarrow> u8 list) \<Rightarrow> SpmcRingBuffer \<Rightarrow> SpmcRingBuffer" where
  "upd_data f r = r\<lparr>mmap := (mmap r)\<lparr>data := f (rdata r)\<rparr>\<rparr>"

type_synonym 'a ring_act = "(SpmcRingBuffer, ShmRingError, 'a) act"

section \<open>Slot access\<close>

definition slot_ptr :: "build \<Rightarrow> 'a pod \<Rightarrow> u64 \<Rightarrow> SpmcRingBuffer \<Rightarrow> (ShmRingError, usize) outcome" where
  "slot_ptr b T idx r =
     bind_out (sub_w b (capacity r) 1) (\<lambda>m.
       let slot = idx AND m in
       bind_out (mul_w b slot (pod_size T)) (\<lambda>off. add_w b DATA_OFFSET off))"

definition in_slot_area :: "'a pod \<Rightarrow> usize \<Rightarrow> SpmcRingBuffer \<Rightarrow> bool" where
  "in_slot_area T p r \<longleftrightarrow>
     unat DATA_OFFSET \<le> unat p \<and> unat p + unat (pod_size T) \<le> unat DATA_OFFSET + length (rdata r)"

definition read_volatile :: "'a pod \<Rightarrow> usize \<Rightarrow> SpmcRingBuffer \<Rightarrow> (ShmRingError, 'a) outcome" where
  "read_volatile T p r =
     (if in_slot_area T p r
      then Done (pod_dec T (load (unat p - unat DATA_OFFSET) (unat (pod_size T)) (rdata r)))
      else Fault)"

definition write_volatile :: "'a pod \<Rightarrow> usize \<Rightarrow> 'a \<Rightarrow> unit ring_act" where
  "write_volatile T p v r =
     (if in_slot_area T p r
      then (Done (), upd_data (store (unat p - unat DATA_OFFSET) (pod_enc T v)) r)
      else (Fault, r))"

section \<open>Operations\<close>

definition try_push :: "build \<Rightarrow> 'a pod \<Rightarrow> 'a \<Rightarrow> bool ring_act" where
  "try_push b T v =
     bind_act (gets (\<lambda>r. write_idx (rhdr r))) (\<lambda>w.
     bind_act (gets (\<lambda>r. reader_count_of (rhdr r))) (\<lambda>n.
     bind_act (asks (\<lambda>r. slowest_read_idx n (rhdr r))) (\<lambda>min_read.
     bind_act (lift_out (sub_w b w min_read)) (\<lambda>lag.
     bind_act (gets capacity) (\<lambda>c.
     if c \<le> lag then ret False
     else
       bind_act (asks (slot_ptr b T w)) (\<lambda>slot.
       bind_act (write_volatile T slot v) (\<lambda>_.
       bind_act (lift_out (add_w b w 1)) (\<lambda>w'.
       bind_act (modify (upd_hdr (set_write_idx w'))) (\<lambda>_.
       bind_act (modify (upd_hdr bump_total_written)) (\<lambda>_. ret True))))))))))"

definition check_reader :: "build \<Rightarrow> usize \<Rightarrow> SpmcRingBuffer \<Rightarrow> (ShmRingError, unit) outcome" where
  "check_reader b rid r =
     (let n = reader_count_of (rhdr r) in
      if n \<le> rid then bind_out (sub_w b n 1) (\<lambda>m. Fail (InvalidReaderId rid m)) else Done ())"

text \<open>An element of one of the handle's per-reader arrays: indexing past the end panics.\<close>

definition array_get :: "'a list \<Rightarrow> usize \<Rightarrow> ('e, 'a) outcome" where
  "array_get xs i = (if unat i < length xs then Done (xs ! unat i) else Panic)"

definition store_read_idx :: "usize \<Rightarrow> u64 \<Rightarrow> unit ring_act" where
  "store_read_idx rid v =
     bind_act (asks (\<lambda>r. set_read_idx rid v (rhdr r))) (\<lambda>h. modify (upd_hdr (\<lambda>_. h)))"

definition try_pop :: "build \<Rightarrow> 'a pod \<Rightarrow> usize \<Rightarrow> 'a option ring_act" where
  "try_pop b T rid =
     bind_act (asks (check_reader b rid)) (\<lambda>_.
     bind_act (asks (\<lambda>r. array_get (loan_depth r) rid)) (\<lambda>depth.
     if depth \<noteq> 0 then fail (LoanOutstanding rid)
     else
       bind_act (gets (\<lambda>r. write_idx (rhdr r))) (\<lambda>w.
       bind_act (asks (\<lambda>r. read_idx rid (rhdr r))) (\<lambda>ri.
       if ri = w then ret None
       else
         bind_act (asks (slot_ptr b T ri)) (\<lambda>slot.
         bind_act (asks (read_volatile T slot)) (\<lambda>value.
         bind_act (lift_out (add_w b ri 1)) (\<lambda>ri'.
         bind_act (store_read_idx rid ri') (\<lambda>_. ret (Some value)))))))))"

text \<open>\<open>peek\<close> returns the slot pointer and dereferences nothing.\<close>

definition peek :: "build \<Rightarrow> 'a pod \<Rightarrow> usize \<Rightarrow> SpmcRingBuffer \<Rightarrow> (ShmRingError, usize option) outcome" where
  "peek b T rid r =
     bind_out (check_reader b rid r) (\<lambda>_.
       let w = write_idx (rhdr r) in
       bind_out (read_idx rid (rhdr r)) (\<lambda>ri.
         if ri = w then Done None else bind_out (slot_ptr b T ri r) (\<lambda>p. Done (Some p))))"

definition reader_count :: "SpmcRingBuffer \<Rightarrow> usize" where
  "reader_count r = reader_count_of (rhdr r)"

definition len :: "build \<Rightarrow> usize \<Rightarrow> SpmcRingBuffer \<Rightarrow> (ShmRingError, u64) outcome" where
  "len b rid r =
     bind_out (check_reader b rid r) (\<lambda>_.
       let w = write_idx (rhdr r) in bind_out (read_idx rid (rhdr r)) (\<lambda>ri. Done (w - ri)))"

definition is_empty :: "build \<Rightarrow> usize \<Rightarrow> SpmcRingBuffer \<Rightarrow> (ShmRingError, bool) outcome" where
  "is_empty b rid r = bind_out (len b rid r) (\<lambda>n. Done (n = 0))"

definition slowest_lag :: "SpmcRingBuffer \<Rightarrow> (ShmRingError, u64) outcome" where
  "slowest_lag r =
     (let n = reader_count_of (rhdr r); w = write_idx (rhdr r) in
      bind_out (slowest_read_idx n (rhdr r)) (\<lambda>m. Done (w - m)))"

section \<open>The invariant\<close>

text \<open>The structural part: what the constructors establish and nothing may change.\<close>

definition layout_ok :: "'a pod \<Rightarrow> SpmcRingBuffer \<Rightarrow> bool" where
  "layout_ok T r \<longleftrightarrow>
     is_power_of_two (capacity r) \<and> slots_ok T (cap_of r) (rdata r)
     \<and> 256 + cap_of r * unat (pod_size T) < 2 ^ 64"

definition ring_wf :: "'a pod \<Rightarrow> SpmcRingBuffer \<Rightarrow> bool" where
  "ring_wf T r \<longleftrightarrow>
     header_wf (rhdr r) \<and> layout_ok T r
     \<and> 1 \<le> unat (num_readers (rhdr r)) \<and> unat (num_readers (rhdr r)) \<le> 8
     \<and> length (claim_base r) = 8 \<and> length (loan_depth r) = 8"

text \<open>The ring holds the stream \<open>S\<close>: its counters, and every message a reader may still need.\<close>

definition ring_rel :: "'a pod \<Rightarrow> SpmcRingBuffer \<Rightarrow> 'a stream \<Rightarrow> bool" where
  "ring_rel T r S \<longleftrightarrow>
     ring_wf T r
     \<and> unat (write_idx (rhdr r)) = length (msgs S) \<and> total_written (rhdr r) = write_idx (rhdr r)
     \<and> map unat (take (unat (num_readers (rhdr r))) (read_indices (rhdr r))) = cursors S
     \<and> stream_ok (cap_of r) S
     \<and> live_window (slot_read T) (cap_of r) (msgs S) (slowest S) (rdata r)"

definition no_loans :: "SpmcRingBuffer \<Rightarrow> bool" where
  "no_loans r \<longleftrightarrow> (\<forall>d \<in> set (loan_depth r). d = 0)"

lemma ring_wfD:
  assumes "ring_wf T r"
  shows "header_wf (rhdr r)" "is_power_of_two (capacity r)" "slots_ok T (cap_of r) (rdata r)"
    "256 + cap_of r * unat (pod_size T) < 2 ^ 64" "1 \<le> unat (num_readers (rhdr r))"
    "unat (num_readers (rhdr r)) \<le> 8" "length (read_indices (rhdr r)) = 8"
    "length (claim_base r) = 8" "length (loan_depth r) = 8" "pod_type T" "layout_ok T r"
  using assms by (simp_all add: ring_wf_def layout_ok_def header_wf_def slots_ok_def)

lemma layout_okD:
  assumes "layout_ok T r"
  shows "is_power_of_two (capacity r)" "slots_ok T (cap_of r) (rdata r)"
    "256 + cap_of r * unat (pod_size T) < 2 ^ 64"
  using assms by (simp_all add: layout_ok_def)

lemma ring_relD:
  assumes "ring_rel T r S"
  shows "ring_wf T r" "unat (write_idx (rhdr r)) = length (msgs S)"
    "total_written (rhdr r) = write_idx (rhdr r)"
    "map unat (take (unat (num_readers (rhdr r))) (read_indices (rhdr r))) = cursors S"
    "stream_ok (cap_of r) S"
    "live_window (slot_read T) (cap_of r) (msgs S) (slowest S) (rdata r)"
  using assms by (simp_all add: ring_rel_def)

lemma cap_pos: "layout_ok T r \<Longrightarrow> 0 < cap_of r"
  using is_power_of_two_nonzero [OF layout_okD(1)] by (simp add: unat_gt_0)

lemma unat_reader_count [word_nat]: "unat (reader_count_of h) = unat (num_readers h)"
proof -
  have "unat (num_readers h) < 2 ^ LENGTH(32)" by (rule unsigned_less)
  then have "unat (num_readers h) < 2 ^ LENGTH(64)" by simp
  then show ?thesis by (simp add: reader_count_of_def unsigned_ucast_eq take_bit_nat_eq_self)
qed

lemma ring_rel_layout: "ring_rel T r S \<Longrightarrow> layout_ok T r"
  by (rule ring_wfD(11) [OF ring_relD(1)])

lemma upd_hdr_simps [simp]:
  "rhdr (upd_hdr f r) = f (rhdr r)" "rdata (upd_hdr f r) = rdata r" "capacity (upd_hdr f r) = capacity r"
  "path (upd_hdr f r) = path r" "claim_base (upd_hdr f r) = claim_base r"
  "loan_depth (upd_hdr f r) = loan_depth r"
  by (simp_all add: upd_hdr_def)

lemma upd_data_simps [simp]:
  "rhdr (upd_data f r) = rhdr r" "rdata (upd_data f r) = f (rdata r)" "capacity (upd_data f r) = capacity r"
  "path (upd_data f r) = path r" "claim_base (upd_data f r) = claim_base r"
  "loan_depth (upd_data f r) = loan_depth r"
  by (simp_all add: upd_data_def)

lemma length_cursors:
  assumes "ring_rel T r S"
  shows "length (cursors S) = unat (num_readers (rhdr r))"
proof -
  note wf = ring_wfD [OF ring_relD(1) [OF assms]]
  have "length (map unat (take (unat (num_readers (rhdr r))) (read_indices (rhdr r))))
      = unat (num_readers (rhdr r))"
    using wf(6,7) by simp
  then show ?thesis by (simp only: ring_relD(4) [OF assms])
qed

lemma cursor_nth:
  assumes "ring_rel T r S" and "i < length (cursors S)"
  shows "cursors S ! i = unat (read_indices (rhdr r) ! i)" and "i < 8"
    and "i < length (read_indices (rhdr r))"
proof -
  note wf = ring_wfD [OF ring_relD(1) [OF assms(1)]]
  show "i < 8" and "i < length (read_indices (rhdr r))"
    using assms(2) length_cursors [OF assms(1)] wf(6,7) by simp_all
  show "cursors S ! i = unat (read_indices (rhdr r) ! i)"
    using assms(2) length_cursors [OF assms(1)] wf(6,7) by (simp flip: ring_relD(4) [OF assms(1)])
qed

section \<open>Slot pointers\<close>

text \<open>In a ring whose layout fits the mapping a slot pointer never overflows and is the masked slot's offset.\<close>

lemma slot_ptr_Done:
  assumes "layout_ok T r"
  obtains p where "slot_ptr b T idx r = Done p"
    and "unat p = 256 + (unat idx mod cap_of r) * unat (pod_size T)"
proof -
  note lay = layout_okD [OF assms]
  let ?slot = "idx AND (capacity r - 1)" and ?n = "unat (pod_size T)"
  have slot: "unat ?slot = unat idx mod cap_of r"
    using lay(1) by (rule unat_and_pow2_mask)
  have "unat ?slot < cap_of r" using slot cap_pos [OF assms] by simp
  then have "unat ?slot * ?n \<le> cap_of r * ?n" by (intro mult_le_mono1) simp
  then have le: "256 + unat ?slot * ?n < 2 ^ 64"
    using lay(3) by linarith
  have mul: "mul_w b ?slot (pod_size T) = (Done (?slot * pod_size T) :: (ShmRingError, usize) outcome)"
    using le by (intro mul_w_Done) simp
  have unat_mul: "unat (?slot * pod_size T) = unat ?slot * ?n"
    using le by (simp add: unat_word_ariths)
  have bound: "unat DATA_OFFSET + unat (?slot * pod_size T) < 2 ^ LENGTH(64)"
    using le unat_mul by (simp add: DATA_OFFSET_def HEADER_SIZE_def)
  have add: "add_w b DATA_OFFSET (?slot * pod_size T)
      = (Done (DATA_OFFSET + ?slot * pod_size T) :: (ShmRingError, usize) outcome)"
    using bound by (rule add_w_Done)
  have "sub_w b (capacity r) 1 = (Done (capacity r - 1) :: (ShmRingError, usize) outcome)"
    using cap_pos [OF assms] by (intro sub_w_Done) simp
  then have "slot_ptr b T idx r = Done (DATA_OFFSET + ?slot * pod_size T)"
    by (simp add: slot_ptr_def mul add)
  moreover have "unat (DATA_OFFSET + ?slot * pod_size T) = unat DATA_OFFSET + unat (?slot * pod_size T)"
    using bound by (simp add: unat_word_ariths)
  then have "unat (DATA_OFFSET + ?slot * pod_size T) = 256 + (unat idx mod cap_of r) * ?n"
    by (simp add: unat_mul slot) (simp add: DATA_OFFSET_def HEADER_SIZE_def)
  ultimately show ?thesis by (rule that)
qed

lemma unat_DATA_OFFSET [simp]: "unat DATA_OFFSET = 256"
  by (simp add: DATA_OFFSET_def HEADER_SIZE_def)

lemma slot_in_area:
  assumes "layout_ok T r" and "unat p = 256 + (unat (idx :: u64) mod cap_of r) * unat (pod_size T)"
  shows "in_slot_area T p r"
proof -
  have "cap_of r * unat (pod_size T) \<le> length (rdata r)"
    using layout_okD(2) [OF assms(1)] by (simp add: slots_ok_def)
  with cap_pos [OF assms(1)] show ?thesis
    using slot_in_bounds [of "unat idx mod cap_of r" "cap_of r" "unat (pod_size T)" "length (rdata r)"]
    by (simp add: in_slot_area_def assms(2))
qed

lemma read_slot_Done:
  assumes "layout_ok T r" and "slot_ptr b T idx r = Done p"
  shows "read_volatile T p r = Done (slot_read T (rdata r) (unat idx mod cap_of r))"
proof -
  obtain q where "slot_ptr b T idx r = Done q"
    and q: "unat q = 256 + (unat idx mod cap_of r) * unat (pod_size T)"
    by (rule slot_ptr_Done [OF assms(1)])
  with assms(2) have "p = q" by simp
  then show ?thesis using slot_in_area [OF assms(1) q] q
    by (simp add: read_volatile_def slot_read_def)
qed

lemma write_slot_Done:
  assumes "layout_ok T r" and "slot_ptr b T idx r = Done p"
  shows "write_volatile T p v r = (Done (), upd_data (slot_write T (unat idx mod cap_of r) v) r)"
proof -
  obtain q where "slot_ptr b T idx r = Done q"
    and q: "unat q = 256 + (unat idx mod cap_of r) * unat (pod_size T)"
    by (rule slot_ptr_Done [OF assms(1)])
  with assms(2) have "p = q" by simp
  then show ?thesis using slot_in_area [OF assms(1) q] q
    by (simp add: write_volatile_def slot_write_def [abs_def])
qed

section \<open>The operations implement the stream\<close>

lemma slowest_Done:
  assumes "ring_rel T r S"
  obtains m where "slowest_read_idx (reader_count_of (rhdr r)) (rhdr r) = (Done m :: ('e, u64) outcome)"
    and "unat m = slowest S"
proof -
  note wf = ring_wfD [OF ring_relD(1) [OF assms]]
  let ?rs = "take (unat (num_readers (rhdr r))) (read_indices (rhdr r))"
  have "?rs \<noteq> []" using wf(5,7) by (auto simp: take_eq_Nil)
  then have "unat (foldl min (- 1) ?rs) = slowest S"
    using ring_relD(4) [OF assms] by (simp add: unat_foldl_min_max slowest_def)
  moreover have "slowest_read_idx (reader_count_of (rhdr r)) (rhdr r)
      = (Done (foldl min (- 1) ?rs) :: ('e, u64) outcome)"
    using wf(6,7) by (simp add: slowest_read_idx_def unat_reader_count)
  ultimately show ?thesis by (intro that) auto
qed

lemma lag_Done:
  assumes "ring_rel T r S" and "unat m = slowest S"
  shows "sub_w b (write_idx (rhdr r)) m = Done (write_idx (rhdr r) - m)"
    and "unat (write_idx (rhdr r) - m) = length (msgs S) - slowest S"
  using slowest_le_length [OF ring_relD(5) [OF assms(1)]] ring_relD(2) [OF assms(1)] assms(2)
  by (simp_all add: sub_w_Done unat_sub word_le_nat_alt)

text \<open>What a successful push leaves behind.\<close>

definition pushed_state :: "'a pod \<Rightarrow> 'a \<Rightarrow> SpmcRingBuffer \<Rightarrow> SpmcRingBuffer" where
  "pushed_state T v r =
     upd_hdr bump_total_written (upd_hdr (set_write_idx (write_idx (rhdr r) + 1))
       (upd_data (slot_write T (unat (write_idx (rhdr r)) mod cap_of r) v) r))"

lemma try_push_exec:
  assumes rel: "ring_rel T r S" and bound: "length (msgs S) < 2 ^ 64 - 1"
  shows "try_push b T v r =
     (if length (msgs S) < slowest S + cap_of r then (Done True, pushed_state T v r) else (Done False, r))"
proof -
  let ?w = "write_idx (rhdr r)"
  obtain m where m: "slowest_read_idx (reader_count_of (rhdr r)) (rhdr r) = (Done m :: (ShmRingError, u64) outcome)"
    and um: "unat m = slowest S"
    by (rule slowest_Done [OF rel])
  note lag = lag_Done [OF rel um]
  have full: "capacity r \<le> ?w - m \<longleftrightarrow> \<not> length (msgs S) < slowest S + cap_of r"
    using lag(2) slowest_le_length [OF ring_relD(5) [OF rel]] by (simp add: word_le_nat_alt) linarith
  obtain p where p: "slot_ptr b T ?w r = Done p"
    using slot_ptr_Done [OF ring_rel_layout [OF rel], of b ?w] by blast
  have w1: "add_w b ?w 1 = (Done (?w + 1) :: (ShmRingError, u64) outcome)"
    using ring_relD(2) [OF rel] bound by (intro add_w_Done) simp
  show ?thesis
    unfolding try_push_def
    by (simp add: act_simps m lag(1) full p w1 bind_act_Done write_slot_Done [OF ring_rel_layout [OF rel] p]
          pushed_state_def)
qed

lemma ring_wf_pushed: "ring_wf T r \<Longrightarrow> ring_wf T (pushed_state T v r)"
  using length_slot_write [OF ring_wfD(3), of T r "unat (write_idx (rhdr r)) mod cap_of r" v] cap_pos [of T r]
  by (auto simp: ring_wf_def layout_ok_def header_wf_def pushed_state_def bump_total_written_def
      set_write_idx_def slots_ok_def)

lemma try_push_refines:
  assumes rel: "ring_rel T r S" and bound: "length (msgs S) < 2 ^ 64 - 1"
  shows "\<exists>r'. try_push b T v r = (Done (fst (stream_push (cap_of r) v S)), r')
     \<and> ring_rel T r' (snd (stream_push (cap_of r) v S))
     \<and> claim_base r' = claim_base r \<and> loan_depth r' = loan_depth r \<and> capacity r' = capacity r"
proof (cases "length (msgs S) < slowest S + cap_of r")
  case True
  let ?r = "pushed_state T v r" and ?S = "S\<lparr>msgs := msgs S @ [v]\<rparr>"
  have w: "unat (write_idx (rhdr r) + 1) = Suc (length (msgs S))"
    using ring_relD(2) [OF rel] bound by (simp add: unat_add_one)
  have "live_window (slot_read T) (cap_of r) (msgs S @ [v]) (slowest S)
      (slot_write T (length (msgs S) mod cap_of r) v (rdata r))"
    by (rule mapped.live_window_append [OF ring_wfD(3) [OF ring_relD(1) [OF rel]] ring_relD(6) [OF rel] True])
  moreover have "stream_ok (cap_of r) ?S"
    using stream_ok_push [OF ring_relD(5) [OF rel], of v] True by (simp add: stream_push_def)
  ultimately have "ring_rel T ?r ?S"
    using ring_wf_pushed [OF ring_relD(1) [OF rel]] ring_relD(2-4) [OF rel] w
    by (simp add: ring_rel_def pushed_state_def bump_total_written_def set_write_idx_def)
  with True show ?thesis
    by (simp add: try_push_exec [OF assms] stream_push_def pushed_state_def)
next
  case False
  with rel show ?thesis by (simp add: try_push_exec [OF assms] stream_push_def)
qed

text \<open>Readers are numbered by \<open>nat\<close> in the specification and by \<open>usize\<close> in the code.\<close>

lemma unat_reader_id: "i < 8 \<Longrightarrow> unat (of_nat i :: usize) = i"
  by (simp add: unat_of_nat)

lemma check_reader_Done:
  assumes "ring_rel T r S" and "unat rid < length (cursors S)"
  shows "check_reader b rid r = Done ()"
  using assms length_cursors [OF assms(1)]
  by (simp add: check_reader_def word_le_nat_alt unat_reader_count)

lemma check_reader_Fail:
  assumes "ring_wf T r" and "unat (num_readers (rhdr r)) \<le> unat rid"
  shows "check_reader b rid r = Fail (InvalidReaderId rid (reader_count_of (rhdr r) - 1))"
proof -
  have "1 \<le> unat (reader_count_of (rhdr r))"
    using ring_wfD(5) [OF assms(1)] by (simp add: unat_reader_count)
  then have "sub_w b (reader_count_of (rhdr r)) 1
      = (Done (reader_count_of (rhdr r) - 1) :: (ShmRingError, usize) outcome)"
    by (simp add: sub_w_Done)
  then show ?thesis using assms(2)
    by (simp add: check_reader_def word_le_nat_alt unat_reader_count)
qed

definition popped_state :: "usize \<Rightarrow> SpmcRingBuffer \<Rightarrow> SpmcRingBuffer" where
  "popped_state rid r =
     upd_hdr (\<lambda>h. h\<lparr>read_indices := (read_indices h)[unat rid := read_indices h ! unat rid + 1]\<rparr>) r"

lemma store_read_idx_Done:
  assumes "unat rid < length (read_indices (rhdr r))"
  shows "store_read_idx rid v r =
     (Done (), upd_hdr (\<lambda>h. h\<lparr>read_indices := (read_indices h)[unat rid := v]\<rparr>) r)"
  using assms by (simp add: store_read_idx_def act_simps set_read_idx_def upd_hdr_def)

lemma cursor_word:
  assumes rel: "ring_rel T r S" and i: "unat rid < length (cursors S)"
  shows "read_idx rid (rhdr r) = Done (read_indices (rhdr r) ! unat rid)"
    and "unat (read_indices (rhdr r) ! unat rid) = cursors S ! unat rid"
    and "read_indices (rhdr r) ! unat rid = write_idx (rhdr r) \<longleftrightarrow> cursors S ! unat rid = length (msgs S)"
  using cursor_nth [OF assms] ring_relD(2) [OF rel]
  by (simp_all add: read_idx_def word_unat_eq_iff)

lemma try_pop_exec:
  assumes rel: "ring_rel T r S" and i: "unat rid < length (cursors S)"
    and gate: "loan_depth r ! unat rid = 0"
  shows "try_pop b T rid r =
     (if cursors S ! unat rid < length (msgs S)
      then (Done (Some (msgs S ! (cursors S ! unat rid))), popped_state rid r) else (Done None, r))"
proof -
  let ?c = "read_indices (rhdr r) ! unat rid"
  note wf = ring_relD(1) [OF rel] and cur = cursor_word [OF rel i] cursor_nth [OF rel i]
  have le: "cursors S ! unat rid \<le> length (msgs S)"
    using stream_okD(2) [OF ring_relD(5) [OF rel] i] .
  have gate': "array_get (loan_depth r) rid = (Done 0 :: (ShmRingError, u64) outcome)"
    using gate cur(5) ring_wfD(9) [OF wf] by (simp add: array_get_def)
  obtain p where p: "slot_ptr b T ?c r = Done p"
    using slot_ptr_Done [OF ring_rel_layout [OF rel], of b ?c] by blast
  show ?thesis
  proof (cases "cursors S ! unat rid < length (msgs S)")
    case True
    have v: "slot_read T (rdata r) (unat ?c mod cap_of r) = msgs S ! (cursors S ! unat rid)"
      using live_windowD [OF ring_relD(6) [OF rel] slowest_le [OF i] True] cur(2) by simp
    have "unat ?c + 1 < 2 ^ 64"
      using True cur(2) ring_relD(2) [OF rel] unat_less_2p64 [of "write_idx (rhdr r)"] by simp
    then have a: "add_w b ?c 1 = (Done (?c + 1) :: (ShmRingError, u64) outcome)"
      by (intro add_w_Done) simp
    show ?thesis using True cur(3)
      by (simp add: try_pop_def act_simps check_reader_Done [OF rel i] gate' cur(1) p
            read_slot_Done [OF ring_rel_layout [OF rel] p] v a bind_act_Done store_read_idx_Done [OF cur(6)]
            popped_state_def upd_hdr_def)
  next
    case False
    with le cur(3) show ?thesis
      by (simp add: try_pop_def act_simps check_reader_Done [OF rel i] gate' cur(1))
  qed
qed

text \<open>Moving one cursor forward, by at most the published messages, keeps the relation.\<close>

lemma ring_rel_advance:
  assumes rel: "ring_rel T r S" and i: "unat rid < length (cursors S)"
    and lt: "cursors S ! unat rid < length (msgs S)"
  shows "ring_rel T (popped_state rid r) (S\<lparr>cursors := (cursors S)[unat rid := Suc (cursors S ! unat rid)]\<rparr>)"
proof -
  let ?c = "read_indices (rhdr r) ! unat rid"
  let ?S = "S\<lparr>cursors := (cursors S)[unat rid := Suc (cursors S ! unat rid)]\<rparr>"
  have S: "?S = snd (stream_pop (unat rid) S)" using lt by (simp add: stream_pop_def Let_def)
  have "unat (?c + 1) = Suc (cursors S ! unat rid)"
    using cursor_word(2) [OF rel i] lt ring_relD(2) [OF rel] unat_less_2p64 [of "write_idx (rhdr r)"]
    by (simp add: unat_add_one)
  then have "map unat (take (unat (num_readers (rhdr r))) ((read_indices (rhdr r))[unat rid := ?c + 1]))
      = (cursors S)[unat rid := Suc (cursors S ! unat rid)]"
    by (simp add: take_update_swap map_update ring_relD(4) [OF rel])
  moreover have "live_window (slot_read T) (cap_of r) (msgs S) (slowest ?S) (rdata r)"
    using live_window_mono [OF ring_relD(6) [OF rel]] slowest_pop_mono [OF i] S by simp
  moreover have "stream_ok (cap_of r) ?S"
    using stream_ok_pop [OF ring_relD(5) [OF rel] i] S by simp
  moreover have "ring_wf T (popped_state rid r)"
    using ring_relD(1) [OF rel] by (simp add: ring_wf_def layout_ok_def popped_state_def header_wf_def)
  ultimately show ?thesis using ring_relD(2,3) [OF rel]
    by (simp add: ring_rel_def popped_state_def)
qed

lemma try_pop_refines:
  assumes rel: "ring_rel T r S" and i: "unat rid < length (cursors S)"
    and gate: "loan_depth r ! unat rid = 0"
  shows "\<exists>r'. try_pop b T rid r = (Done (fst (stream_pop (unat rid) S)), r')
     \<and> ring_rel T r' (snd (stream_pop (unat rid) S))
     \<and> claim_base r' = claim_base r \<and> loan_depth r' = loan_depth r \<and> capacity r' = capacity r"
proof (cases "cursors S ! unat rid < length (msgs S)")
  case True
  then show ?thesis using ring_rel_advance [OF rel i True]
    by (simp add: try_pop_exec [OF assms] stream_pop_def Let_def popped_state_def)
next
  case False
  with rel show ?thesis by (simp add: try_pop_exec [OF assms] stream_pop_def Let_def)
qed

section \<open>The ring as a queue\<close>

text \<open>The contract of \<open>spmc_queue\<close>, for a handle with no open loans, in either build mode.\<close>

definition queue_rel :: "'a pod \<Rightarrow> nat \<Rightarrow> SpmcRingBuffer \<Rightarrow> 'a stream \<Rightarrow> bool" where
  "queue_rel T cap r S \<longleftrightarrow> ring_rel T r S \<and> no_loans r \<and> cap_of r = cap"

interpretation ring: spmc_queue "try_push b T" "\<lambda>i. try_pop b T (of_nat i)" "queue_rel T cap" cap "2 ^ 64 - 1"
proof unfold_locales
  fix r S
  assume "queue_rel T cap r S"
  then show "stream_ok cap S" by (auto simp: queue_rel_def dest: ring_relD(5))
next
  fix r S v
  assume "queue_rel T cap r S" and "length (msgs S) < 2 ^ 64 - 1"
  then show "\<exists>r'. try_push b T v r = (Done (fst (stream_push cap v S)), r')
      \<and> queue_rel T cap r' (snd (stream_push cap v S))"
    using try_push_refines [of T r S b v] by (auto simp: queue_rel_def no_loans_def)
next
  fix r S i
  assume rel: "queue_rel T cap r S" and i: "i < length (cursors S)"
  then have i8: "unat (of_nat i :: usize) = i"
    using cursor_nth(2) [of T r S i] by (simp add: queue_rel_def unat_reader_id)
  have "loan_depth r ! i = 0"
    using rel cursor_nth(2) [of T r S i] i ring_wfD(9) [OF ring_relD(1), of T r S]
    by (simp add: queue_rel_def no_loans_def)
  with try_pop_refines [of T r S "of_nat i" b] rel i i8
  show "\<exists>r'. try_pop b T (of_nat i) r = (Done (fst (stream_pop i S)), r')
      \<and> queue_rel T cap r' (snd (stream_pop i S))"
    by (auto simp: queue_rel_def no_loans_def)
qed

section \<open>Diagnostics\<close>

lemma len_exec:
  assumes "ring_rel T r S" and "unat rid < length (cursors S)"
  shows "\<exists>n. len b rid r = Done n \<and> unat n = length (msgs S) - cursors S ! unat rid"
  using cursor_word(2) [OF assms] ring_relD(2) [OF assms(1)]
    stream_okD(2) [OF ring_relD(5) [OF assms(1)] assms(2)]
  by (simp add: len_def check_reader_Done [OF assms] cursor_word(1) [OF assms] unat_sub word_le_nat_alt)

lemma is_empty_exec:
  assumes "ring_rel T r S" and "unat rid < length (cursors S)"
  shows "is_empty b rid r = Done (cursors S ! unat rid = length (msgs S))"
proof -
  obtain n where "len b rid r = Done n" "unat n = length (msgs S) - cursors S ! unat rid"
    using len_exec [OF assms] by blast
  then show ?thesis using stream_okD(2) [OF ring_relD(5) [OF assms(1)] assms(2)]
    by (auto simp: is_empty_def unat_eq_0 [symmetric])
qed

lemma slowest_lag_exec:
  assumes "ring_rel T r S"
  shows "\<exists>n. slowest_lag r = Done n \<and> unat n = length (msgs S) - slowest S"
proof -
  obtain m where "slowest_read_idx (reader_count_of (rhdr r)) (rhdr r) = (Done m :: (ShmRingError, u64) outcome)"
    and "unat m = slowest S"
    by (rule slowest_Done [OF assms])
  with lag_Done(2) [OF assms] show ?thesis by (simp add: slowest_lag_def)
qed

lemma peek_exec:
  assumes rel: "ring_rel T r S" and i: "unat rid < length (cursors S)"
    and lt: "cursors S ! unat rid < length (msgs S)"
  obtains p where "peek b T rid r = Done (Some p)"
    and "read_volatile T p r = Done (msgs S ! (cursors S ! unat rid))"
proof -
  let ?c = "read_indices (rhdr r) ! unat rid"
  note wf = ring_relD(1) [OF rel] and cur = cursor_word [OF rel i]
  obtain p where p: "slot_ptr b T ?c r = Done p"
    using slot_ptr_Done [OF ring_rel_layout [OF rel], of b ?c] by blast
  have "peek b T rid r = Done (Some p)"
    using lt cur(3) by (simp add: peek_def check_reader_Done [OF rel i] cur(1) p)
  moreover have "read_volatile T p r = Done (msgs S ! (cursors S ! unat rid))"
    using live_windowD [OF ring_relD(6) [OF rel] slowest_le [OF i] lt] cur(2)
    by (simp add: read_slot_Done [OF ring_rel_layout [OF rel] p])
  ultimately show ?thesis by (rule that)
qed

end
