(* ===== verification/Loan.thy ===== *)
theory Loan
  imports Ring
begin

text \<open>
  Zero-copy loans (\<open>src/loan.rs\<close>): \<open>claim\<close> reserves the next stream index of
  a reader and hands out a pointer into the slot; \<open>commit\<close>, \<open>abort\<close> and
  \<open>drop\<close> resolve it. The theory models every operation, describes an interleaving of
  producer and consumer calls as a list of events, and proves when a live loan is pinned: always, as
  long as only the newest loan of a reader is ever aborted. Outside that discipline, and after a
  commit, the pin is lost; \<open>Loan_Props\<close> has the concrete executions.
\<close>

section \<open>The loan and its operations\<close>

record Loan =
  ln_reader :: usize
  ln_index :: u64
  ln_ptr :: usize
  ln_resolved :: bool

definition upd_claim_base :: "(u64 \<Rightarrow> u64) \<Rightarrow> usize \<Rightarrow> unit ring_act" where
  "upd_claim_base f rid =
     bind_act (asks (\<lambda>r. array_get (claim_base r) rid)) (\<lambda>x.
       modify (\<lambda>r. r\<lparr>claim_base := (claim_base r)[unat rid := f x]\<rparr>))"

definition upd_loan_depth :: "(u64 \<Rightarrow> u64) \<Rightarrow> usize \<Rightarrow> unit ring_act" where
  "upd_loan_depth f rid =
     bind_act (asks (\<lambda>r. array_get (loan_depth r) rid)) (\<lambda>x.
       modify (\<lambda>r. r\<lparr>loan_depth := (loan_depth r)[unat rid := f x]\<rparr>))"

text \<open>
  One pass of the claim loop. The pass runs against an adversary: \<open>spurious\<close> says whether the
  weak compare-exchange fails for no reason, \<open>other\<close> is what other threads of the process do to
  the handle between the loads and the compare-exchange. The answer \<open>None\<close> is
  \<open>continue\<close>.
\<close>

definition claim_pass ::
  "build \<Rightarrow> 'a pod \<Rightarrow> usize \<Rightarrow> bool \<Rightarrow> (SpmcRingBuffer \<Rightarrow> SpmcRingBuffer) \<Rightarrow> Loan option option ring_act" where
  "claim_pass b T rid spurious other =
     bind_act (gets (\<lambda>r. write_idx (rhdr r))) (\<lambda>w.
     bind_act (asks (\<lambda>r. read_idx rid (rhdr r))) (\<lambda>cursor.
     bind_act (asks (\<lambda>r. array_get (claim_base r) rid)) (\<lambda>base.
     let idx = max base cursor in
     if w \<le> idx then ret (Some None)
     else
       bind_act (lift_out (add_w b idx 1)) (\<lambda>idx'.
       bind_act (modify other) (\<lambda>_.
       bind_act (asks (\<lambda>r. array_get (claim_base r) rid)) (\<lambda>now.
       if now = base \<and> \<not> spurious then
         bind_act (upd_claim_base (\<lambda>_. idx') rid) (\<lambda>_.
         bind_act (asks (slot_ptr b T idx)) (\<lambda>p.
         ret (Some (Some \<lparr>ln_reader = rid, ln_index = idx, ln_ptr = p, ln_resolved = False\<rparr>))))
       else ret None))))))"

text \<open>
  The loop over the adversary's moves; once they run out, the next pass is undisturbed and decides.
\<close>

primrec claim_loop ::
  "build \<Rightarrow> 'a pod \<Rightarrow> usize \<Rightarrow> (bool \<times> (SpmcRingBuffer \<Rightarrow> SpmcRingBuffer)) list \<Rightarrow> Loan option ring_act" where
  "claim_loop b T rid [] =
     bind_act (claim_pass b T rid False id) (\<lambda>x. ret (case x of Some l \<Rightarrow> l | None \<Rightarrow> None))"
| "claim_loop b T rid (a # as) =
     bind_act (claim_pass b T rid (fst a) (snd a)) (\<lambda>x.
       case x of Some l \<Rightarrow> ret l | None \<Rightarrow> claim_loop b T rid as)"

definition claim ::
  "build \<Rightarrow> 'a pod \<Rightarrow> (bool \<times> (SpmcRingBuffer \<Rightarrow> SpmcRingBuffer)) list \<Rightarrow> usize \<Rightarrow> Loan option ring_act" where
  "claim b T adv rid =
     bind_act (asks (check_reader b rid)) (\<lambda>_.
     bind_act (upd_loan_depth (\<lambda>d. d + 1) rid) (\<lambda>_.
     bind_act (claim_loop b T rid adv) (\<lambda>loan.
     bind_act (if loan = None then upd_loan_depth (\<lambda>d. d - 1) rid else ret ()) (\<lambda>_.
     ret loan))))"

definition loan_resolve :: "Loan \<Rightarrow> Loan ring_act" where
  "loan_resolve l =
     bind_act (upd_loan_depth (\<lambda>d. d - 1) (ln_reader l)) (\<lambda>_. ret (l\<lparr>ln_resolved := True\<rparr>))"

text \<open>\<open>commit(&mut self)\<close>: the result is the loan as the caller holds it afterwards.\<close>

definition loan_commit :: "build \<Rightarrow> Loan \<Rightarrow> Loan ring_act" where
  "loan_commit b l =
     (if ln_resolved l then ret l
      else
        bind_act (asks (\<lambda>r. read_idx (ln_reader l) (rhdr r))) (\<lambda>cursor.
        if cursor \<noteq> ln_index l then fail (LoanNotAtCursor (ln_index l) cursor)
        else
          bind_act (lift_out (add_w b (ln_index l) 1)) (\<lambda>idx'.
          bind_act (store_read_idx (ln_reader l) idx') (\<lambda>_. loan_resolve l))))"

definition loan_drop :: "build \<Rightarrow> Loan \<Rightarrow> unit ring_act" where
  "loan_drop b l =
     (if ln_resolved l then ret ()
      else
        bind_act (asks (\<lambda>r. read_idx (ln_reader l) (rhdr r))) (\<lambda>cursor.
        bind_act
          (if cursor = ln_index l then
             bind_act (lift_out (add_w b (ln_index l) 1)) (\<lambda>idx'. store_read_idx (ln_reader l) idx')
           else ret ()) (\<lambda>_.
        bind_act (loan_resolve l) (\<lambda>_. ret ()))))"

text \<open>\<open>abort(mut self)\<close> ends with the loan going out of scope.\<close>

definition loan_abort :: "build \<Rightarrow> Loan \<Rightarrow> unit ring_act" where
  "loan_abort b l =
     bind_act
       (if \<not> ln_resolved l then
          bind_act (upd_claim_base (\<lambda>x. min x (ln_index l)) (ln_reader l)) (\<lambda>_. loan_resolve l)
        else ret l)
       (\<lambda>l. loan_drop b l)"

definition loan_deref :: "'a pod \<Rightarrow> Loan \<Rightarrow> SpmcRingBuffer \<Rightarrow> (ShmRingError, 'a) outcome" where
  "loan_deref T l r = read_volatile T (ln_ptr l) r"

definition loan_as_bytes :: "'a pod \<Rightarrow> Loan \<Rightarrow> SpmcRingBuffer \<Rightarrow> (ShmRingError, u8 list) outcome" where
  "loan_as_bytes T l r =
     (if in_slot_area T (ln_ptr l) r
      then Done (load (unat (ln_ptr l) - unat DATA_OFFSET) (unat (pod_size T)) (rdata r)) else Fault)"

section \<open>Executions\<close>

text \<open>
  Producer and consumer calls on one handle's reader pipelines. \<open>LCommit k\<close>,
  \<open>LDrop k\<close> and \<open>LAbort k\<close> address the \<open>k\<close>-th unresolved loan in
  the order of their claims. The state is the handle and its unresolved loans.
\<close>

datatype 'v loan_event =
    LPush 'v
  | LPop usize
  | LClaim usize
  | LCommit nat
  | LDrop nat
  | LAbort nat

type_synonym loan_sys = "SpmcRingBuffer \<times> Loan list"

definition on_ring :: "'a ring_act \<Rightarrow> (loan_sys, ShmRingError, 'a) act" where
  "on_ring m s = (let (x, r') = m (fst s) in (x, (r', snd s)))"

definition remove_nth :: "nat \<Rightarrow> 'b list \<Rightarrow> 'b list" where
  "remove_nth k xs = take k xs @ drop (Suc k) xs"

definition resolve_nth :: "nat \<Rightarrow> (Loan \<Rightarrow> 'b ring_act) \<Rightarrow> (loan_sys, ShmRingError, unit) act" where
  "resolve_nth k m s =
     (if k < length (snd s)
      then bind_act (on_ring (m (snd s ! k))) (\<lambda>_. modify (\<lambda>s. (fst s, remove_nth k (snd s)))) s
      else (Done (), s))"

fun loan_step :: "build \<Rightarrow> 'a pod \<Rightarrow> 'a loan_event \<Rightarrow> (loan_sys, ShmRingError, unit) act" where
  "loan_step b T (LPush v) = bind_act (on_ring (try_push b T v)) (\<lambda>_. ret ())"
| "loan_step b T (LPop rid) = bind_act (on_ring (try_pop b T rid)) (\<lambda>_. ret ())"
| "loan_step b T (LClaim rid) =
     bind_act (on_ring (claim b T [] rid)) (\<lambda>x.
       case x of None \<Rightarrow> ret () | Some l \<Rightarrow> modify (\<lambda>s. (fst s, snd s @ [l])))"
| "loan_step b T (LCommit k) = resolve_nth k (loan_commit b)"
| "loan_step b T (LDrop k) = resolve_nth k (loan_drop b)"
| "loan_step b T (LAbort k) = resolve_nth k (loan_abort b)"

text \<open>Errors returned to the caller do not end an execution; panics and faults do.\<close>

fun loan_run :: "build \<Rightarrow> 'a pod \<Rightarrow> 'a loan_event list \<Rightarrow> loan_sys \<Rightarrow> loan_sys option" where
  "loan_run b T [] s = Some s"
| "loan_run b T (e # es) s =
     (case loan_step b T e s of
        (Done _, s') \<Rightarrow> loan_run b T es s'
      | (Fail _, s') \<Rightarrow> loan_run b T es s'
      | (Panic, _) \<Rightarrow> None
      | (Fault, _) \<Rightarrow> None)"

section \<open>What each operation does\<close>

lemma upd_claim_base_Done:
  "unat rid < length (claim_base r) \<Longrightarrow>
     upd_claim_base f rid r = (Done (), r\<lparr>claim_base := (claim_base r)[unat rid := f (claim_base r ! unat rid)]\<rparr>)"
  by (simp add: upd_claim_base_def act_simps array_get_def)

lemma upd_loan_depth_Done:
  "unat rid < length (loan_depth r) \<Longrightarrow>
     upd_loan_depth f rid r = (Done (), r\<lparr>loan_depth := (loan_depth r)[unat rid := f (loan_depth r ! unat rid)]\<rparr>)"
  by (simp add: upd_loan_depth_def act_simps array_get_def)

text \<open>The handle-local arrays are no part of the ring's relation to its stream.\<close>

lemma ring_rel_handle [simp]:
  "length cb = 8 \<Longrightarrow> ring_rel T r S \<Longrightarrow> ring_rel T (r\<lparr>claim_base := cb\<rparr>) S"
  "length ld = 8 \<Longrightarrow> ring_rel T r S \<Longrightarrow> ring_rel T (r\<lparr>loan_depth := ld\<rparr>) S"
  by (simp_all add: ring_rel_def ring_wf_def layout_ok_def)

lemma slot_ptr_cong: "capacity r' = capacity r \<Longrightarrow> slot_ptr b T idx r' = slot_ptr b T idx r"
  by (simp add: slot_ptr_def)

lemma slot_ptr_upd [simp]:
  "slot_ptr b T idx (r\<lparr>claim_base := cb\<rparr>) = slot_ptr b T idx r"
  "slot_ptr b T idx (r\<lparr>loan_depth := ld\<rparr>) = slot_ptr b T idx r"
  by (simp_all add: slot_ptr_def)

lemma slot_ptr_any_build:
  assumes "layout_ok T r" and "slot_ptr b T idx r = Done p"
  shows "slot_ptr b' T idx r = Done p"
proof -
  obtain q q' where "slot_ptr b T idx r = Done q" "slot_ptr b' T idx r = Done q'"
    and "unat q = unat q'"
    using slot_ptr_Done [OF assms(1), of b idx] slot_ptr_Done [OF assms(1), of b' idx] by metis
  with assms(2) show ?thesis by (simp add: word_unat_eq_iff)
qed

lemma reader_arrays:
  assumes "ring_rel T r S" and "unat rid < length (cursors S)"
  shows "unat rid < length (claim_base r)" "unat rid < length (loan_depth r)"
    "length (claim_base r) = 8" "length (loan_depth r) = 8"
  using cursor_nth(2) [OF assms] ring_wfD(8,9) [OF ring_relD(1) [OF assms(1)]] by simp_all

definition claim_idx :: "usize \<Rightarrow> SpmcRingBuffer \<Rightarrow> u64" where
  "claim_idx rid r = max (claim_base r ! unat rid) (read_indices (rhdr r) ! unat rid)"

text \<open>A claim pass with a quiet neighbourhood.\<close>

lemma claim_pass_exec:
  assumes rel: "ring_rel T r S" and i: "unat rid < length (cursors S)"
    and p: "slot_ptr b T (claim_idx rid r) r = Done p"
  shows "claim_pass b T rid sp id r =
    (if write_idx (rhdr r) \<le> claim_idx rid r then (Done (Some None), r)
     else if sp then (Done None, r)
     else (Done (Some (Some \<lparr>ln_reader = rid, ln_index = claim_idx rid r, ln_ptr = p, ln_resolved = False\<rparr>)),
           r\<lparr>claim_base := (claim_base r)[unat rid := claim_idx rid r + 1]\<rparr>))"
proof -
  note arr = reader_arrays [OF rel i]
  have base: "array_get (claim_base r) rid = (Done (claim_base r ! unat rid) :: (ShmRingError, u64) outcome)"
    using arr by (simp add: array_get_def)
  have cur: "read_idx rid (rhdr r) = (Done (read_indices (rhdr r) ! unat rid) :: (ShmRingError, u64) outcome)"
    by (rule cursor_word(1) [OF rel i])
  have add: "add_w b (claim_idx rid r) 1 = (Done (claim_idx rid r + 1) :: (ShmRingError, u64) outcome)"
    if "\<not> write_idx (rhdr r) \<le> claim_idx rid r"
    using that unat_less_2p64 [of "write_idx (rhdr r)"] by (intro add_w_Done) (simp add: word_le_nat_alt)
  show ?thesis
    using add unfolding claim_pass_def
    by (auto simp: act_simps base cur Let_def bind_act_Done upd_claim_base_Done arr(1) p
        simp flip: claim_idx_def)
qed

lemma claim_loop_exec:
  assumes rel: "ring_rel T r S" and i: "unat rid < length (cursors S)"
    and p: "slot_ptr b T (claim_idx rid r) r = Done p" and quiet: "\<forall>a \<in> set adv. snd a = id"
  shows "claim_loop b T rid adv r =
    (if write_idx (rhdr r) \<le> claim_idx rid r then (Done None, r)
     else (Done (Some \<lparr>ln_reader = rid, ln_index = claim_idx rid r, ln_ptr = p, ln_resolved = False\<rparr>),
           r\<lparr>claim_base := (claim_base r)[unat rid := claim_idx rid r + 1]\<rparr>))"
  using quiet
proof (induction adv)
  case Nil
  then show ?case
    by (simp add: bind_act_def act_simps claim_pass_exec [OF rel i p])
next
  case (Cons a adv)
  then have "claim_loop b T rid adv r = claim_loop b T rid [] r" and a: "snd a = id"
    by (auto simp: bind_act_def act_simps claim_pass_exec [OF rel i p])
  then show ?case
    by (simp only: claim_loop.simps a) (simp add: bind_act_def act_simps claim_pass_exec [OF rel i p])
qed

lemma claim_exec:
  assumes rel: "ring_rel T r S" and i: "unat rid < length (cursors S)"
    and p: "slot_ptr b T (claim_idx rid r) r = Done p" and quiet: "\<forall>a \<in> set adv. snd a = id"
  shows "claim b T adv rid r =
    (if write_idx (rhdr r) \<le> claim_idx rid r then (Done None, r)
     else (Done (Some \<lparr>ln_reader = rid, ln_index = claim_idx rid r, ln_ptr = p, ln_resolved = False\<rparr>),
           r\<lparr>claim_base := (claim_base r)[unat rid := claim_idx rid r + 1],
             loan_depth := (loan_depth r)[unat rid := loan_depth r ! unat rid + 1]\<rparr>))"
proof -
  note arr = reader_arrays [OF rel i]
  let ?r = "r\<lparr>loan_depth := (loan_depth r)[unat rid := loan_depth r ! unat rid + 1]\<rparr>"
  have rel': "ring_rel T ?r S" using rel arr by simp
  have idx: "claim_idx rid ?r = claim_idx rid r" by (simp add: claim_idx_def)
  have p': "slot_ptr b T (claim_idx rid ?r) ?r = Done p"
    using p by (simp add: idx)
  have raise: "upd_loan_depth (\<lambda>d. d + 1) rid r = (Done (), ?r)"
    by (rule upd_loan_depth_Done [OF arr(2)])
  have lower: "upd_loan_depth (\<lambda>d. d - 1) rid ?r = (Done (), r)"
    using arr by (subst upd_loan_depth_Done) simp_all
  show ?thesis
    unfolding claim_def
    by (simp add: act_simps check_reader_Done [OF rel i] bind_act_Done raise
          bind_act_def [of "claim_loop b T rid adv"] claim_loop_exec [OF rel' i p' quiet] idx lower)
qed

lemma commit_exec:
  assumes rel: "ring_rel T r S" and i: "unat (ln_reader l) < length (cursors S)"
    and live: "\<not> ln_resolved l" and idx: "unat (ln_index l) < length (msgs S)"
  shows "loan_commit b l r =
    (if cursors S ! unat (ln_reader l) = unat (ln_index l)
     then (Done (l\<lparr>ln_resolved := True\<rparr>),
           (popped_state (ln_reader l) r)\<lparr>loan_depth :=
              (loan_depth r)[unat (ln_reader l) := loan_depth r ! unat (ln_reader l) - 1]\<rparr>)
     else (Fail (LoanNotAtCursor (ln_index l) (read_indices (rhdr r) ! unat (ln_reader l))), r))"
proof -
  let ?rid = "ln_reader l"
  note arr = reader_arrays [OF rel i] and cur = cursor_word [OF rel i] cursor_nth(3) [OF rel i]
  have at: "read_indices (rhdr r) ! unat ?rid = ln_index l \<longleftrightarrow> cursors S ! unat ?rid = unat (ln_index l)"
    using cur(2) by (simp add: word_unat_eq_iff)
  have add: "add_w b (ln_index l) 1 = (Done (ln_index l + 1) :: (ShmRingError, u64) outcome)"
    using idx ring_relD(2) [OF rel] unat_less_2p64 [of "write_idx (rhdr r)"]
    by (intro add_w_Done) simp
  have pop: "store_read_idx ?rid (ln_index l + 1) r = (Done (), popped_state ?rid r)"
    if "read_indices (rhdr r) ! unat ?rid = ln_index l"
    using that by (simp add: store_read_idx_Done [OF cur(4)] popped_state_def upd_hdr_def)
  have dep: "upd_loan_depth (\<lambda>d. d - 1) ?rid (popped_state ?rid r) =
     (Done (), (popped_state ?rid r)\<lparr>loan_depth := (loan_depth r)[unat ?rid := loan_depth r ! unat ?rid - 1]\<rparr>)"
    using arr(2) by (subst upd_loan_depth_Done) (simp_all add: popped_state_def)
  show ?thesis
  proof (cases "cursors S ! unat ?rid = unat (ln_index l)")
    case True
    with at have eq: "read_indices (rhdr r) ! unat ?rid = ln_index l" by simp
    show ?thesis using True live
      by (simp add: loan_commit_def act_simps cur(1) eq add bind_act_Done pop loan_resolve_def dep)
  next
    case False
    then show ?thesis using at live by (simp add: loan_commit_def act_simps cur(1))
  qed
qed

lemma drop_exec:
  assumes rel: "ring_rel T r S" and i: "unat (ln_reader l) < length (cursors S)"
    and live: "\<not> ln_resolved l" and idx: "unat (ln_index l) < length (msgs S)"
  shows "loan_drop b l r =
    (Done (),
     (if cursors S ! unat (ln_reader l) = unat (ln_index l) then popped_state (ln_reader l) r else r)
       \<lparr>loan_depth := (loan_depth r)[unat (ln_reader l) := loan_depth r ! unat (ln_reader l) - 1]\<rparr>)"
proof -
  let ?rid = "ln_reader l"
  note arr = reader_arrays [OF rel i] and cur = cursor_word [OF rel i] cursor_nth(3) [OF rel i]
  have at: "read_indices (rhdr r) ! unat ?rid = ln_index l \<longleftrightarrow> cursors S ! unat ?rid = unat (ln_index l)"
    using cur(2) by (simp add: word_unat_eq_iff)
  show ?thesis
  proof (cases "cursors S ! unat ?rid = unat (ln_index l)")
    case True
    have "add_w b (ln_index l) 1 = (Done (ln_index l + 1) :: (ShmRingError, u64) outcome)"
      using idx ring_relD(2) [OF rel] unat_less_2p64 [of "write_idx (rhdr r)"]
      by (intro add_w_Done) simp
    then have "bind_act (loan_commit b l) (\<lambda>_. ret ()) r = loan_drop b l r"
      using live True at by (simp add: loan_commit_def loan_drop_def act_simps cur(1))
    then show ?thesis using True
      by (simp add: bind_act_def commit_exec [OF assms] act_simps)
  next
    case False
    then show ?thesis using at live arr(2)
      by (simp add: loan_drop_def act_simps cur(1) loan_resolve_def bind_act_Done upd_loan_depth_Done)
  qed
qed

lemma abort_exec:
  assumes rel: "ring_rel T r S" and i: "unat (ln_reader l) < length (cursors S)"
    and live: "\<not> ln_resolved l"
  shows "loan_abort b l r =
    (Done (),
     r\<lparr>claim_base := (claim_base r)[unat (ln_reader l) := min (claim_base r ! unat (ln_reader l)) (ln_index l)],
       loan_depth := (loan_depth r)[unat (ln_reader l) := loan_depth r ! unat (ln_reader l) - 1]\<rparr>)"
  using live reader_arrays [OF rel i]
  by (simp add: loan_abort_def loan_resolve_def loan_drop_def act_simps bind_act_Done
      upd_claim_base_Done upd_loan_depth_Done)

text \<open>A resolved loan is inert.\<close>

lemma resolved_inert:
  assumes "ln_resolved l"
  shows "loan_commit b l r = (Done l, r)" "loan_drop b l r = (Done (), r)" "loan_abort b l r = (Done (), r)"
  using assms by (simp_all add: loan_commit_def loan_drop_def loan_abort_def act_simps)

section \<open>The pinning invariant\<close>

text \<open>
  An unresolved loan views a published message at or after its reader's cursor, behind the claim
  pipeline, through the pointer of that message's slot.
\<close>

definition loan_ok :: "'a pod \<Rightarrow> SpmcRingBuffer \<Rightarrow> 'a stream \<Rightarrow> Loan \<Rightarrow> bool" where
  "loan_ok T r S l \<longleftrightarrow>
     \<not> ln_resolved l \<and> unat (ln_reader l) < length (cursors S)
     \<and> cursors S ! unat (ln_reader l) \<le> unat (ln_index l) \<and> unat (ln_index l) < length (msgs S)
     \<and> ln_index l < claim_base r ! unat (ln_reader l)
     \<and> slot_ptr Release T (ln_index l) r = Done (ln_ptr l)"

definition loan_count :: "nat \<Rightarrow> Loan list \<Rightarrow> nat" where
  "loan_count i ls = length (filter (\<lambda>l. unat (ln_reader l) = i) ls)"

definition loan_key :: "Loan \<Rightarrow> usize \<times> u64" where
  "loan_key l = (ln_reader l, ln_index l)"

definition loan_inv :: "'a pod \<Rightarrow> SpmcRingBuffer \<Rightarrow> Loan list \<Rightarrow> 'a stream \<Rightarrow> bool" where
  "loan_inv T r ls S \<longleftrightarrow>
     ring_rel T r S \<and> (\<forall>l \<in> set ls. loan_ok T r S l) \<and> distinct (map loan_key ls)
     \<and> (\<forall>i < length (cursors S). loan_depth r ! i = of_nat (loan_count i ls))"

lemma loan_invD:
  assumes "loan_inv T r ls S"
  shows "ring_rel T r S" "\<And>l. l \<in> set ls \<Longrightarrow> loan_ok T r S l" "distinct (map loan_key ls)"
    "\<And>i. i < length (cursors S) \<Longrightarrow> loan_depth r ! i = of_nat (loan_count i ls)"
  using assms by (simp_all add: loan_inv_def)

text \<open>A pinned loan dereferences to its own message.\<close>

lemma loan_deref_pinned:
  assumes inv: "loan_inv T r ls S" and l: "l \<in> set ls"
  shows "loan_deref T l r = Done (msgs S ! unat (ln_index l))"
proof -
  note ok = loan_invD(2) [OF inv l, unfolded loan_ok_def] and rel = loan_invD(1) [OF inv]
  have "loan_deref T l r = Done (slot_read T (rdata r) (unat (ln_index l) mod cap_of r))"
    using read_slot_Done [OF ring_rel_layout [OF rel], of Release "ln_index l" "ln_ptr l"] ok
    by (simp add: loan_deref_def)
  moreover have "slowest S \<le> unat (ln_index l)"
    using slowest_le [of "unat (ln_reader l)" S] ok by linarith
  ultimately show ?thesis using live_windowD [OF ring_relD(6) [OF rel], of "unat (ln_index l)"] ok
    by simp
qed

text \<open>The gate counts loans: it is down exactly when the reader has none.\<close>

lemma loan_count_bound:
  assumes "loan_inv T r ls S"
  shows "loan_count i ls \<le> length (msgs S)"
proof -
  let ?f = "filter (\<lambda>l. unat (ln_reader l) = i) ls"
  have "distinct (map loan_key ?f)" by (rule distinct_map_filter [OF loan_invD(3) [OF assms]])
  moreover have "inj_on (\<lambda>l. unat (ln_index l)) (set ?f)" if "inj_on loan_key (set ?f)"
    using that by (auto simp: inj_on_def loan_key_def word_unat_eq_iff)
  ultimately have "distinct (map (\<lambda>l. unat (ln_index l)) ?f)" by (simp add: distinct_map)
  then have "length ?f = card (set (map (\<lambda>l. unat (ln_index l)) ?f))"
    by (metis distinct_card length_map)
  also have "\<dots> \<le> card {..< length (msgs S)}"
    using loan_invD(2) [OF assms] by (intro card_mono) (auto simp: loan_ok_def)
  finally show ?thesis by (simp add: loan_count_def)
qed

lemma loan_gate:
  assumes inv: "loan_inv T r ls S" and i: "i < length (cursors S)"
  shows "loan_depth r ! i = 0 \<longleftrightarrow> (\<forall>l \<in> set ls. unat (ln_reader l) \<noteq> i)"
proof -
  have "loan_count i ls < 2 ^ 64"
    using loan_count_bound [OF inv, of i] ring_relD(2) [OF loan_invD(1) [OF inv]]
      unat_less_2p64 [of "write_idx (rhdr r)"] by linarith
  then have "unat (of_nat (loan_count i ls) :: u64) = loan_count i ls" by (simp add: unat_of_nat)
  then have "unat (loan_depth r ! i) = loan_count i ls" by (simp only: loan_invD(4) [OF inv i])
  then have "loan_depth r ! i = 0 \<longleftrightarrow> loan_count i ls = 0" by (metis unat_eq_zero)
  then show ?thesis by (auto simp: loan_count_def filter_empty_conv)
qed

lemma ring_rel_claim_bound:
  assumes "ring_rel T r S" and "unat rid < length (cursors S)" and "\<not> write_idx (rhdr r) \<le> claim_idx rid r"
  shows "unat (claim_idx rid r) < length (msgs S)" and "unat (claim_idx rid r + 1) = Suc (unat (claim_idx rid r))"
    and "cursors S ! unat rid \<le> unat (claim_idx rid r)" and "claim_base r ! unat rid \<le> claim_idx rid r"
proof -
  show lt: "unat (claim_idx rid r) < length (msgs S)"
    using assms(3) ring_relD(2) [OF assms(1)] by (simp add: word_le_nat_alt)
  then show "unat (claim_idx rid r + 1) = Suc (unat (claim_idx rid r))"
    using ring_relD(2) [OF assms(1)] unat_less_2p64 [of "write_idx (rhdr r)"]
    by (simp add: unat_add_one)
  show "cursors S ! unat rid \<le> unat (claim_idx rid r)"
    using cursor_word(2) [OF assms(1,2)] by (simp add: claim_idx_def unat_max)
  show "claim_base r ! unat rid \<le> claim_idx rid r" by (simp add: claim_idx_def)
qed

section \<open>Every event keeps the invariant\<close>

lemma loan_inv_push:
  assumes inv: "loan_inv T r ls S" and bound: "length (msgs S) < 2 ^ 64 - 1"
  obtains r' where "try_push b T v r = (Done (fst (stream_push (cap_of r) v S)), r')"
    and "loan_inv T r' ls (snd (stream_push (cap_of r) v S))"
proof -
  obtain r' where r': "try_push b T v r = (Done (fst (stream_push (cap_of r) v S)), r')"
    "ring_rel T r' (snd (stream_push (cap_of r) v S))" "claim_base r' = claim_base r"
    "loan_depth r' = loan_depth r" "capacity r' = capacity r"
    using try_push_refines [OF loan_invD(1) [OF inv] bound, of b v] by blast
  have "loan_ok T r' (snd (stream_push (cap_of r) v S)) l" if "l \<in> set ls" for l
    using loan_invD(2) [OF inv that] r'(3)
    by (auto simp: loan_ok_def stream_push_def slot_ptr_cong [OF r'(5)])
  with inv r' show ?thesis by (intro that) (auto simp: loan_inv_def)
qed

lemma loan_inv_pop:
  assumes inv: "loan_inv T r ls S" and i: "unat rid < length (cursors S)"
    and gate: "loan_depth r ! unat rid = 0"
  obtains r' where "try_pop b T rid r = (Done (fst (stream_pop (unat rid) S)), r')"
    and "loan_inv T r' ls (snd (stream_pop (unat rid) S))"
proof -
  obtain r' where r': "try_pop b T rid r = (Done (fst (stream_pop (unat rid) S)), r')"
    "ring_rel T r' (snd (stream_pop (unat rid) S))" "claim_base r' = claim_base r"
    "loan_depth r' = loan_depth r" "capacity r' = capacity r"
    using try_pop_refines [OF loan_invD(1) [OF inv] i gate, of b] by blast
  have "loan_ok T r' (snd (stream_pop (unat rid) S)) l" if l: "l \<in> set ls" for l
    using loan_invD(2) [OF inv l] r'(3) loan_gate [OF inv i] gate l
    by (auto simp: loan_ok_def stream_pop_def Let_def slot_ptr_cong [OF r'(5)])
  with inv r' show ?thesis by (intro that) (auto simp: loan_inv_def)
qed

lemma try_pop_gated:
  assumes inv: "loan_inv T r ls S" and i: "unat rid < length (cursors S)"
    and gate: "loan_depth r ! unat rid \<noteq> 0"
  shows "try_pop b T rid r = (Fail (LoanOutstanding rid), r)"
  using gate reader_arrays(2) [OF loan_invD(1) [OF inv] i]
  by (simp add: try_pop_def act_simps check_reader_Done [OF loan_invD(1) [OF inv] i] array_get_def)

lemma loan_inv_claim:
  assumes inv: "loan_inv T r ls S" and i: "unat rid < length (cursors S)"
    and quiet: "\<forall>a \<in> set adv. snd a = id"
  obtains (caught_up) "claim b T adv rid r = (Done None, r)" and "length (msgs S) \<le> unat (claim_idx rid r)"
  | (claimed) l r' where "claim b T adv rid r = (Done (Some l), r')" and "loan_inv T r' (ls @ [l]) S"
      and "ln_index l = claim_idx rid r" and "ln_reader l = rid"
proof -
  note rel = loan_invD(1) [OF inv] and arr = reader_arrays [OF loan_invD(1) [OF inv] i]
  obtain p where p: "slot_ptr b T (claim_idx rid r) r = Done p"
    using slot_ptr_Done [OF ring_rel_layout [OF rel]] by blast
  note ex = claim_exec [OF rel i p quiet]
  show ?thesis
  proof (cases "write_idx (rhdr r) \<le> claim_idx rid r")
    case True
    then show ?thesis using ex ring_relD(2) [OF rel] caught_up by (simp add: word_le_nat_alt)
  next
    case False
    let ?l = "\<lparr>ln_reader = rid, ln_index = claim_idx rid r, ln_ptr = p, ln_resolved = False\<rparr>"
    let ?r = "r\<lparr>claim_base := (claim_base r)[unat rid := claim_idx rid r + 1],
             loan_depth := (loan_depth r)[unat rid := loan_depth r ! unat rid + 1]\<rparr>"
    note bnd = ring_rel_claim_bound [OF rel i False]
    have behind: "ln_index l < claim_idx rid r" if "l \<in> set ls" "ln_reader l = rid" for l
      using loan_invD(2) [OF inv that(1)] that(2) bnd(4) by (auto simp: loan_ok_def)
    have "loan_ok T ?r S l" if l: "l \<in> set (ls @ [?l])" for l
    proof (cases "l = ?l")
      case True
      then show ?thesis using bnd i arr(1) slot_ptr_any_build [OF ring_rel_layout [OF rel] p]
        by (simp add: loan_ok_def word_less_nat_alt)
    next
      case False
      with l have l': "l \<in> set ls" by simp
      have "unat (claim_idx rid r) < unat (claim_idx rid r + 1)" using bnd(2) by simp
      then show ?thesis using loan_invD(2) [OF inv l'] behind [OF l'] arr(1)
        by (auto simp: loan_ok_def nth_list_update word_less_nat_alt word_unat_eq_iff)
    qed
    moreover have "loan_key ?l \<notin> set (map loan_key ls)"
      using behind by (force simp: loan_key_def)
    moreover have "loan_depth ?r ! i = of_nat (loan_count i (ls @ [?l]))" if "i < length (cursors S)" for i
      using loan_invD(4) [OF inv that] arr(2) by (simp add: nth_list_update loan_count_def add.commute)
    ultimately have "loan_inv T ?r (ls @ [?l]) S"
      using rel arr(3,4) loan_invD(3) [OF inv] by (simp add: loan_inv_def)
    then show ?thesis using False ex by (intro claimed [of ?l ?r]) simp_all
  qed
qed

lemma remove_nth_split:
  assumes "k < length ls"
  obtains xs ys where "ls = xs @ ls ! k # ys" and "remove_nth k ls = xs @ ys"
  using assms by (metis id_take_nth_drop remove_nth_def)

lemma loan_count_remove:
  assumes "k < length ls"
  shows "loan_count i ls = loan_count i (remove_nth k ls) + (if unat (ln_reader (ls ! k)) = i then 1 else 0)"
proof -
  obtain xs ys where s: "ls = xs @ ls ! k # ys" "remove_nth k ls = xs @ ys"
    by (rule remove_nth_split [OF assms])
  have "loan_count i (xs @ ls ! k # ys) = loan_count i (xs @ ys) + (if unat (ln_reader (ls ! k)) = i then 1 else 0)"
    by (simp add: loan_count_def)
  then show ?thesis using s by simp
qed

lemma remove_nth_keys:
  assumes "distinct (map loan_key ls)" and "k < length ls"
  shows "distinct (map loan_key (remove_nth k ls))"
    and "l \<in> set (remove_nth k ls) \<Longrightarrow> l \<in> set ls"
    and "l \<in> set (remove_nth k ls) \<Longrightarrow> loan_key l \<noteq> loan_key (ls ! k)"
proof -
  obtain xs ys where s: "ls = xs @ ls ! k # ys" "remove_nth k ls = xs @ ys"
    by (rule remove_nth_split [OF assms(2)])
  from assms(1) have d: "distinct (map loan_key (xs @ ls ! k # ys))" using s(1) by simp
  then show "distinct (map loan_key (remove_nth k ls))" using s(2) by simp
  show "l \<in> set (remove_nth k ls) \<Longrightarrow> l \<in> set ls" using s by (metis in_set_conv_decomp Un_iff set_append list.set_intros(2))
  show "l \<in> set (remove_nth k ls) \<Longrightarrow> loan_key l \<noteq> loan_key (ls ! k)"
    using d s(2) by (auto simp: image_iff)
qed

text \<open>Resolving the \<open>k\<close>-th loan: the counters and the keys of the others.\<close>

lemma loan_inv_resolve:
  assumes inv: "loan_inv T r ls S" and k: "k < length ls"
    and rel': "ring_rel T r' S'" and cur: "length (cursors S') = length (cursors S)"
    and depth: "loan_depth r' = (loan_depth r)[unat (ln_reader (ls ! k)) := loan_depth r ! unat (ln_reader (ls ! k)) - 1]"
    and rest: "\<And>l. l \<in> set (remove_nth k ls) \<Longrightarrow> loan_ok T r' S' l"
  shows "loan_inv T r' (remove_nth k ls) S'"
proof -
  have mem: "ls ! k \<in> set ls" using k by simp
  then have i: "unat (ln_reader (ls ! k)) < length (cursors S)"
    using loan_invD(2) [OF inv] by (auto simp: loan_ok_def)
  note arr = reader_arrays [OF loan_invD(1) [OF inv] i]
  have "loan_depth r' ! j = of_nat (loan_count j (remove_nth k ls))" if "j < length (cursors S')" for j
    using loan_invD(4) [OF inv, of j] that cur arr(2) loan_count_remove [OF k, of j]
    by (simp add: depth nth_list_update)
  then show ?thesis
    using rel' rest remove_nth_keys(1) [OF loan_invD(3) [OF inv] k] by (simp add: loan_inv_def)
qed

lemma loan_inv_advance:
  assumes inv: "loan_inv T r ls S" and k: "k < length ls"
    and at: "cursors S ! unat (ln_reader (ls ! k)) = unat (ln_index (ls ! k))"
  shows "loan_inv T
     ((popped_state (ln_reader (ls ! k)) r)\<lparr>loan_depth :=
        (loan_depth r)[unat (ln_reader (ls ! k)) := loan_depth r ! unat (ln_reader (ls ! k)) - 1]\<rparr>)
     (remove_nth k ls)
     (S\<lparr>cursors := (cursors S)[unat (ln_reader (ls ! k)) := Suc (unat (ln_index (ls ! k)))]\<rparr>)"
proof -
  let ?l = "ls ! k"
  have ok: "loan_ok T r S ?l" using loan_invD(2) [OF inv] k by simp
  then have i: "unat (ln_reader ?l) < length (cursors S)" and lt: "cursors S ! unat (ln_reader ?l) < length (msgs S)"
    using at by (simp_all add: loan_ok_def)
  note arr = reader_arrays [OF loan_invD(1) [OF inv] i]
  have "loan_ok T ((popped_state (ln_reader ?l) r)\<lparr>loan_depth := ld\<rparr>)
      (S\<lparr>cursors := (cursors S)[unat (ln_reader ?l) := Suc (unat (ln_index ?l))]\<rparr>) l"
    if l: "l \<in> set (remove_nth k ls)" for l ld
  proof -
    have ok': "loan_ok T r S l" and "loan_key l \<noteq> loan_key ?l"
      using remove_nth_keys(2,3) [OF loan_invD(3) [OF inv] k l] loan_invD(2) [OF inv] by auto
    then have "unat (ln_reader l) = unat (ln_reader ?l) \<Longrightarrow> unat (ln_index l) \<noteq> unat (ln_index ?l)"
      by (auto simp: loan_key_def word_unat_eq_iff)
    with ok' at i show ?thesis
      by (auto simp: loan_ok_def popped_state_def nth_list_update slot_ptr_cong [of "upd_hdr f r" r for f])
  qed
  then show ?thesis
    using ring_rel_advance [OF loan_invD(1) [OF inv] i lt] arr at
    by (intro loan_inv_resolve [OF inv k]) (simp_all add: popped_state_def)
qed

lemma loan_inv_release:
  assumes inv: "loan_inv T r ls S" and k: "k < length ls"
  shows "loan_inv T
     (r\<lparr>loan_depth := (loan_depth r)[unat (ln_reader (ls ! k)) := loan_depth r ! unat (ln_reader (ls ! k)) - 1]\<rparr>)
     (remove_nth k ls) S"
proof -
  have i: "unat (ln_reader (ls ! k)) < length (cursors S)"
    using loan_invD(2) [OF inv] k by (simp add: loan_ok_def)
  note arr = reader_arrays [OF loan_invD(1) [OF inv] i]
  have "loan_ok T (r\<lparr>loan_depth := ld\<rparr>) S l" if "l \<in> set (remove_nth k ls)" for l ld
    using remove_nth_keys(2) [OF loan_invD(3) [OF inv] k that] loan_invD(2) [OF inv]
    by (simp add: loan_ok_def)
  then show ?thesis using loan_invD(1) [OF inv] arr
    by (intro loan_inv_resolve [OF inv k]) simp_all
qed

text \<open>No other loan of the reader is newer than the \<open>k\<close>-th.\<close>

definition newest :: "nat \<Rightarrow> Loan list \<Rightarrow> bool" where
  "newest k ls \<longleftrightarrow> (\<forall>l \<in> set ls. ln_reader l = ln_reader (ls ! k) \<longrightarrow> ln_index l \<le> ln_index (ls ! k))"

lemma loan_inv_abort:
  assumes inv: "loan_inv T r ls S" and k: "k < length ls" and new: "newest k ls"
  shows "loan_inv T
     (r\<lparr>claim_base := (claim_base r)[unat (ln_reader (ls ! k)) :=
          min (claim_base r ! unat (ln_reader (ls ! k))) (ln_index (ls ! k))],
        loan_depth := (loan_depth r)[unat (ln_reader (ls ! k)) := loan_depth r ! unat (ln_reader (ls ! k)) - 1]\<rparr>)
     (remove_nth k ls) S"
proof -
  let ?l = "ls ! k"
  have i: "unat (ln_reader ?l) < length (cursors S)"
    using loan_invD(2) [OF inv] k by (simp add: loan_ok_def)
  note arr = reader_arrays [OF loan_invD(1) [OF inv] i]
  have "loan_ok T (r\<lparr>claim_base := (claim_base r)[unat (ln_reader ?l) :=
          min (claim_base r ! unat (ln_reader ?l)) (ln_index ?l)], loan_depth := ld\<rparr>) S l"
    if l: "l \<in> set (remove_nth k ls)" for l ld
  proof -
    have l': "l \<in> set ls" and "loan_key l \<noteq> loan_key ?l"
      using remove_nth_keys(2,3) [OF loan_invD(3) [OF inv] k l] by auto
    then have "ln_reader l = ln_reader ?l \<Longrightarrow> ln_index l < ln_index ?l"
      using new by (auto simp: newest_def loan_key_def order.strict_iff_order)
    with loan_invD(2) [OF inv l'] arr(1) show ?thesis
      by (auto simp: loan_ok_def nth_list_update word_unat_eq_iff)
  qed
  then show ?thesis using loan_invD(1) [OF inv] arr
    by (intro loan_inv_resolve [OF inv k]) simp_all
qed

section \<open>Executions keep loans pinned\<close>

text \<open>The discipline: a reader aborts its newest loan only.\<close>

definition abort_newest :: "'v loan_event \<Rightarrow> Loan list \<Rightarrow> bool" where
  "abort_newest e ls = (case e of LAbort k \<Rightarrow> k < length ls \<longrightarrow> newest k ls | _ \<Rightarrow> True)"

fun disciplined :: "build \<Rightarrow> 'a pod \<Rightarrow> 'a loan_event list \<Rightarrow> loan_sys \<Rightarrow> bool" where
  "disciplined b T [] s = True"
| "disciplined b T (e # es) s =
     (abort_newest e (snd s) \<and> disciplined b T es (snd (loan_step b T e s)))"

definition event_pushes :: "'v loan_event list \<Rightarrow> nat" where
  "event_pushes es = length (filter (\<lambda>e. case e of LPush v \<Rightarrow> True | _ \<Rightarrow> False) es)"

text \<open>What one event guarantees.\<close>

definition event_post :: "'a pod \<Rightarrow> (ShmRingError, unit) outcome \<Rightarrow> loan_sys \<Rightarrow> 'a stream \<Rightarrow> nat \<Rightarrow> bool" where
  "event_post T res s' S n \<longleftrightarrow>
     (res = Done () \<or> (\<exists>e. res = Fail e)) \<and>
     (\<exists>S'. loan_inv T (fst s') (snd s') S' \<and> length (cursors S') = length (cursors S)
        \<and> take (length (msgs S)) (msgs S') = msgs S \<and> length (msgs S') \<le> length (msgs S) + n)"

lemma event_postI:
  assumes "loan_inv T r' ls' S'" and "length (cursors S') = length (cursors S)"
    and "take (length (msgs S)) (msgs S') = msgs S" and "length (msgs S') \<le> length (msgs S) + n"
  shows "event_post T (Done ()) (r', ls') S n" and "event_post T (Fail e) (r', ls') S n"
  using assms by (auto simp: event_post_def)

lemma on_ring_eval:
  "m r = (x, r') \<Longrightarrow> on_ring m (r, ls) = (x, (r', ls))"
  by (simp add: on_ring_def)

lemma check_reader_bad:
  assumes "ring_rel T r S" and "\<not> unat rid < length (cursors S)"
  shows "check_reader b rid r = Fail (InvalidReaderId rid (reader_count_of (rhdr r) - 1))"
  using check_reader_Fail [OF ring_relD(1) [OF assms(1)]] assms(2) length_cursors [OF assms(1)] by simp

lemma loan_step_push:
  assumes inv: "loan_inv T r ls S" and bound: "length (msgs S) < 2 ^ 64 - 1"
  shows "event_post T (fst (loan_step b T (LPush v) (r, ls))) (snd (loan_step b T (LPush v) (r, ls))) S 1"
proof -
  obtain r' where r': "try_push b T v r = (Done (fst (stream_push (cap_of r) v S)), r')"
    "loan_inv T r' ls (snd (stream_push (cap_of r) v S))"
    by (rule loan_inv_push [OF inv bound])
  have "loan_step b T (LPush v) (r, ls) = (Done (), (r', ls))"
    using r'(1) by (simp add: bind_act_def on_ring_def act_simps)
  then show ?thesis using event_postI(1) [OF r'(2)] by (simp add: stream_push_def)
qed

lemma loan_step_pop:
  assumes inv: "loan_inv T r ls S"
  shows "event_post T (fst (loan_step b T (LPop rid) (r, ls))) (snd (loan_step b T (LPop rid) (r, ls))) S 0"
proof (cases "unat rid < length (cursors S)")
  case True
  show ?thesis
  proof (cases "loan_depth r ! unat rid = 0")
    case gate: True
    obtain r' where r': "try_pop b T rid r = (Done (fst (stream_pop (unat rid) S)), r')"
      "loan_inv T r' ls (snd (stream_pop (unat rid) S))"
      by (rule loan_inv_pop [OF inv True gate])
    have "loan_step b T (LPop rid) (r, ls) = (Done (), (r', ls))"
      using r'(1) by (simp add: bind_act_def on_ring_def act_simps)
    then show ?thesis using event_postI(1) [OF r'(2)] by simp
  next
    case False
    have "loan_step b T (LPop rid) (r, ls) = (Fail (LoanOutstanding rid), (r, ls))"
      using try_pop_gated [OF inv True False, of b] by (simp add: bind_act_def on_ring_def)
    then show ?thesis using event_postI(2) [OF inv] by simp
  qed
next
  case False
  have "try_pop b T rid r = (Fail (InvalidReaderId rid (reader_count_of (rhdr r) - 1)), r)"
    using check_reader_bad [OF loan_invD(1) [OF inv] False, of b] by (simp add: try_pop_def act_simps)
  then have "loan_step b T (LPop rid) (r, ls) =
      (Fail (InvalidReaderId rid (reader_count_of (rhdr r) - 1)), (r, ls))"
    by (simp add: bind_act_def on_ring_def)
  then show ?thesis using event_postI(2) [OF inv] by simp
qed

lemma loan_step_claim:
  assumes inv: "loan_inv T r ls S"
  shows "event_post T (fst (loan_step b T (LClaim rid) (r, ls))) (snd (loan_step b T (LClaim rid) (r, ls))) S 0"
proof (cases "unat rid < length (cursors S)")
  case True
  have quiet: "\<forall>a \<in> set []. snd a = (id :: SpmcRingBuffer \<Rightarrow> SpmcRingBuffer)" by simp
  show ?thesis
  proof (rule loan_inv_claim [OF inv True quiet, of b])
    assume "claim b T [] rid r = (Done None, r)"
    then have "loan_step b T (LClaim rid) (r, ls) = (Done (), (r, ls))"
      by (simp add: bind_act_def on_ring_def act_simps)
    then show ?thesis using event_postI(1) [OF inv] by simp
  next
    fix l r'
    assume "claim b T [] rid r = (Done (Some l), r')" and inv': "loan_inv T r' (ls @ [l]) S"
    then have "loan_step b T (LClaim rid) (r, ls) = (Done (), (r', ls @ [l]))"
      by (simp add: bind_act_def on_ring_def act_simps)
    then show ?thesis using event_postI(1) [OF inv'] by simp
  qed
next
  case False
  have "claim b T [] rid r = (Fail (InvalidReaderId rid (reader_count_of (rhdr r) - 1)), r)"
    using check_reader_bad [OF loan_invD(1) [OF inv] False, of b] by (simp add: claim_def act_simps)
  then have "loan_step b T (LClaim rid) (r, ls) =
      (Fail (InvalidReaderId rid (reader_count_of (rhdr r) - 1)), (r, ls))"
    by (simp add: bind_act_def on_ring_def)
  then show ?thesis using event_postI(2) [OF inv] by simp
qed

lemma loan_facts:
  assumes "loan_inv T r ls S" and "k < length ls"
  shows "unat (ln_reader (ls ! k)) < length (cursors S)" "\<not> ln_resolved (ls ! k)"
    "unat (ln_index (ls ! k)) < length (msgs S)"
  using loan_invD(2) [OF assms(1), of "ls ! k"] assms(2) by (simp_all add: loan_ok_def)

lemma resolve_nth_eval:
  "k < length ls \<Longrightarrow> m (ls ! k) r = (Done x, r') \<Longrightarrow> resolve_nth k m (r, ls) = (Done (), (r', remove_nth k ls))"
  "k < length ls \<Longrightarrow> m (ls ! k) r = (Fail e, r') \<Longrightarrow> resolve_nth k m (r, ls) = (Fail e, (r', ls))"
  "\<not> k < length ls \<Longrightarrow> resolve_nth k m (r, ls) = (Done (), (r, ls))"
  by (simp_all add: resolve_nth_def bind_act_def on_ring_def act_simps)

lemma loan_step_commit:
  assumes inv: "loan_inv T r ls S"
  shows "event_post T (fst (loan_step b T (LCommit k) (r, ls))) (snd (loan_step b T (LCommit k) (r, ls))) S 0"
proof (cases "k < length ls")
  case True
  note ex = commit_exec [OF loan_invD(1) [OF inv] loan_facts [OF inv True], of b]
  show ?thesis
  proof (cases "cursors S ! unat (ln_reader (ls ! k)) = unat (ln_index (ls ! k))")
    case at: True
    with ex True show ?thesis using event_postI(1) [OF loan_inv_advance [OF inv True at]]
      by (simp add: resolve_nth_eval(1))
  next
    case False
    with ex True show ?thesis using event_postI(2) [OF inv] by (simp add: resolve_nth_eval(2))
  qed
next
  case False
  then show ?thesis using event_postI(1) [OF inv] by (simp add: resolve_nth_eval(3))
qed

lemma loan_step_drop:
  assumes inv: "loan_inv T r ls S"
  shows "event_post T (fst (loan_step b T (LDrop k) (r, ls))) (snd (loan_step b T (LDrop k) (r, ls))) S 0"
proof (cases "k < length ls")
  case True
  note ex = drop_exec [OF loan_invD(1) [OF inv] loan_facts [OF inv True], of b]
  show ?thesis
  proof (cases "cursors S ! unat (ln_reader (ls ! k)) = unat (ln_index (ls ! k))")
    case at: True
    with ex True show ?thesis using event_postI(1) [OF loan_inv_advance [OF inv True at]]
      by (simp add: resolve_nth_eval(1))
  next
    case False
    with ex True show ?thesis using event_postI(1) [OF loan_inv_release [OF inv True]]
      by (simp add: resolve_nth_eval(1))
  qed
next
  case False
  then show ?thesis using event_postI(1) [OF inv] by (simp add: resolve_nth_eval(3))
qed

lemma loan_step_abort:
  assumes inv: "loan_inv T r ls S" and new: "abort_newest (LAbort k) ls"
  shows "event_post T (fst (loan_step b T (LAbort k) (r, ls))) (snd (loan_step b T (LAbort k) (r, ls))) S 0"
proof (cases "k < length ls")
  case True
  note ex = abort_exec [OF loan_invD(1) [OF inv] loan_facts(1,2) [OF inv True], of b]
  have "newest k ls" using new True by (simp add: abort_newest_def)
  with ex True show ?thesis using event_postI(1) [OF loan_inv_abort [OF inv True]]
    by (simp add: resolve_nth_eval(1))
next
  case False
  then show ?thesis using event_postI(1) [OF inv] by (simp add: resolve_nth_eval(3))
qed

lemma loan_step_post:
  assumes inv: "loan_inv T r ls S" and bound: "length (msgs S) + event_pushes [e] \<le> 2 ^ 64 - 1"
    and new: "abort_newest e ls"
  shows "event_post T (fst (loan_step b T e (r, ls))) (snd (loan_step b T e (r, ls))) S (event_pushes [e])"
proof (cases e)
  case (LPush v)
  then show ?thesis using loan_step_push [OF inv, of b v] bound
    by (simp add: event_pushes_def del: loan_step.simps)
qed (use new loan_step_pop [OF inv] loan_step_claim [OF inv] loan_step_commit [OF inv]
      loan_step_drop [OF inv] loan_step_abort [OF inv] in
      \<open>simp_all add: event_pushes_def del: loan_step.simps\<close>)

lemma loan_run_inv:
  "loan_inv T r ls S \<Longrightarrow> length (msgs S) + event_pushes es \<le> 2 ^ 64 - 1 \<Longrightarrow> disciplined b T es (r, ls) \<Longrightarrow>
     \<exists>r' ls' S'. loan_run b T es (r, ls) = Some (r', ls') \<and> loan_inv T r' ls' S'
       \<and> length (cursors S') = length (cursors S) \<and> take (length (msgs S)) (msgs S') = msgs S"
proof (induction es arbitrary: r ls S)
  case Nil
  then show ?case by auto
next
  case (Cons e es)
  obtain res s1 where st: "loan_step b T e (r, ls) = (res, s1)" by (cases "loan_step b T e (r, ls)")
  have pushes: "event_pushes (e # es) = event_pushes [e] + event_pushes es"
    by (simp add: event_pushes_def)
  have "event_post T res s1 S (event_pushes [e])"
    using loan_step_post [OF Cons.prems(1), of e b] Cons.prems(2,3) st pushes by simp
  then obtain S1 where res: "res = Done () \<or> (\<exists>err. res = Fail err)"
    and S1: "loan_inv T (fst s1) (snd s1) S1" "length (cursors S1) = length (cursors S)"
      "take (length (msgs S)) (msgs S1) = msgs S" "length (msgs S1) \<le> length (msgs S) + event_pushes [e]"
    by (auto simp: event_post_def)
  have "loan_run b T (e # es) (r, ls) = loan_run b T es (fst s1, snd s1)"
    using st res by auto
  moreover have "length (msgs S1) + event_pushes es \<le> 2 ^ 64 - 1"
    using S1(4) Cons.prems(2) pushes by linarith
  moreover have "disciplined b T es (fst s1, snd s1)" using Cons.prems(3) st by simp
  ultimately obtain r' ls' S' where *: "loan_run b T (e # es) (r, ls) = Some (r', ls')"
      "loan_inv T r' ls' S'" "length (cursors S') = length (cursors S1)"
      "take (length (msgs S1)) (msgs S') = msgs S1"
    using Cons.IH [OF S1(1)] by metis
  have "take (length (msgs S)) (take (length (msgs S1)) (msgs S')) = msgs S"
    using *(4) S1(3) by simp
  moreover have "length (msgs S) \<le> length (msgs S1)"
    using S1(3) by (metis length_take min.cobounded1 nat_le_linear min_def)
  ultimately have "take (length (msgs S)) (msgs S') = msgs S" by (simp add: min_absorb1)
  with * S1(2) show ?case by auto
qed

end
