(* ===== verification/File_Sys.thy ===== *)
theory File_Sys
  imports Shm_Error
begin

text \<open>
  What the crate uses of files: \<open>std::fs\<close> and the mappings of \<open>memmap2\<close>. The
  file system maps paths to contents. Calls the operating system may refuse, and the third-party
  mapping call, are parameters: an \<open>os_env\<close> says which calls fail and what bytes a mapping
  shows. Mappings are shared, so a write through one is a write to the file.
\<close>

type_synonym fs = "string \<rightharpoonup> u8 list"

record os_env =
  os_open :: "string \<Rightarrow> IoErrorKind option"
  os_set_len :: "u64 \<Rightarrow> IoErrorKind option"
  os_metadata :: "string \<Rightarrow> IoErrorKind option"
  os_map :: "u8 list \<Rightarrow> IoErrorKind + u8 list"
  os_flush :: "string \<Rightarrow> IoErrorKind option"
  os_remove :: "string \<Rightarrow> IoErrorKind option"

text \<open>What the crate relies on: a mapping that succeeds shows the file's bytes.\<close>

definition maps_file :: "os_env \<Rightarrow> bool" where
  "maps_file os \<longleftrightarrow> (\<forall>bs m. os_map os bs = Inr m \<longrightarrow> m = bs)"

text \<open>No call on the path \<open>p\<close> is refused.\<close>

definition os_grants :: "os_env \<Rightarrow> string \<Rightarrow> bool" where
  "os_grants os p \<longleftrightarrow> os_open os p = None \<and> os_metadata os p = None \<and> os_flush os p = None
     \<and> os_remove os p = None \<and> (\<forall>l. os_set_len os l = None) \<and> (\<forall>bs. os_map os bs = Inr bs)"

text \<open>A concrete environment that refuses nothing.\<close>

definition quiet_os :: os_env where
  "quiet_os = \<lparr> os_open = (\<lambda>_. None), os_set_len = (\<lambda>_. None), os_metadata = (\<lambda>_. None), os_map = Inr,
     os_flush = (\<lambda>_. None), os_remove = (\<lambda>_. None) \<rparr>"

lemma quiet_os_grants [simp]: "os_grants quiet_os p" "maps_file quiet_os"
  by (simp_all add: os_grants_def maps_file_def quiet_os_def)

lemma os_grantsD:
  assumes "os_grants os p"
  shows "os_open os p = None" "os_metadata os p = None" "os_flush os p = None" "os_remove os p = None"
    "os_set_len os l = None" "os_map os bs = Inr bs"
  using assms by (simp_all add: os_grants_def)

definition map_result :: "IoErrorKind + u8 list \<Rightarrow> (ShmRingError, u8 list) outcome" where
  "map_result m = (case m of Inl k \<Rightarrow> Fail (Io k) | Inr bs \<Rightarrow> Done bs)"

lemma map_result_simps [simp]:
  "map_result (Inl k) = Fail (Io k)" "map_result (Inr bs) = Done bs"
  by (simp_all add: map_result_def)

text \<open>\<open>File::set_len\<close> truncates or extends with zeros.\<close>

definition set_len :: "u64 \<Rightarrow> u8 list \<Rightarrow> u8 list" where
  "set_len n bs = take (unat n) bs @ replicate (unat n - length bs) 0"

lemma set_len_Nil [simp]: "set_len n [] = replicate (unat n) 0"
  by (simp add: set_len_def)

end
