(* ===== verification/Ring_File.thy ===== *)
theory Ring_File
  imports Ring File_Sys
begin

text \<open>
  Creating and opening ring files (\<open>create_new_with_readers\<close>, \<open>create_new\<close> and
  \<open>open_existing\<close> of \<open>src/ring.rs\<close>), over the file system of
  \<open>File_Sys\<close>: every check and error path, what a new ring holds, that a created ring opens
  as it was written, and what a successful open says about the file.
\<close>

section \<open>Mappings of ring files\<close>

definition mapping_of :: "u8 list \<Rightarrow> mapping" where
  "mapping_of bs = \<lparr> hdr = header_of_bytes bs, data = drop 256 bs \<rparr>"

definition bytes_of :: "mapping \<Rightarrow> u8 list" where
  "bytes_of m = header_bytes (hdr m) @ data m"

lemma mapping_of_bytes_of: "header_wf (hdr m) \<Longrightarrow> mapping_of (bytes_of m) = m"
  by (simp add: mapping_of_def bytes_of_def header_of_bytes_header_bytes length_header_bytes)

lemma bytes_of_mapping_of: "256 \<le> length bs \<Longrightarrow> bytes_of (mapping_of bs) = bs"
  by (simp add: mapping_of_def bytes_of_def header_bytes_header_of_bytes)

section \<open>The constructors\<close>

text \<open>A fresh handle: empty claim pipelines and no loans.\<close>

definition new_handle :: "mapping \<Rightarrow> usize \<Rightarrow> string \<Rightarrow> SpmcRingBuffer" where
  "new_handle m c p =
     \<lparr> mmap = m, capacity = c, path = p, claim_base = replicate (unat MAX_READERS) 0,
       loan_depth = replicate (unat MAX_READERS) 0 \<rparr>"

definition layout_len :: "build \<Rightarrow> 'a pod \<Rightarrow> usize \<Rightarrow> (ShmRingError, u64) outcome" where
  "layout_len b T c = bind_out (mul_w b c (pod_size T)) (\<lambda>n. add_w b HEADER_SIZE n)"

definition create_new_with_readers ::
  "build \<Rightarrow> 'a pod \<Rightarrow> os_env \<Rightarrow> string \<Rightarrow> usize \<Rightarrow> usize \<Rightarrow> (fs, ShmRingError, SpmcRingBuffer) act" where
  "create_new_with_readers b T os p c n =
     (if c = 0 \<or> \<not> is_power_of_two c then fail (InvalidCapacity c)
      else if \<not> (1 \<le> n \<and> n \<le> MAX_READERS) then lift_out Panic
      else if \<not> pod_align T \<le> 64 then lift_out Panic
      else if \<not> 0 < pod_size T then lift_out Panic
      else
        bind_act (gets (\<lambda>fs. fs p \<noteq> None)) (\<lambda>exists.
        if exists then fail AlreadyExists
        else
          case os_open os p of
            Some IoAlreadyExists \<Rightarrow> fail AlreadyExists
          | Some k \<Rightarrow> fail (Io k)
          | None \<Rightarrow>
              bind_act (modify (\<lambda>fs. fs(p \<mapsto> []))) (\<lambda>_.
              bind_act (lift_out (layout_len b T c)) (\<lambda>len.
              bind_act (lift_out (io_result (os_set_len os len) ())) (\<lambda>_.
              bind_act (modify (\<lambda>fs. fs(p \<mapsto> set_len len (the (fs p))))) (\<lambda>_.
              bind_act (asks (\<lambda>fs. map_result (os_map os (the (fs p))))) (\<lambda>bs.
              bind_act (lift_out (header_new (c - 1) n)) (\<lambda>h.
              if length bs < 256 then lift_out Fault
              else
                let m = \<lparr> hdr = h, data = drop 256 bs \<rparr> in
                bind_act (modify (\<lambda>fs. fs(p \<mapsto> bytes_of m))) (\<lambda>_. ret (new_handle m c p)))))))))) "

definition create_new ::
  "build \<Rightarrow> 'a pod \<Rightarrow> os_env \<Rightarrow> string \<Rightarrow> usize \<Rightarrow> (fs, ShmRingError, SpmcRingBuffer) act" where
  "create_new b T os p c = create_new_with_readers b T os p c MAX_READERS"

definition open_existing ::
  "build \<Rightarrow> 'a pod \<Rightarrow> os_env \<Rightarrow> string \<Rightarrow> fs \<Rightarrow> (ShmRingError, SpmcRingBuffer) outcome" where
  "open_existing b T os p fs =
     (if \<not> pod_align T \<le> 64 then Panic
      else if \<not> 0 < pod_size T then Panic
      else case fs p of
        None \<Rightarrow> Fail (Io IoNotFound)
      | Some content \<Rightarrow>
          bind_out (io_result (os_open os p) ()) (\<lambda>_.
          bind_out (io_result (os_metadata os p) (of_nat (length content))) (\<lambda>file_len.
          if file_len < HEADER_SIZE then Fail (FileTooShort HEADER_SIZE file_len)
          else
            bind_out (map_result (os_map os content)) (\<lambda>bs.
            let h = header_of_bytes bs in
            bind_out (header_validate b h) (\<lambda>_.
            bind_out (add_w b (capacity_mask h) 1) (\<lambda>c.
            bind_out (layout_len b T c) (\<lambda>expected.
            if file_len < expected then Fail (FileTooShort expected file_len)
            else Done (new_handle \<lparr> hdr = h, data = drop 256 bs \<rparr> c p))))))))"

section \<open>What creation establishes\<close>

lemma layout_len_Done:
  assumes "256 + unat c * unat (pod_size T) < 2 ^ 64"
  obtains l where "layout_len b T c = Done l" and "unat l = 256 + unat c * unat (pod_size T)"
proof -
  have mul: "mul_w b c (pod_size T) = (Done (c * pod_size T) :: (ShmRingError, u64) outcome)"
    using assms by (intro mul_w_Done) simp
  have um: "unat (c * pod_size T) = unat c * unat (pod_size T)"
    using assms by (simp add: unat_word_ariths)
  have "add_w b HEADER_SIZE (c * pod_size T)
      = (Done (HEADER_SIZE + c * pod_size T) :: (ShmRingError, u64) outcome)"
    using assms um by (intro add_w_Done) (simp add: HEADER_SIZE_def)
  moreover have "unat (HEADER_SIZE + c * pod_size T) = 256 + unat c * unat (pod_size T)"
    using assms um by (simp add: HEADER_SIZE_def unat_word_ariths)
  ultimately show ?thesis by (intro that) (simp_all add: layout_len_def mul)
qed

lemma unat_MAX_READERS [simp]: "unat MAX_READERS = 8"
  by (simp add: MAX_READERS_def)

lemma header_new_Done:
  assumes "1 \<le> n" and "n \<le> MAX_READERS"
  obtains h where "header_new m n = Done h" and "header_wf h" and "capacity_mask h = m"
    and "unat (num_readers h) = unat n" and "write_idx h = 0" and "total_written h = 0"
    and "read_indices h = replicate 8 0" and "magic h = MAGIC" and "version h = VERSION"
proof -
  let ?h = "\<lparr> magic = MAGIC, version = VERSION, num_readers = ucast n, pad1 = 0, write_idx = 0,
     read_indices = replicate 8 0, capacity_mask = m, total_written = 0, pad_to_256 = replicate 18 0 \<rparr>"
  have "unat n \<le> 8" using assms(2) by (simp add: word_le_nat_alt)
  then have "unat n < 2 ^ LENGTH(32)" by simp
  then have "unat (ucast n :: u32) = unat n" by (simp add: unsigned_ucast_eq take_bit_nat_eq_self)
  moreover have "header_new m n = Done ?h" using assms by (simp add: header_new_def)
  ultimately show ?thesis by (intro that [of ?h]) (simp_all add: header_wf_def)
qed

text \<open>A new ring holds the empty stream, with all participating cursors at zero.\<close>

lemma ring_rel_new:
  assumes T: "pod_type T" and c: "is_power_of_two c" and len: "unat c * unat (pod_size T) \<le> length d"
    and small: "256 + unat c * unat (pod_size T) < 2 ^ 64"
    and h: "header_wf h" "write_idx h = 0" "total_written h = 0" "read_indices h = replicate 8 0"
    and n: "1 \<le> unat (num_readers h)" "unat (num_readers h) \<le> 8"
  shows "ring_rel T (new_handle \<lparr>hdr = h, data = d\<rparr> c p) (stream_new (unat (num_readers h)))"
proof -
  have "ring_wf T (new_handle \<lparr>hdr = h, data = d\<rparr> c p)"
    using assms by (simp add: ring_wf_def layout_ok_def new_handle_def slots_ok_def)
  moreover have "map unat (take (unat (num_readers h)) (read_indices h)) = replicate (unat (num_readers h)) 0"
    using h(4) n(2) by (simp add: map_replicate_const)
  ultimately show ?thesis using h stream_ok_new [of "unat (num_readers h)"] n(1)
    by (simp add: ring_rel_def new_handle_def stream_new_def)
qed

lemma create_checks:
  assumes "pod_align T \<le> 64" and "0 < pod_size T" and "is_power_of_two c"
    and "1 \<le> n" and "n \<le> MAX_READERS" and "fs p = None" and "os_open os p = None"
    and "layout_len b T c = Done l" and "header_new (c - 1) n = Done h"
  shows "create_new_with_readers b T os p c n fs =
    (case os_set_len os l of
       Some k \<Rightarrow> (Fail (Io k), fs(p \<mapsto> []))
     | None \<Rightarrow>
        (case os_map os (replicate (unat l) 0) of
           Inl k \<Rightarrow> (Fail (Io k), fs(p \<mapsto> replicate (unat l) 0))
         | Inr bs \<Rightarrow>
            if length bs < 256 then (Fault, fs(p \<mapsto> replicate (unat l) 0))
            else (Done (new_handle \<lparr>hdr = h, data = drop 256 bs\<rparr> c p),
                  fs(p \<mapsto> bytes_of \<lparr>hdr = h, data = drop 256 bs\<rparr>))))"
  using assms is_power_of_two_nonzero [OF assms(3)]
  by (simp add: create_new_with_readers_def act_simps set_len_def map_result_def Let_def
      split: option.split sum.split)

lemma create_success:
  assumes T: "pod_type T" "pod_align T \<le> 64" "0 < pod_size T"
    and c: "is_power_of_two c" and n: "1 \<le> n" "n \<le> MAX_READERS"
    and small: "256 + unat c * unat (pod_size T) < 2 ^ 64"
    and absent: "fs p = None" and os: "os_grants os p"
  obtains r where "create_new_with_readers b T os p c n fs = (Done r, fs(p \<mapsto> bytes_of (mmap r)))"
    and "ring_rel T r (stream_new (unat n))" and "no_loans r" and "capacity r = c" and "path r = p"
    and "capacity_mask (rhdr r) = c - 1" and "magic (rhdr r) = MAGIC" and "version (rhdr r) = VERSION"
    and "length (rdata r) = unat c * unat (pod_size T)"
    and "claim_base r = replicate 8 0" and "loan_depth r = replicate 8 0"
proof -
  let ?d = "replicate (unat c * unat (pod_size T)) 0"
  obtain l where l: "layout_len b T c = Done l" "unat l = 256 + unat c * unat (pod_size T)"
    by (rule layout_len_Done [OF small])
  obtain h where h: "header_new (c - 1) n = Done h" "header_wf h" "capacity_mask h = c - 1"
    "unat (num_readers h) = unat n" "write_idx h = 0" "total_written h = 0"
    "read_indices h = replicate 8 0" "magic h = MAGIC" "version h = VERSION"
    by (rule header_new_Done [OF n])
  let ?r = "new_handle \<lparr>hdr = h, data = ?d\<rparr> c p"
  have nr: "1 \<le> unat (num_readers h)" "unat (num_readers h) \<le> 8"
    using n h(4) by (simp_all add: word_le_nat_alt)
  have "ring_rel T ?r (stream_new (unat n))"
    using ring_rel_new [OF T(1) c _ small h(2) h(5-7) nr, of ?d p] h(4) by simp
  moreover have "os_open os p = None" using os by (simp add: os_grants_def)
  then have "create_new_with_readers b T os p c n fs = (Done ?r, fs(p \<mapsto> bytes_of (mmap ?r)))"
    using create_checks [where fs = fs and p = p and os = os, OF T(2,3) c n absent _ l(1) h(1)] os l(2)
    by (simp add: os_grants_def new_handle_def)
  ultimately show ?thesis using h by (intro that [of ?r]) (simp_all add: new_handle_def no_loans_def)
qed

text \<open>An existing file is never touched, and no error path before the exclusive open creates one.\<close>

lemma create_existing:
  assumes "fs p = Some content"
  shows "snd (create_new_with_readers b T os p c n fs) = fs"
    and "\<exists>res. create_new_with_readers b T os p c n fs = (res, fs) \<and> (\<forall>r. res \<noteq> Done r)"
  using assms by (auto simp: create_new_with_readers_def act_simps)

lemma create_bad_capacity:
  "c = 0 \<or> \<not> is_power_of_two c \<Longrightarrow>
     create_new_with_readers b T os p c n fs = (Fail (InvalidCapacity c), fs)"
  by (simp add: create_new_with_readers_def act_simps)

section \<open>What opening establishes\<close>

lemma validate_Done:
  "header_validate b h = Done () \<longleftrightarrow>
     magic h = MAGIC \<and> version h = VERSION \<and> capacity_mask h \<noteq> 0
     \<and> is_power_of_two (capacity_mask h + 1)"
proof -
  have "\<not> is_power_of_two (capacity_mask h + 1)" if "2 ^ 64 \<le> unat (capacity_mask h) + 1"
  proof -
    from that unat_less_2p64 [of "capacity_mask h"] have "unat (capacity_mask h) + 1 = 2 ^ 64" by simp
    then have "unat (capacity_mask h + 1) = 0" by (simp add: unat_word_ariths)
    then show ?thesis by (auto simp: is_power_of_two_iff)
  qed
  then show ?thesis
    by (auto simp: header_validate_def Let_def add_w_def bind_out_def)
qed

lemma open_exec:
  assumes "pod_align T \<le> 64" and "0 < pod_size T" and "fs p = Some content"
    and "os_open os p = None" and "os_metadata os p = None" and "os_map os content = Inr content"
    and "length content < 2 ^ 64"
  shows "open_existing b T os p fs =
    (if length content < 256 then Fail (FileTooShort HEADER_SIZE (of_nat (length content)))
     else let h = header_of_bytes content in
       bind_out (header_validate b h) (\<lambda>_.
       bind_out (add_w b (capacity_mask h) 1) (\<lambda>c.
       bind_out (layout_len b T c) (\<lambda>expected.
       if length content < unat expected then Fail (FileTooShort expected (of_nat (length content)))
       else Done (new_handle (mapping_of content) c p)))))"
proof -
  have "unat (of_nat (length content) :: u64) = length content"
    using assms(7) by (simp add: unat_of_nat)
  then have lt: "(of_nat (length content) :: u64) < x \<longleftrightarrow> length content < unat x" for x
    by (simp add: word_less_nat_alt)
  have "unat HEADER_SIZE = 256" by (simp add: HEADER_SIZE_def)
  with assms(1-6) show ?thesis
    unfolding mapping_of_def by (simp add: open_existing_def map_result_def lt Let_def)
qed

text \<open>A ring this crate wrote opens cleanly, unless its capacity is 1.\<close>

lemma create_open:
  assumes T: "pod_type T" "pod_align T \<le> 64" "0 < pod_size T"
    and c: "is_power_of_two c" and n: "1 \<le> n" "n \<le> MAX_READERS"
    and small: "256 + unat c * unat (pod_size T) < 2 ^ 64"
    and absent: "fs p = None" and os: "os_grants os p"
    and created: "create_new_with_readers b T os p c n fs = (Done r, fs')"
  shows "open_existing b' T os p fs' =
    (if c = 1 then Fail (HeaderCorruption ''capacity_mask'' 0 0) else Done r)"
proof -
  obtain r0 where r0: "create_new_with_readers b T os p c n fs = (Done r0, fs(p \<mapsto> bytes_of (mmap r0)))"
    "ring_rel T r0 (stream_new (unat n))" "no_loans r0" "capacity r0 = c" "path r0 = p"
    "capacity_mask (rhdr r0) = c - 1" "magic (rhdr r0) = MAGIC" "version (rhdr r0) = VERSION"
    "length (rdata r0) = unat c * unat (pod_size T)"
    "claim_base r0 = replicate 8 0" "loan_depth r0 = replicate 8 0"
    by (rule create_success [where fs = fs and p = p and os = os, OF T c n small absent os])
  have r: "r = r0" and fs': "fs' = fs(p \<mapsto> bytes_of (mmap r0))" using r0(1) created by simp_all
  let ?bs = "bytes_of (mmap r0)"
  have wf: "header_wf (rhdr r0)" using ring_wfD(1) [OF ring_relD(1) [OF r0(2)]] .
  have len: "length ?bs = 256 + unat c * unat (pod_size T)"
    by (simp add: bytes_of_def length_header_bytes [OF wf] r0(9))
  have map: "mapping_of ?bs = mmap r0" using wf by (rule mapping_of_bytes_of)
  then have hdr: "header_of_bytes ?bs = rhdr r0" by (metis mapping.select_convs(1) mapping_of_def)
  obtain l where l: "layout_len b' T c = Done l" "unat l = 256 + unat c * unat (pod_size T)"
    by (rule layout_len_Done [OF small])
  have ex: "open_existing b' T os p fs' =
     bind_out (header_validate b' (rhdr r0)) (\<lambda>_.
     bind_out (add_w b' (capacity_mask (rhdr r0)) 1) (\<lambda>c.
     bind_out (layout_len b' T c) (\<lambda>expected.
     if length ?bs < unat expected then Fail (FileTooShort expected (of_nat (length ?bs)))
     else Done (new_handle (mapping_of ?bs) c p))))"
    using open_exec [where fs = fs' and p = p and os = os and content = ?bs and b = b', OF T(2,3)] os len small
    by (simp add: os_grants_def fs' hdr Let_def)
  show ?thesis
  proof (cases "c = 1")
    case True
    then show ?thesis using r0(6-8) by (simp add: ex header_validate_def Let_def)
  next
    case False
    have "c \<noteq> 0" using is_power_of_two_nonzero [OF c] .
    then have add: "add_w b' (c - 1) 1 = (Done c :: (ShmRingError, u64) outcome)"
      using unat_less_2p64 [of c] by (subst add_w_Done) (simp_all add: unat_minus_one)
    have "header_validate b' (rhdr r0) = Done ()"
      using False c r0(6-8) by (simp add: validate_Done)
    moreover have "new_handle (mmap r0) c p = r0"
      using r0(4,5,10,11) by (simp add: new_handle_def)
    ultimately show ?thesis using False by (simp add: ex r0(6) add l len r map)
  qed
qed

text \<open>What a successful open tells about the file and the handle.\<close>

lemma open_Done:
  assumes "open_existing b T os p fs = Done r" and "maps_file os"
  obtains content expected where "fs p = Some content" and "256 \<le> length content \<or> 2 ^ 64 \<le> length content"
    and "mmap r = mapping_of content" and "header_validate b (rhdr r) = Done ()"
    and "capacity r = capacity_mask (rhdr r) + 1" and "layout_len b T (capacity r) = Done expected"
    and "expected \<le> of_nat (length content)" and "path r = p"
    and "claim_base r = replicate 8 0" and "loan_depth r = replicate 8 0"
proof -
  obtain content where content: "fs p = Some content"
    using assms(1) by (auto simp: open_existing_def split: if_splits option.splits)
  obtain bs where bs: "os_map os content = Inr bs"
    using assms(1) content
    by (cases "os_map os content")
       (auto simp: open_existing_def map_result_def io_result_def bind_out_def split: if_splits option.splits)
  then have "bs = content" using assms(2) by (auto simp: maps_file_def)
  have add: "add_w b m 1 = Done c \<Longrightarrow> c = m + 1" for m c :: u64
    by (simp add: add_w_def split: if_splits)
  have "\<not> (of_nat (length content) :: u64) < HEADER_SIZE"
    using assms(1) content
    by (auto simp: open_existing_def io_result_def bind_out_def split: if_splits option.splits)
  then have "256 \<le> unat (of_nat (length content) :: u64)"
    by (simp add: word_less_nat_alt HEADER_SIZE_def)
  then have "256 \<le> length content"
    by (metis unat_of_nat mod_less_eq_dividend le_trans)
  moreover have "mmap r = mapping_of content \<and> header_validate b (rhdr r) = Done ()
      \<and> capacity r = capacity_mask (rhdr r) + 1 \<and> path r = p
      \<and> claim_base r = replicate 8 0 \<and> loan_depth r = replicate 8 0
      \<and> (\<exists>e. layout_len b T (capacity r) = Done e \<and> e \<le> of_nat (length content))"
    using assms(1) content bs \<open>bs = content\<close>
    by (auto simp: open_existing_def map_result_def io_result_def bind_out_def Let_def new_handle_def
        mapping_of_def not_less dest!: add split: if_splits option.splits outcome.splits)
  ultimately show ?thesis using content by (auto intro: that)
qed


section \<open>Rings that survive their handles\<close>

text \<open>
  A handle whose mapping is a valid ring file: the stream contract of \<open>queue_rel\<close> together
  with the identity fields that an opener checks. The operations keep it, so it is a second instance of
  the queue contract, and reopening the file continues the stream.
\<close>

definition file_rel :: "'a pod \<Rightarrow> nat \<Rightarrow> SpmcRingBuffer \<Rightarrow> 'a stream \<Rightarrow> bool" where
  "file_rel T cap r S \<longleftrightarrow>
     queue_rel T cap r S \<and> magic (rhdr r) = MAGIC \<and> version (rhdr r) = VERSION
     \<and> capacity_mask (rhdr r) + 1 = capacity r \<and> 256 + length (rdata r) < 2 ^ 64"

lemma push_keeps_identity:
  assumes "ring_rel T r S" and "length (msgs S) < 2 ^ 64 - 1" and "try_push b T v r = (x, r')"
  shows "magic (rhdr r') = magic (rhdr r)" "version (rhdr r') = version (rhdr r)"
    "capacity_mask (rhdr r') = capacity_mask (rhdr r)" "length (rdata r') = length (rdata r)"
    "capacity r' = capacity r"
proof -
  have "r' = r \<or> r' = pushed_state T v r"
    using try_push_exec [OF assms(1,2), of b v] assms(3) by (auto split: if_splits)
  moreover have "length (rdata (pushed_state T v r)) = length (rdata r)"
    using length_slot_write [OF ring_wfD(3) [OF ring_relD(1) [OF assms(1)]],
        of "unat (write_idx (rhdr r)) mod cap_of r" v] cap_pos [OF ring_rel_layout [OF assms(1)]]
    by (simp add: pushed_state_def)
  ultimately show "magic (rhdr r') = magic (rhdr r)" "version (rhdr r') = version (rhdr r)"
    "capacity_mask (rhdr r') = capacity_mask (rhdr r)" "length (rdata r') = length (rdata r)"
    "capacity r' = capacity r"
    by (auto simp: pushed_state_def bump_total_written_def set_write_idx_def)
qed

lemma pop_keeps_identity:
  assumes "ring_rel T r S" and "unat rid < length (cursors S)" and "loan_depth r ! unat rid = 0"
    and "try_pop b T rid r = (x, r')"
  shows "magic (rhdr r') = magic (rhdr r)" "version (rhdr r') = version (rhdr r)"
    "capacity_mask (rhdr r') = capacity_mask (rhdr r)" "length (rdata r') = length (rdata r)"
    "capacity r' = capacity r"
proof -
  have "r' = r \<or> r' = popped_state rid r"
    using try_pop_exec [OF assms(1-3), of b] assms(4) by (auto split: if_splits)
  then show "magic (rhdr r') = magic (rhdr r)" "version (rhdr r') = version (rhdr r)"
    "capacity_mask (rhdr r') = capacity_mask (rhdr r)" "length (rdata r') = length (rdata r)"
    "capacity r' = capacity r"
    by (auto simp: popped_state_def)
qed

lemma queue_rel_gate:
  assumes "queue_rel T cap r S" and "i < length (cursors S)"
  shows "ring_rel T r S" "unat (of_nat i :: usize) = i" "loan_depth r ! i = 0"
proof -
  show rel: "ring_rel T r S" using assms(1) by (simp add: queue_rel_def)
  show "unat (of_nat i :: usize) = i" using cursor_nth(2) [OF rel assms(2)] by (rule unat_reader_id)
  show "loan_depth r ! i = 0"
    using assms(1) cursor_nth(2) [OF rel assms(2)] ring_wfD(9) [OF ring_relD(1) [OF rel]]
    by (simp add: queue_rel_def no_loans_def)
qed

interpretation durable: spmc_queue "try_push b T" "\<lambda>i. try_pop b T (of_nat i)" "file_rel T cap" cap "2 ^ 64 - 1"
proof unfold_locales
  fix r S
  assume "file_rel T cap r S"
  then show "stream_ok cap S" by (auto simp: file_rel_def dest: ring.rel_ok)
next
  fix r S v
  assume rel: "file_rel T cap r S" and bound: "length (msgs S) < 2 ^ 64 - 1"
  then have q: "queue_rel T cap r S" by (simp add: file_rel_def)
  obtain r' where r': "try_push b T v r = (Done (fst (stream_push cap v S)), r')"
    "queue_rel T cap r' (snd (stream_push cap v S))"
    using ring.push_refines [OF q bound, of b v] by blast
  have "ring_rel T r S" using q by (simp add: queue_rel_def)
  note push_keeps_identity [OF this bound r'(1)]
  with r' rel show "\<exists>r'. try_push b T v r = (Done (fst (stream_push cap v S)), r')
      \<and> file_rel T cap r' (snd (stream_push cap v S))"
    by (simp add: file_rel_def)
next
  fix r S i
  assume rel: "file_rel T cap r S" and i: "i < length (cursors S)"
  then have q: "queue_rel T cap r S" by (simp add: file_rel_def)
  obtain r' where r': "try_pop b T (of_nat i) r = (Done (fst (stream_pop i S)), r')"
    "queue_rel T cap r' (snd (stream_pop i S))"
    using ring.pop_refines [OF q i, of b] by blast
  note gate = queue_rel_gate [OF q i]
  from pop_keeps_identity [OF gate(1) _ _ r'(1)] gate(2,3) i r' rel
  show "\<exists>r'. try_pop b T (of_nat i) r = (Done (fst (stream_pop i S)), r')
      \<and> file_rel T cap r' (snd (stream_pop i S))"
    by (simp add: file_rel_def)
qed

text \<open>A ring file opens to a fresh handle on its mapping, whatever its counters are.\<close>

lemma reopen_identity:
  assumes wf: "ring_wf T r" and id: "magic (rhdr r) = MAGIC" "version (rhdr r) = VERSION"
      "capacity_mask (rhdr r) + 1 = capacity r" "256 + length (rdata r) < 2 ^ 64" and cap: "cap_of r \<noteq> 1"
    and T: "pod_align T \<le> 64" "0 < pod_size T" and os: "os_grants os p" and fs: "fs p = Some (bytes_of (mmap r))"
  shows "open_existing b T os p fs = Done (new_handle (mmap r) (capacity r) p)"
proof -
  note wf = ring_wfD [OF wf]
  let ?bs = "bytes_of (mmap r)"
  have len: "length ?bs = 256 + length (rdata r)" by (simp add: bytes_of_def length_header_bytes [OF wf(1)])
  have map: "mapping_of ?bs = mmap r" by (rule mapping_of_bytes_of [OF wf(1)])
  then have hdr: "header_of_bytes ?bs = rhdr r" by (metis mapping.select_convs(1) mapping_of_def)
  have m0: "capacity_mask (rhdr r) \<noteq> 0"
    using cap by (auto simp flip: id(3))
  have add: "add_w b (capacity_mask (rhdr r)) 1 = (Done (capacity r) :: (ShmRingError, u64) outcome)"
  proof -
    have "capacity r \<noteq> 0" using is_power_of_two_nonzero [OF wf(2)] .
    then have "unat (capacity r - 1) + 1 < 2 ^ LENGTH(64)"
      using unat_less_2p64 [of "capacity r"] by (simp add: unat_minus_one)
    moreover have "capacity_mask (rhdr r) = capacity r - 1" by (simp flip: id(3))
    ultimately show ?thesis using add_w_Done [of "capacity r - 1" 1 b] by simp
  qed
  obtain l where l: "layout_len b T (capacity r) = Done l" "unat l = 256 + cap_of r * unat (pod_size T)"
    by (rule layout_len_Done [OF wf(4)])
  have "header_validate b (rhdr r) = Done ()" using id wf(2) m0 by (simp add: validate_Done)
  then show ?thesis
    using open_exec [where fs = fs and p = p and os = os and b = b, OF T fs os_grantsD(1,2,6) [OF os]]
      id(4) len l add wf(3) by (simp add: hdr map slots_ok_def)
qed

lemma file_relD:
  assumes "file_rel T cap r S"
  shows "ring_rel T r S" "ring_wf T r" "magic (rhdr r) = MAGIC" "version (rhdr r) = VERSION"
    "capacity_mask (rhdr r) + 1 = capacity r" "256 + length (rdata r) < 2 ^ 64" "cap_of r = cap" "no_loans r"
  using assms ring_relD(1) by (auto simp: file_rel_def queue_rel_def)

lemma file_rel_new_handle: "file_rel T cap r S \<Longrightarrow> file_rel T cap (new_handle (mmap r) (capacity r) p) S"
  by (auto simp: file_rel_def queue_rel_def ring_rel_def ring_wf_def layout_ok_def new_handle_def no_loans_def)

text \<open>A ring file opens to a fresh handle on the stream it holds.\<close>

lemma reopen:
  assumes rel: "file_rel T cap r S" and cap: "cap \<noteq> 1" and T: "pod_align T \<le> 64" "0 < pod_size T"
    and os: "os_grants os p" and fs: "fs p = Some (bytes_of (mmap r))"
  shows "open_existing b T os p fs = Done (new_handle (mmap r) (capacity r) p)"
    and "file_rel T cap (new_handle (mmap r) (capacity r) p) S"
  using reopen_identity [where fs = fs and os = os and p = p and b = b, OF file_relD(2-6) [OF rel] _ T os fs] cap
    file_relD(7) [OF rel] file_rel_new_handle [OF rel] by simp_all

text \<open>Creation establishes the relation.\<close>

lemma create_file_rel:
  assumes T: "pod_type T" "pod_align T \<le> 64" "0 < pod_size T"
    and c: "is_power_of_two c" and n: "1 \<le> n" "n \<le> MAX_READERS"
    and small: "256 + unat c * unat (pod_size T) < 2 ^ 64"
    and absent: "fs p = None" and os: "os_grants os p"
  obtains r where "create_new_with_readers b T os p c n fs = (Done r, fs(p \<mapsto> bytes_of (mmap r)))"
    and "file_rel T (unat c) r (stream_new (unat n))"
proof -
  obtain r where r: "create_new_with_readers b T os p c n fs = (Done r, fs(p \<mapsto> bytes_of (mmap r)))"
    "ring_rel T r (stream_new (unat n))" "no_loans r" "capacity r = c"
    "capacity_mask (rhdr r) = c - 1" "magic (rhdr r) = MAGIC" "version (rhdr r) = VERSION"
    "length (rdata r) = unat c * unat (pod_size T)"
    by (rule create_success [where fs = fs and p = p and os = os and b = b, OF assms])
  then show ?thesis using small by (intro that [of r]) (simp_all add: file_rel_def queue_rel_def)
qed

end
