(* ===== verification/Sample.thy ===== *)
theory Sample
  imports Loan Ring_File
begin

text \<open>
  Concrete rings of \<open>u64\<close> messages with two slots and two readers, in the states the
  instances of the properties are stated at: empty, full, and with a zero-copy loan open.
\<close>

definition sample_header :: RingHeader where
  "sample_header =
     \<lparr> magic = MAGIC, version = VERSION, num_readers = 2, pad1 = 0, write_idx = 0,
       read_indices = replicate 8 0, capacity_mask = 1, total_written = 0, pad_to_256 = replicate 18 0 \<rparr>"

definition sample_ring :: SpmcRingBuffer where
  "sample_ring = new_handle \<lparr>hdr = sample_header, data = replicate 16 0\<rparr> 2 ''ring''"

definition sample_full :: SpmcRingBuffer where
  "sample_full = pushed_state u64_pod 9 (pushed_state u64_pod 7 sample_ring)"

definition full_stream :: "u64 stream" where
  "full_stream = \<lparr>msgs = [7, 9], cursors = [0, 0]\<rparr>"

definition sample_loan :: Loan where
  "sample_loan = \<lparr>ln_reader = 0, ln_index = 0, ln_ptr = 256, ln_resolved = False\<rparr>"

definition sample_loaned :: SpmcRingBuffer where
  "sample_loaned = sample_full\<lparr>claim_base := 1 # replicate 7 0, loan_depth := 1 # replicate 7 0\<rparr>"

lemma power_of_two_2: "is_power_of_two (2 :: u64)"
  by (auto simp: is_power_of_two_iff intro!: exI [of _ 1])

lemma sample_simps [simp]:
  "capacity sample_ring = 2" "path sample_ring = ''ring''" "write_idx (rhdr sample_ring) = 0"
  "num_readers (rhdr sample_ring) = 2" "read_indices (rhdr sample_ring) = replicate 8 0"
  "loan_depth sample_ring = replicate 8 0" "claim_base sample_ring = replicate 8 0"
  "length (rdata sample_ring) = 16" "header_wf (rhdr sample_ring)"
  by (simp_all add: sample_ring_def new_handle_def sample_header_def header_wf_def)

lemma stream_new_2: "stream_new 2 = \<lparr>msgs = [], cursors = [0, 0]\<rparr>"
  by (simp add: stream_new_def numeral_2_eq_2)

lemma all_less_2: "(\<forall>i < (2 :: nat). P i) \<longleftrightarrow> P 0 \<and> P 1"
  by (auto simp: less_2_cases_iff)

lemma sample_rel: "ring_rel u64_pod sample_ring (stream_new 2)"
  using ring_rel_new [OF u64_pod.pod_type_axioms power_of_two_2, of "replicate 16 0" sample_header "''ring''"]
  by (simp add: sample_ring_def sample_header_def header_wf_def)

lemma sample_full_simps [simp]:
  "capacity sample_full = 2" "write_idx (rhdr sample_full) = 2" "num_readers (rhdr sample_full) = 2"
  "read_indices (rhdr sample_full) = replicate 8 0" "loan_depth sample_full = replicate 8 0"
  "claim_base sample_full = replicate 8 0"
  by (simp_all add: sample_full_def pushed_state_def bump_total_written_def set_write_idx_def)

lemma sample_pushed_rel: "ring_rel u64_pod (pushed_state u64_pod v sample_ring) \<lparr>msgs = [v], cursors = [0, 0]\<rparr>"
  using try_push_refines [OF sample_rel, of Debug v] try_push_exec [OF sample_rel, of Debug v]
  by (simp add: stream_push_def stream_new_2 slowest_def)

lemma sample_full_rel: "ring_rel u64_pod sample_full full_stream"
proof -
  let ?S = "stream_new 2 :: u64 stream"
  note rel = sample_rel
  have 1: "try_push Debug u64_pod 7 sample_ring = (Done True, pushed_state u64_pod 7 sample_ring)"
    using try_push_exec [OF rel, of Debug 7] by (simp add: stream_new_2 slowest_def)
  have rel1: "ring_rel u64_pod (pushed_state u64_pod 7 sample_ring) (?S\<lparr>msgs := [7]\<rparr>)"
    using try_push_refines [OF rel, of Debug 7] 1 by (simp add: stream_push_def stream_new_2 slowest_def)
  have cap: "capacity (pushed_state u64_pod 7 sample_ring) = 2" by (simp add: pushed_state_def)
  have 2: "try_push Debug u64_pod 9 (pushed_state u64_pod 7 sample_ring) = (Done True, sample_full)"
    using try_push_exec [OF rel1, of Debug 9] cap
    by (simp add: stream_new_2 slowest_def sample_full_def)
  then show ?thesis
    using try_push_refines [OF rel1, of Debug 9] cap
    by (simp add: stream_push_def stream_new_2 slowest_def full_stream_def)
qed

lemma sample_loaned_simps [simp]:
  "capacity sample_loaned = 2" "write_idx (rhdr sample_loaned) = 2" "num_readers (rhdr sample_loaned) = 2"
  "read_indices (rhdr sample_loaned) = replicate 8 0" "loan_depth sample_loaned = 1 # replicate 7 0"
  "claim_base sample_loaned = 1 # replicate 7 0"
  by (simp_all add: sample_loaned_def)

lemma full_stream_simps [simp]:
  "msgs full_stream = [7, 9]" "cursors full_stream = [0, 0]" "slowest full_stream = 0"
  by (simp_all add: full_stream_def slowest_def)

lemma sample_loan_simps [simp]:
  "ln_reader sample_loan = 0" "ln_index sample_loan = 0" "ln_ptr sample_loan = 256" "\<not> ln_resolved sample_loan"
  by (simp_all add: sample_loan_def)

lemma sample_loaned_rel: "ring_rel u64_pod sample_loaned full_stream"
  using sample_full_rel by (simp add: sample_loaned_def)

lemma sample_full_inv: "loan_inv u64_pod sample_full [] full_stream"
  using sample_full_rel by (auto simp: loan_inv_def loan_count_def all_less_2)

lemma sample_slot_0:
  assumes "capacity r = 2"
  shows "slot_ptr b u64_pod 0 r = Done 256"
  by (simp add: assms slot_ptr_def sub_w_def mul_w_def add_w_def DATA_OFFSET_def HEADER_SIZE_def)

lemma sample_loaned_inv: "loan_inv u64_pod sample_loaned [sample_loan] full_stream"
  using sample_loaned_rel sample_slot_0 [of sample_loaned Release]
  by (simp add: loan_inv_def loan_ok_def loan_count_def all_less_2)

end
