(* ===== verification/Ring_Props.thy ===== *)
theory Ring_Props
  imports Sample
begin

text \<open>
  The properties of the ring's operations on one handle: push and pop against the abstract stream,
  the exact bytes they change, slot pointers, the backpressure scan, the diagnostics, and the reader
  checks.
\<close>

section \<open>Push and pop\<close>

text \<open>
  C8. A push never panics or touches memory outside the slots. It is accepted exactly when the slowest
  reader lags by less than the capacity; then the ring holds the stream with the message appended, and
  otherwise nothing at all changes.
\<close>

theorem push_implements_stream:
  assumes "ring_rel T r S" and "length (msgs S) < 2 ^ 64 - 1"
  shows "\<exists>r'. try_push b T v r = (Done (length (msgs S) < slowest S + cap_of r), r')
    \<and> ring_rel T r' (if length (msgs S) < slowest S + cap_of r then S\<lparr>msgs := msgs S @ [v]\<rparr> else S)
    \<and> (slowest S + cap_of r \<le> length (msgs S) \<longrightarrow> r' = r)
    \<and> claim_base r' = claim_base r \<and> loan_depth r' = loan_depth r \<and> capacity r' = capacity r"
proof (cases "length (msgs S) < slowest S + cap_of r")
  case True
  then show ?thesis using try_push_refines [OF assms, of b v] by (simp add: stream_push_def)
next
  case False
  then show ?thesis using assms(1) try_push_exec [OF assms, of b v] by simp
qed

theorem push_implements_stream_witness:
  "(\<exists>r'. try_push Debug u64_pod 5 sample_ring = (Done True, r')
      \<and> ring_rel u64_pod r' \<lparr>msgs = [5], cursors = [0, 0]\<rparr>)
   \<and> (\<exists>r'. try_push Release u64_pod 5 sample_full = (Done False, r') \<and> r' = sample_full)"
  using push_implements_stream [OF sample_rel, of Debug 5] push_implements_stream [OF sample_full_rel, of Release 5]
  by (auto simp: stream_new_2 slowest_def)

text \<open>
  C9. A pop by a participating reader with no open loan returns the message under its own cursor and
  moves that cursor by one, or \<open>None\<close> with no change when the reader has caught up.
\<close>

theorem pop_implements_stream:
  assumes "ring_rel T r S" and "unat rid < length (cursors S)" and "loan_depth r ! unat rid = 0"
  shows "\<exists>r'. try_pop b T rid r =
      (Done (if cursors S ! unat rid < length (msgs S) then Some (msgs S ! (cursors S ! unat rid)) else None), r')
    \<and> ring_rel T r'
        (if cursors S ! unat rid < length (msgs S)
         then S\<lparr>cursors := (cursors S)[unat rid := Suc (cursors S ! unat rid)]\<rparr> else S)
    \<and> (cursors S ! unat rid = length (msgs S) \<longrightarrow> r' = r)
    \<and> claim_base r' = claim_base r \<and> loan_depth r' = loan_depth r \<and> capacity r' = capacity r"
proof (cases "cursors S ! unat rid < length (msgs S)")
  case True
  then show ?thesis using try_pop_refines [OF assms, of b] by (simp add: stream_pop_def Let_def)
next
  case False
  then show ?thesis using assms(1) try_pop_exec [OF assms, of b] by simp
qed

theorem pop_implements_stream_witness:
  "\<exists>r'. try_pop Debug u64_pod 1 sample_full = (Done (Some 7), r')
     \<and> ring_rel u64_pod r' \<lparr>msgs = [7, 9], cursors = [0, 1]\<rparr>"
  using pop_implements_stream [OF sample_full_rel, of 1 Debug] by (auto simp: full_stream_def)

section \<open>Which bytes an operation changes\<close>

lemma store_append_left: "off + length xs \<le> length a \<Longrightarrow> store off xs (a @ c) = store off xs a @ c"
  by (simp add: store_def)

lemma store_append_right: "store (length a + off) xs (a @ c) = a @ store off xs c"
  by (simp add: store_def)

lemma header_bytes_bump:
  assumes "header_wf h"
  shows "header_bytes (bump_total_written h) = store 104 (le_bytes 8 (total_written h + 1)) (header_bytes h)"
  using assms by (simp add: header_bytes_def bump_total_written_def header_wf_def store_def)

lemma bytes_of_upd_hdr:
  assumes "header_wf (rhdr r)" and "header_bytes (f (rhdr r)) = store off xs (header_bytes (rhdr r))"
    and "off + length xs \<le> 256"
  shows "bytes_of (mmap (upd_hdr f r)) = store off xs (bytes_of (mmap r))"
  using assms by (simp add: bytes_of_def store_append_left length_header_bytes)

lemma bytes_of_upd_data:
  assumes "header_wf (rhdr r)"
  shows "bytes_of (mmap (upd_data (store off xs) r)) = store (256 + off) xs (bytes_of (mmap r))"
  using store_append_right [of "header_bytes (rhdr r)" off xs "rdata r"]
  by (simp add: bytes_of_def length_header_bytes [OF assms])

text \<open>
  An accepted push changes three byte ranges of the file and nothing else: the message's slot, the
  eight bytes of \<open>write_idx\<close>, and the eight bytes of \<open>total_written\<close>.
\<close>

lemma push_bytes:
  assumes "ring_rel T r S" and "length (msgs S) < 2 ^ 64 - 1" and "try_push b T v r = (Done True, r')"
  shows "bytes_of (mmap r') =
    store 104 (le_bytes 8 (total_written (rhdr r) + 1))
      (store 24 (le_bytes 8 (write_idx (rhdr r) + 1))
        (store (256 + length (msgs S) mod cap_of r * unat (pod_size T)) (pod_enc T v)
          (bytes_of (mmap r))))"
proof -
  let ?d = "upd_data (slot_write T (unat (write_idx (rhdr r)) mod cap_of r) v) r"
  let ?w = "upd_hdr (set_write_idx (write_idx (rhdr r) + 1)) ?d"
  have wf: "header_wf (rhdr r)" using ring_wfD(1) [OF ring_relD(1) [OF assms(1)]] .
  have r': "r' = upd_hdr bump_total_written ?w"
    using try_push_exec [OF assms(1,2), of b v] assms(3) by (simp add: pushed_state_def split: if_splits)
  have 1: "bytes_of (mmap ?d) =
      store (256 + length (msgs S) mod cap_of r * unat (pod_size T)) (pod_enc T v) (bytes_of (mmap r))"
    unfolding slot_write_def [abs_def] ring_relD(2) [OF assms(1)] by (rule bytes_of_upd_data [OF wf])
  have 2: "bytes_of (mmap ?w) = store 24 (le_bytes 8 (write_idx (rhdr r) + 1)) (bytes_of (mmap ?d))"
    using wf by (intro bytes_of_upd_hdr header_bytes_set_write_idx) simp_all
  have "header_wf (rhdr ?w)" using wf by (simp add: header_wf_def set_write_idx_def)
  then have "bytes_of (mmap r') = store 104 (le_bytes 8 (total_written (rhdr ?w) + 1)) (bytes_of (mmap ?w))"
    unfolding r' by (intro bytes_of_upd_hdr header_bytes_bump) simp_all
  then show ?thesis by (simp add: 1 2 set_write_idx_def)
qed

text \<open>
  A pop that returns a message changes the eight bytes of the reader's own cursor and nothing else.
\<close>

lemma pop_bytes:
  assumes "ring_rel T r S" and "unat rid < length (cursors S)" and "loan_depth r ! unat rid = 0"
    and "try_pop b T rid r = (Done (Some v), r')"
  shows "bytes_of (mmap r') =
    store (32 + 8 * unat rid) (le_bytes 8 (of_nat (cursors S ! unat rid) + 1 :: u64)) (bytes_of (mmap r))"
proof -
  note cur = cursor_word [OF assms(1,2)] cursor_nth(2,3) [OF assms(1,2)]
  have wf: "header_wf (rhdr r)" using ring_wfD(1) [OF ring_relD(1) [OF assms(1)]] .
  have r': "r' = popped_state rid r"
    using try_pop_exec [OF assms(1-3), of b] assms(4) by (simp split: if_splits)
  have c: "read_indices (rhdr r) ! unat rid = of_nat (cursors S ! unat rid)"
    by (simp flip: cur(2))
  show ?thesis
    unfolding r' popped_state_def
    by (rule bytes_of_upd_hdr [OF wf header_bytes_set_read_idx [OF wf]])
       (use cur(4,5) c in \<open>simp_all add: set_read_idx_def\<close>)
qed

section \<open>Slot pointers\<close>

lemma small_power_of_two_dvd:
  assumes "is_power_of_two (a :: usize)" and "a \<le> 64"
  shows "unat a dvd 256"
proof -
  obtain k where k: "unat a = 2 ^ k" using assms(1) by (auto simp: is_power_of_two_iff)
  have "unat a \<le> 64" using assms(2) by (simp add: word_le_nat_alt)
  then have "(2 :: nat) ^ k \<le> 2 ^ 6" using k by simp
  then have "k \<le> 6" by (rule power_le_imp_le_exp [rotated]) simp
  then have "(2 :: nat) ^ k dvd 2 ^ 8" by (intro le_imp_power_dvd) simp
  then show ?thesis using k by simp
qed

text \<open>
  C19. In a ring whose layout fits its mapping, the pointer of any stream index is computed without
  overflow, lies with all of its slot inside the mapped slot area, and is aligned for the message type.
\<close>

theorem slot_ptr_in_bounds:
  assumes "layout_ok T r" and "pod_align T \<le> 64"
  shows "\<exists>p. slot_ptr b T idx r = Done p \<and> in_slot_area T p r
    \<and> unat p = 256 + (unat idx mod cap_of r) * unat (pod_size T) \<and> unat (pod_align T) dvd unat p"
proof -
  have T: "pod_type T" using layout_okD(2) [OF assms(1)] by (simp add: slots_ok_def)
  obtain p where p: "slot_ptr b T idx r = Done p"
    and u: "unat p = 256 + (unat idx mod cap_of r) * unat (pod_size T)"
    by (rule slot_ptr_Done [OF assms(1)])
  have "unat (pod_align T) dvd 256"
    using small_power_of_two_dvd [OF pod_type.align_pow2 [OF T] assms(2)] .
  then have "unat (pod_align T) dvd unat p"
    using pod_type.align_dvd [OF T] by (simp add: u)
  with p u slot_in_area [OF assms(1) u] show ?thesis by blast
qed

theorem slot_ptr_in_bounds_witness:
  "\<exists>p. slot_ptr Debug u64_pod 5 sample_ring = Done p \<and> in_slot_area u64_pod p sample_ring
     \<and> unat p = 264 \<and> 8 dvd unat p"
  using slot_ptr_in_bounds [OF ring_rel_layout [OF sample_rel], of Debug 5] by auto

text \<open>
  Two messages that are in the ring at the same time, that is less than a capacity apart, have
  disjoint slots.
\<close>

lemma slot_ptrs_disjoint:
  assumes "layout_ok T r" and "unat idx < unat idx'" and "unat idx' < unat idx + cap_of r"
    and "slot_ptr b T idx r = Done p" and "slot_ptr b T idx' r = Done p'"
  shows "unat p + unat (pod_size T) \<le> unat p' \<or> unat p' + unat (pod_size T) \<le> unat p"
proof -
  have "unat p = 256 + (unat idx mod cap_of r) * unat (pod_size T)"
    using slot_ptr_Done [OF assms(1), of b idx] assms(4) by auto
  moreover have "unat p' = 256 + (unat idx' mod cap_of r) * unat (pod_size T)"
    using slot_ptr_Done [OF assms(1), of b idx'] assms(5) by auto
  moreover have "unat idx mod cap_of r \<noteq> unat idx' mod cap_of r"
    using mod_window_inj [of "unat idx" "unat idx" "cap_of r" "unat idx'"] assms(2,3) by auto
  ultimately show ?thesis
    using slots_disjoint [of "unat idx mod cap_of r" "unat idx' mod cap_of r" "unat (pod_size T)"] by auto
qed

section \<open>Backpressure scan and diagnostics\<close>

lemma foldl_min_max_word:
  assumes "xs \<noteq> []"
  shows "foldl min (- 1 :: 'a::len word) xs = Min (set xs)"
proof -
  have "set xs \<noteq> {}" "finite (set xs)" using assms by simp_all
  then have "Min (insert (- 1) (set xs)) = Min (set xs)"
    by (simp add: min_absorb2)
  then show ?thesis by (simp add: foldl_min_Min)
qed

text \<open>
  The backpressure scan is the minimum of the participating cursors, whatever the others hold. With no
  participant it is \<open>u64::MAX\<close>; with more than eight it panics.
\<close>

lemma slowest_read_idx_Min:
  assumes "header_wf h"
  shows "slowest_read_idx n h =
    (if n = 0 then Done (- 1)
     else if n \<le> MAX_READERS then Done (Min (set (take (unat n) (read_indices h)))) else Panic)"
proof -
  have len: "length (read_indices h) = 8" using assms by (simp add: header_wf_def)
  have "take (unat n) (read_indices h) \<noteq> []" if "n \<noteq> 0"
    using that len by (auto simp: take_eq_Nil unat_eq_zero)
  then show ?thesis
    using len by (simp add: slowest_read_idx_def foldl_min_max_word word_le_nat_alt)
qed

text \<open>
  The diagnostics report the abstract stream: \<open>len\<close> what a reader has left, \<open>is_empty\<close>
  whether that is nothing, \<open>slowest_lag\<close> the occupancy, never more than the capacity.
\<close>

lemma diagnostics_exact:
  assumes "ring_rel T r S" and "unat rid < length (cursors S)"
  shows "\<exists>n lag. len b rid r = Done n \<and> unat n = length (msgs S) - cursors S ! unat rid
    \<and> is_empty b rid r = Done (n = 0)
    \<and> slowest_lag r = Done lag \<and> unat lag = length (msgs S) - slowest S \<and> n \<le> lag \<and> lag \<le> capacity r"
proof -
  obtain n where n: "len b rid r = Done n" "unat n = length (msgs S) - cursors S ! unat rid"
    using len_exec [OF assms] by blast
  obtain lag where lag: "slowest_lag r = Done lag" "unat lag = length (msgs S) - slowest S"
    using slowest_lag_exec [OF assms(1)] by blast
  have "n \<le> lag" using n(2) lag(2) slowest_le [OF assms(2)] by (simp add: word_le_nat_alt)
  moreover have "lag \<le> capacity r"
    using lag(2) stream_okD(3) [OF ring_relD(5) [OF assms(1)]] by (simp add: word_le_nat_alt)
  ultimately show ?thesis using n lag by (simp add: is_empty_def)
qed

text \<open>Any number of pushes, accepted or not, extends the stream of the same ring.\<close>

lemma pushes_keep_rel:
  assumes "ring_rel T r S" and "length (msgs S) + length vs \<le> 2 ^ 64 - 1"
  obtains r' xs where "run_ops (try_push b T) pop (map Push vs) r = (Done (map Pushed xs), r')"
    and "ring_rel T r' (S\<lparr>msgs := msgs S @ accepted (map Push vs) (map Pushed xs)\<rparr>)"
    and "capacity r' = capacity r" and "length xs = length vs"
  using assms
proof (induction vs arbitrary: r S thesis)
  case Nil
  then show ?case by (intro Nil.prems(1) [of "[]" r]) (simp_all add: act_simps)
next
  case (Cons v vs)
  let ?acc = "fst (stream_push (cap_of r) v S)" and ?S = "snd (stream_push (cap_of r) v S)"
  have "length (msgs S) < 2 ^ 64 - 1" using Cons.prems(3) by simp
  then obtain r1 where r1: "try_push b T v r = (Done ?acc, r1)" "ring_rel T r1 ?S" "capacity r1 = capacity r"
    using try_push_refines [OF Cons.prems(2), of b v] by blast
  have "length (msgs ?S) + length vs \<le> 2 ^ 64 - 1"
    using Cons.prems(3) by (simp add: stream_push_def)
  then obtain r2 xs where r2: "run_ops (try_push b T) pop (map Push vs) r1 = (Done (map Pushed xs), r2)"
    "ring_rel T r2 (?S\<lparr>msgs := msgs ?S @ accepted (map Push vs) (map Pushed xs)\<rparr>)"
    "capacity r2 = capacity r1" "length xs = length vs"
    using Cons.IH [OF _ r1(2)] by blast
  have "run_ops (try_push b T) pop (map Push (v # vs)) r = (Done (map Pushed (?acc # xs)), r2)"
    by (simp add: act_simps bind_act_Done r1(1) r2(1))
  moreover have "ring_rel T r2 (S\<lparr>msgs := msgs S @ accepted (map Push (v # vs)) (map Pushed (?acc # xs))\<rparr>)"
    using r2(2) by (cases ?acc) (auto simp: stream_push_def split: if_splits)
  ultimately show ?case using r1(3) r2(3,4) by (intro Cons.prems(1) [of "?acc # xs" r2]) simp_all
qed

text \<open>
  C34. \<open>peek\<close> hands out a pointer exactly when the reader has a message left, and reading through
  it, now or after any number of accepted or refused pushes by the producer, gives that message.
\<close>

theorem peek_stable:
  assumes "ring_rel T r S" and "unat rid < length (cursors S)"
    and "length (msgs S) + length vs \<le> 2 ^ 64 - 1"
  shows "\<exists>answers r' p. run_ops (try_push b T) pop (map Push vs) r = (Done answers, r')
    \<and> (if cursors S ! unat rid < length (msgs S)
       then peek b T rid r = Done (Some p) \<and> read_volatile T p r' = Done (msgs S ! (cursors S ! unat rid))
       else peek b T rid r = Done None)"
proof -
  obtain r' xs where r': "run_ops (try_push b T) pop (map Push vs) r = (Done (map Pushed xs), r')"
    "ring_rel T r' (S\<lparr>msgs := msgs S @ accepted (map Push vs) (map Pushed xs)\<rparr>)" (is "ring_rel _ _ ?S'")
    "capacity r' = capacity r"
    by (rule pushes_keep_rel [OF assms(1,3)])
  note cur = cursor_word [OF assms(1,2)]
  show ?thesis
  proof (cases "cursors S ! unat rid < length (msgs S)")
    case True
    let ?c = "read_indices (rhdr r) ! unat rid"
    obtain p where p: "slot_ptr b T ?c r = Done p"
      using slot_ptr_Done [OF ring_rel_layout [OF assms(1)]] by blast
    then have "peek b T rid r = Done (Some p)"
      using True cur(3) by (simp add: peek_def check_reader_Done [OF assms(1,2)] cur(1))
    moreover have "slot_ptr b T ?c r' = Done p"
      using p r'(3) by (simp add: slot_ptr_def)
    then have "read_volatile T p r' = Done (slot_read T (rdata r') (unat ?c mod cap_of r'))"
      by (rule read_slot_Done [OF ring_rel_layout [OF r'(2)]])
    moreover have "slot_read T (rdata r') (unat ?c mod cap_of r') = msgs S ! (cursors S ! unat rid)"
      using live_windowD [OF ring_relD(6) [OF r'(2)], of "cursors S ! unat rid"] True cur(2)
        slowest_le [OF assms(2)] by (simp add: nth_append)
    ultimately show ?thesis using r'(1) True by auto
  next
    case False
    then have "peek b T rid r = Done None"
      using cur(3) stream_okD(2) [OF ring_relD(5) [OF assms(1)] assms(2)]
      by (simp add: peek_def check_reader_Done [OF assms(1,2)] cur(1))
    with r'(1) False show ?thesis by auto
  qed
qed

theorem peek_stable_witness:
  "\<exists>answers r' p. run_ops (try_push Debug u64_pod) (\<lambda>_. ret None) [Push 1, Push 2] sample_full = (Done answers, r')
     \<and> peek Debug u64_pod 1 sample_full = Done (Some p) \<and> read_volatile u64_pod p r' = Done 7"
  using peek_stable [OF sample_full_rel, of 1 "[1, 2]" Debug "\<lambda>_. ret None"] by simp

section \<open>Reader checks\<close>

text \<open>
  A reader id beyond the participating readers is refused by every consumer operation with
  \<open>InvalidReaderId\<close> carrying the id and the largest valid one, and changes nothing.
\<close>

lemma invalid_reader_refused:
  assumes "ring_wf T r" and "unat (num_readers (rhdr r)) \<le> unat rid"
  shows "try_pop b T rid r = (Fail (InvalidReaderId rid (reader_count r - 1)), r)
    \<and> peek b T rid r = Fail (InvalidReaderId rid (reader_count r - 1))
    \<and> len b rid r = Fail (InvalidReaderId rid (reader_count r - 1))
    \<and> is_empty b rid r = Fail (InvalidReaderId rid (reader_count r - 1))
    \<and> claim b T adv rid r = (Fail (InvalidReaderId rid (reader_count r - 1)), r)"
  using check_reader_Fail [OF assms, of b]
  by (simp add: try_pop_def peek_def len_def is_empty_def claim_def act_simps reader_count_def)

text \<open>
  Poisoned cursors, as a rogue process can write them. When every participating cursor is ahead of the
  producer, a build with overflow checks panics on the next push. A release build refuses the push, as long as
  the distance does not come within a capacity of wrapping around; nothing is written.
\<close>

lemma poisoned_cursors:
  assumes "ring_wf T r" and "\<forall>c \<in> set (take (unat (reader_count r)) (read_indices (rhdr r))). write_idx (rhdr r) < c"
  shows "try_push Debug T v r = (Panic, r)
    \<and> ((\<forall>c \<in> set (take (unat (reader_count r)) (read_indices (rhdr r))).
           unat c + cap_of r \<le> unat (write_idx (rhdr r)) + 2 ^ 64) \<longrightarrow> try_push Release T v r = (Done False, r))"
proof -
  let ?rs = "take (unat (reader_count r)) (read_indices (rhdr r))" and ?w = "write_idx (rhdr r)"
  note wf = ring_wfD [OF assms(1)]
  have n: "unat (reader_count r) = unat (num_readers (rhdr r))" by (simp add: reader_count_def unat_reader_count)
  have ne: "?rs \<noteq> []" using wf(5,7) n by (auto simp: take_eq_Nil)
  define m where "m = Min (set ?rs)"
  have m: "m \<in> set ?rs" using ne by (simp add: m_def)
  have scan: "slowest_read_idx (reader_count_of (rhdr r)) (rhdr r) = Done m"
    using wf(6,7) n foldl_min_max_word [OF ne] by (simp add: slowest_read_idx_def m_def reader_count_def)
  have lt: "unat ?w < unat m" using assms(2) m by (simp add: word_less_nat_alt)
  have dbg: "try_push Debug T v r = (Panic, r)"
    using lt by (simp add: try_push_def act_simps scan sub_w_def)
  have "try_push Release T v r = (Done False, r)" if le: "unat m + cap_of r \<le> unat ?w + 2 ^ 64"
  proof -
    have "unat (?w - m) = unat ?w + 2 ^ 64 - unat m"
      using lt by (simp add: unat_sub_if_size word_size)
    then have "cap_of r \<le> unat (?w - m)" using le by simp
    then show ?thesis by (simp add: try_push_def act_simps scan sub_w_def word_le_nat_alt)
  qed
  with dbg m show ?thesis by blast
qed

end
