(* ===== verification/File_Props.thy ===== *)
theory File_Props
  imports Sample
begin

text \<open>
  The properties of the file format and of the constructors: the header's image, what validation
  accepts, what creating and opening establish, and the files on which the two builds differ.
\<close>

section \<open>Format\<close>

text \<open>
  The record model and the bytes of the file determine each other: a mapping read back from its
  own bytes is the same mapping, and every file of at least a header's length is the image of the mapping
  read from it, padding included.
\<close>

lemma mapping_bytes_roundtrip:
  assumes "header_wf (hdr m)" and "256 \<le> length bs"
  shows "mapping_of (bytes_of m) = m \<and> bytes_of (mapping_of bs) = bs"
  using mapping_of_bytes_of [OF assms(1)] bytes_of_mapping_of [OF assms(2)] by simp

lemma power_of_two_succ:
  assumes "m \<noteq> 0"
  shows "is_power_of_two (m + 1 :: u64) \<longleftrightarrow> (\<exists>k. 1 \<le> k \<and> k < 64 \<and> unat m + 1 = 2 ^ k)"
proof (cases "unat m + 1 < 2 ^ 64")
  case True
  then have "unat (m + 1) = unat m + 1" by (simp add: unat_add_one)
  moreover have "unat m \<noteq> 0" using assms by (simp add: unat_eq_zero)
  then have "1 \<le> k" if "unat m + 1 = 2 ^ k" for k using that by (cases k) auto
  ultimately show ?thesis by (auto simp: is_power_of_two_iff)
next
  case False
  then have "unat m + 1 = 2 ^ 64" using unat_less_2p64 [of m] by simp
  moreover from this have "unat (m + 1) = 0" by (simp add: unat_word_ariths)
  moreover have "(2 :: nat) ^ 64 \<noteq> 2 ^ k" if "k < 64" for k
    using that power_inject_exp [of "2 :: nat" 64 k] by auto
  ultimately show ?thesis by (auto simp: is_power_of_two_iff)
qed

text \<open>
  Validation accepts a header exactly when it carries the magic, the version and a mask
  \<open>2 ^ k - 1\<close> with \<open>k\<close> at least 1; otherwise it returns an error, except that a build
  with overflow checks panics on the mask \<open>u64::MAX\<close>.
\<close>

lemma validate_accepts:
  "(header_validate b h = Done () \<longleftrightarrow>
     magic h = MAGIC \<and> version h = VERSION
     \<and> list_ex (\<lambda>k. unat (capacity_mask h) + 1 = 2 ^ k) [1..<64])
   \<and> (header_validate b h = Panic \<longleftrightarrow>
     b = Debug \<and> magic h = MAGIC \<and> version h = VERSION \<and> capacity_mask h = - 1)
   \<and> header_validate b h \<noteq> Fault"
proof -
  have ex: "list_ex (\<lambda>k. unat (capacity_mask h) + 1 = 2 ^ k) [1..<64] \<longleftrightarrow>
      capacity_mask h \<noteq> 0 \<and> is_power_of_two (capacity_mask h + 1)"
    using power_of_two_succ [of "capacity_mask h"]
    by (cases "capacity_mask h = 0") (auto simp: list_ex_iff less_exp dest!: leD)
  have "unat (- 1 :: u64) = 2 ^ 64 - 1" by (simp add: unsigned_minus_1_eq_mask mask_eq_exp_minus_1)
  then have "2 ^ 64 \<le> unat (capacity_mask h) + unat (1 :: u64) \<longleftrightarrow> capacity_mask h = - 1"
    using unat_less_2p64 [of "capacity_mask h"] by (auto simp: word_unat_eq_iff)
  then have "header_validate b h = Panic \<longleftrightarrow>
      b = Debug \<and> magic h = MAGIC \<and> version h = VERSION \<and> capacity_mask h = - 1"
    by (auto simp: header_validate_def Let_def add_w_def bind_out_def)
  moreover have "header_validate b h \<noteq> Fault"
    by (auto simp: header_validate_def Let_def add_w_def bind_out_def)
  ultimately show ?thesis using validate_Done [of b h] ex by simp
qed

section \<open>Creation\<close>

text \<open>
  With valid arguments, on a path that does not exist, creation succeeds: the file holds the
  header and zeroed slots, the handle is fresh, and the ring holds the empty stream with every participating
  cursor at zero.
\<close>

lemma create_establishes:
  assumes "pod_type T" and "pod_align T \<le> 64" and "0 < pod_size T" and "is_power_of_two c"
    and "1 \<le> n" and "n \<le> MAX_READERS" and "256 + unat c * unat (pod_size T) < 2 ^ 64"
    and "fs p = None" and "os_grants os p"
  shows "\<exists>r. create_new_with_readers b T os p c n fs = (Done r, fs(p \<mapsto> bytes_of (mmap r)))
    \<and> ring_rel T r (stream_new (unat n)) \<and> no_loans r \<and> capacity r = c \<and> path r = p
    \<and> length (bytes_of (mmap r)) = 256 + unat c * unat (pod_size T)"
proof -
  obtain r where r: "create_new_with_readers b T os p c n fs = (Done r, fs(p \<mapsto> bytes_of (mmap r)))"
    "ring_rel T r (stream_new (unat n))" "no_loans r" "capacity r = c" "path r = p"
    "length (rdata r) = unat c * unat (pod_size T)"
    by (rule create_success [where fs = fs and p = p and os = os and b = b, OF assms])
  have "header_wf (rhdr r)" using ring_wfD(1) [OF ring_relD(1) [OF r(2)]] .
  then have "length (bytes_of (mmap r)) = 256 + unat c * unat (pod_size T)"
    using r(6) by (simp add: bytes_of_def length_header_bytes)
  with r show ?thesis by blast
qed

text \<open>
  Creation is exclusive: it never changes or replaces an existing file, and a capacity that is zero
  or no power of two is refused before anything is created.
\<close>

lemma create_is_exclusive:
  assumes "fs p \<noteq> None \<or> c = 0 \<or> \<not> is_power_of_two c"
  shows "snd (create_new_with_readers b T os p c n fs) = fs
    \<and> (\<forall>r. fst (create_new_with_readers b T os p c n fs) \<noteq> Done r)"
  using assms create_existing(1) [of fs p] create_existing(2) [of fs p _ b T os c n]
    create_bad_capacity [of c b T os p n fs]
  by (auto simp: prod_eq_iff)

text \<open>
  Creation is not rolled back: when the operating system refuses to size the file, the empty file
  stays behind, and from then on the path can neither be created (it exists) nor opened (it is too short).
\<close>

lemma create_failure_leaves_file:
  assumes "pod_align T \<le> 64" and "0 < pod_size T" and "is_power_of_two c" and "1 \<le> n" and "n \<le> MAX_READERS"
    and "256 + unat c * unat (pod_size T) < 2 ^ 64" and "fs p = None" and "os_open os p = None"
    and "\<forall>l. os_set_len os l = Some k" and "os_grants os' p"
  shows "\<exists>fs'. create_new_with_readers b T os p c n fs = (Fail (Io k), fs') \<and> fs' p = Some []
    \<and> create_new_with_readers b T os' p c n fs' = (Fail AlreadyExists, fs')
    \<and> open_existing b T os' p fs' = Fail (FileTooShort HEADER_SIZE 0)"
proof -
  obtain l where l: "layout_len b T c = Done l" by (rule layout_len_Done [OF assms(6)])
  obtain h where h: "header_new (c - 1) n = Done h" by (rule header_new_Done [OF assms(4,5)])
  have "create_new_with_readers b T os p c n fs = (Fail (Io k), fs(p \<mapsto> []))"
    using create_checks [where fs = fs and p = p, OF assms(1-5,7,8) l h] assms(9) by simp
  moreover have "create_new_with_readers b T os' p c n (fs(p \<mapsto> [])) = (Fail AlreadyExists, fs(p \<mapsto> []))"
    using assms(1-5) is_power_of_two_nonzero [OF assms(3)]
    by (simp add: create_new_with_readers_def act_simps)
  moreover have "open_existing b T os' p (fs(p \<mapsto> [])) = Fail (FileTooShort HEADER_SIZE 0)"
    using open_exec [of T "fs(p \<mapsto> [])" p "[]" os' b] assms(1,2) os_grantsD [OF assms(10)] by simp
  ultimately show ?thesis by auto
qed

section \<open>Opening\<close>

text \<open>
  A ring that was just created opens, in any build, as the very same ring; only a ring of capacity
  1, which creation accepts, is refused as corrupt.
\<close>

lemma create_then_open:
  assumes "pod_type T" and "pod_align T \<le> 64" and "0 < pod_size T" and "is_power_of_two c"
    and "1 \<le> n" and "n \<le> MAX_READERS" and "256 + unat c * unat (pod_size T) < 2 ^ 64"
    and "fs p = None" and "os_grants os p" and "create_new_with_readers b T os p c n fs = (Done r, fs')"
  shows "open_existing b' T os p fs' = (if c = 1 then Fail (HeaderCorruption ''capacity_mask'' 0 0) else Done r)"
  by (rule create_open [OF assms])

lemma power_of_two_1: "is_power_of_two (1 :: u64)"
  by (auto simp: is_power_of_two_iff intro!: exI [of _ 0])

lemma sample_args:
  "pod_align u64_pod \<le> 64" "0 < pod_size u64_pod" "(1 :: usize) \<le> 2" "(2 :: usize) \<le> MAX_READERS"
  "(Map.empty :: fs) ''ring'' = None" "os_grants quiet_os ''ring''"
  by (simp_all add: MAX_READERS_def)

lemma sample_create:
  assumes "is_power_of_two c" and "unat c \<le> 2"
  obtains r fs' where "create_new_with_readers Debug u64_pod quiet_os ''ring'' c 2 Map.empty = (Done r, fs')"
proof -
  have "256 + unat c * unat (pod_size u64_pod) < 2 ^ 64" using assms(2) by simp
  note created = create_success [where b = Debug,
      OF u64_pod.pod_type_axioms sample_args(1,2) assms(1) sample_args(3,4) this sample_args(5,6)]
  show ?thesis by (rule created) (rule that)
qed

lemma layout_len_DoneD:
  assumes "layout_len b T c = Done e" and "b = Debug \<or> 256 + unat c * unat (pod_size T) < 2 ^ 64"
  shows "unat e = 256 + unat c * unat (pod_size T)" and "256 + unat c * unat (pod_size T) < 2 ^ 64"
proof -
  show small: "256 + unat c * unat (pod_size T) < 2 ^ 64"
  proof (cases "b = Debug")
    case True
    then have mul: "unat c * unat (pod_size T) < 2 ^ 64" and
      add: "unat HEADER_SIZE + unat (c * pod_size T) < 2 ^ 64"
      using assms(1) by (auto simp: layout_len_def mul_w_def add_w_def not_le split: if_splits)
    from mul have "unat (c * pod_size T) = unat c * unat (pod_size T)" by (simp add: unat_word_ariths)
    with add show ?thesis by (simp add: HEADER_SIZE_def)
  qed (use assms(2) in simp)
  obtain l where "layout_len b T c = Done l" "unat l = 256 + unat c * unat (pod_size T)"
    by (rule layout_len_Done [OF small])
  with assms(1) show "unat e = 256 + unat c * unat (pod_size T)" by simp
qed

text \<open>
  C16. Opening is sound against hostile files: when it succeeds, in a build with overflow checks or
  on a layout that fits the address space, the handle shows the file, its capacity is a power of two, and
  every stream index has a slot inside the mapping, whatever the counters of the header say.
\<close>

theorem open_sound:
  assumes "open_existing b T os p fs = Done r" and "maps_file os" and "pod_type T"
    and "fs p = Some content" and "length content < 2 ^ 64"
    and "b = Debug \<or> 256 + cap_of r * unat (pod_size T) < 2 ^ 64"
  shows "bytes_of (mmap r) = content \<and> header_wf (rhdr r) \<and> layout_ok T r \<and> 2 \<le> cap_of r
    \<and> (\<exists>q. slot_ptr b' T idx r = Done q \<and> in_slot_area T q r)"
proof -
  obtain expected where r: "mmap r = mapping_of content" "header_validate b (rhdr r) = Done ()"
    "capacity r = capacity_mask (rhdr r) + 1" "layout_len b T (capacity r) = Done expected"
    "expected \<le> of_nat (length content)" "256 \<le> length content"
    by (rule open_Done [OF assms(1,2)]) (use assms(4,5) in auto)
  note fits = layout_len_DoneD [OF r(4) assms(6)]
  have "unat expected \<le> length content"
    using r(5) assms(5) by (simp add: word_le_nat_alt unat_of_nat)
  then have "cap_of r * unat (pod_size T) \<le> length (rdata r)"
    using fits(1) r(1) by (simp add: mapping_of_def)
  moreover have pow: "is_power_of_two (capacity r)" and "capacity_mask (rhdr r) \<noteq> 0"
    using r(2,3) validate_Done [of b "rhdr r"] by simp_all
  ultimately have lay: "layout_ok T r"
    using fits(2) assms(3) by (simp add: layout_ok_def slots_ok_def)
  have "capacity r \<noteq> 0" "capacity r \<noteq> 1"
    using is_power_of_two_nonzero [OF pow] \<open>capacity_mask (rhdr r) \<noteq> 0\<close> r(3) by simp_all
  then have "cap_of r \<noteq> 0" "cap_of r \<noteq> 1" by (simp_all add: word_unat_eq_iff)
  then have "2 \<le> cap_of r" by linarith
  moreover obtain q where "slot_ptr b' T idx r = Done q"
    "unat q = 256 + (unat idx mod cap_of r) * unat (pod_size T)"
    by (rule slot_ptr_Done [OF lay])
  moreover from this have "in_slot_area T q r" by (intro slot_in_area [OF lay])
  ultimately show ?thesis
    using lay r(1,6) bytes_of_mapping_of [of content] by (simp add: mapping_of_def)
qed

theorem open_sound_witness:
  "\<exists>r q. open_existing Release u64_pod quiet_os ''ring'' [''ring'' \<mapsto> bytes_of (mmap sample_ring)] = Done r
     \<and> layout_ok u64_pod r \<and> slot_ptr Debug u64_pod 12345 r = Done q \<and> in_slot_area u64_pod q r"
proof -
  let ?bs = "bytes_of (mmap sample_ring)" and ?fs = "[''ring'' \<mapsto> bytes_of (mmap sample_ring)] :: fs"
  have len: "length ?bs = 272" by (simp add: bytes_of_def length_header_bytes)
  have hdr: "header_of_bytes ?bs = sample_header"
    by (simp add: bytes_of_def header_of_bytes_header_bytes)
       (simp add: sample_ring_def new_handle_def)
  have "header_validate Release sample_header = Done ()"
    using power_of_two_2 by (simp add: validate_Done sample_header_def)
  then have *: "open_existing Release u64_pod quiet_os ''ring'' ?fs = Done (new_handle (mapping_of ?bs) 2 ''ring'')"
    using open_exec [of u64_pod ?fs "''ring''" ?bs quiet_os Release] len
    by (simp add: hdr os_grantsD [OF quiet_os_grants(1)])
       (simp add: sample_header_def add_w_def layout_len_def mul_w_def HEADER_SIZE_def)
  from open_sound [OF * quiet_os_grants(2) u64_pod.pod_type_axioms, where idx = 12345 and b' = Debug] *
  show ?thesis by (auto simp: len new_handle_def)
qed

text \<open>
  Every proper truncation of a created ring file is refused as too short, with the length the
  header asks for (or the header's own length, when not even that is there).
\<close>

lemma open_refuses_truncation:
  assumes "pod_type T" and "pod_align T \<le> 64" and "0 < pod_size T" and "is_power_of_two c" and "c \<noteq> 1"
    and "1 \<le> n" and "n \<le> MAX_READERS" and "256 + unat c * unat (pod_size T) < 2 ^ 64"
    and "fs p = None" and "os_grants os p" and "create_new_with_readers b T os p c n fs = (Done r, fs')"
    and "k < 256 + unat c * unat (pod_size T)"
  shows "open_existing b' T os p (fs'(p \<mapsto> take k (bytes_of (mmap r)))) =
    Fail (FileTooShort (if k < 256 then HEADER_SIZE else HEADER_SIZE + c * pod_size T) (of_nat k))"
proof -
  obtain r0 where r0: "create_new_with_readers b T os p c n fs = (Done r0, fs(p \<mapsto> bytes_of (mmap r0)))"
    "ring_rel T r0 (stream_new (unat n))" "capacity_mask (rhdr r0) = c - 1" "magic (rhdr r0) = MAGIC"
    "version (rhdr r0) = VERSION" "length (rdata r0) = unat c * unat (pod_size T)"
    by (rule create_success [where fs = fs and p = p and os = os, OF assms(1-4,6-10)])
  then have r: "r = r0" using assms(11) by simp
  let ?bs = "take k (bytes_of (mmap r))"
  have wf: "header_wf (rhdr r)" using ring_wfD(1) [OF ring_relD(1) [OF r0(2)]] r by simp
  have "length (bytes_of (mmap r)) = 256 + unat c * unat (pod_size T)"
    using r0(6) r length_header_bytes [OF wf] by (simp add: bytes_of_def)
  then have len: "length ?bs = k" using assms(12) by simp
  have hdr: "header_of_bytes ?bs = rhdr r" if "256 \<le> k"
    using that header_of_bytes_header_bytes [OF wf] by (simp add: bytes_of_def length_header_bytes [OF wf])
  obtain l where l: "layout_len b' T c = Done l" "unat l = 256 + unat c * unat (pod_size T)"
    by (rule layout_len_Done [OF assms(8)])
  have "unat (HEADER_SIZE + c * pod_size T) = 256 + unat c * unat (pod_size T)"
    using assms(8) by (simp add: HEADER_SIZE_def unat_word_ariths)
  then have le: "l = HEADER_SIZE + c * pod_size T" using l(2) by (simp add: word_unat_eq_iff)
  have "header_validate b' (rhdr r) = Done ()"
    using assms(4,5) r0(3-5) r by (simp add: validate_Done)
  moreover have "add_w b' (c - 1) 1 = (Done c :: (ShmRingError, u64) outcome)"
    using is_power_of_two_nonzero [OF assms(4)] unat_less_2p64 [of c]
    by (subst add_w_Done) (simp_all add: unat_minus_one)
  moreover have "capacity_mask (rhdr r) = c - 1" using r0(3) r by simp
  moreover have "length ?bs < 2 ^ 64" using assms(8,12) len by simp
  note open_exec [where fs = "fs'(p \<mapsto> ?bs)" and p = p and os = os and b = b',
      OF assms(2,3) _ os_grantsD(1,2,6) [OF assms(10)] this]
  then have "open_existing b' T os p (fs'(p \<mapsto> ?bs)) =
    (if k < 256 then Fail (FileTooShort HEADER_SIZE (of_nat k))
     else bind_out (header_validate b' (header_of_bytes ?bs)) (\<lambda>_.
       bind_out (add_w b' (capacity_mask (header_of_bytes ?bs)) 1) (\<lambda>c.
       bind_out (layout_len b' T c) (\<lambda>expected.
       if k < unat expected then Fail (FileTooShort expected (of_nat k))
       else Done (new_handle (mapping_of ?bs) c p)))))"
    by (simp only: len Let_def fun_upd_same simp_thms)
  ultimately show ?thesis using l assms(12) by (simp add: hdr le del: length_take)
qed

section \<open>Files the checks let through\<close>

text \<open>A file of a bare header that asks for \<open>2 ^ 61\<close> slots of 8 bytes.\<close>

definition overflow_file :: "u8 list" where
  "overflow_file = header_bytes (sample_header\<lparr>capacity_mask := 2 ^ 61 - 1\<rparr>)"


lemma open_header_file:
  assumes "header_wf h" and "header_validate b h = Done ()" and "length d < 2 ^ 32"
    and "add_w b (capacity_mask h) 1 = (Done c :: (ShmRingError, u64) outcome)"
    and "layout_len b u64_pod c = Done e" and "unat e \<le> 256 + length d"
  shows "open_existing b u64_pod quiet_os p [p \<mapsto> bytes_of \<lparr>hdr = h, data = d\<rparr>] =
    Done (new_handle \<lparr>hdr = h, data = d\<rparr> c p)"
proof -
  let ?bs = "bytes_of \<lparr>hdr = h, data = d\<rparr>"
  have len: "length ?bs = 256 + length d" using assms(1) by (simp add: bytes_of_def length_header_bytes)
  moreover have "mapping_of ?bs = \<lparr>hdr = h, data = d\<rparr>" using assms(1) by (simp add: mapping_of_bytes_of)
  moreover from this have "header_of_bytes ?bs = h" by (metis mapping.select_convs(1) mapping_of_def)
  ultimately show ?thesis
    using open_exec [of u64_pod "[p \<mapsto> ?bs]" p ?bs quiet_os b] os_grantsD [OF quiet_os_grants(1)] assms(2-6)
    by simp
qed

text \<open>
  C37. In a release build the layout computation wraps: the 256-byte file that asks for
  \<open>2 ^ 61\<close> slots of eight bytes opens, and its first push writes outside the mapping. A build with
  overflow checks panics while opening it.
\<close>

theorem open_release_overflow:
  "length overflow_file = 256
   \<and> open_existing Debug u64_pod quiet_os p [p \<mapsto> overflow_file] = Panic
   \<and> (\<exists>r. open_existing Release u64_pod quiet_os p [p \<mapsto> overflow_file] = Done r
        \<and> try_push Release u64_pod v r = (Fault, r))"
proof -
  let ?h = "sample_header\<lparr>capacity_mask := 2 ^ 61 - 1\<rparr>"
  let ?r = "new_handle \<lparr>hdr = ?h, data = []\<rparr> (2 ^ 61) p"
  have wf: "header_wf ?h" by (simp add: sample_header_def header_wf_def)
  have len: "length overflow_file = 256"
    unfolding overflow_file_def by (rule length_header_bytes [OF wf])
  have bs: "overflow_file = bytes_of \<lparr>hdr = ?h, data = []\<rparr>" by (simp add: overflow_file_def bytes_of_def)
  have pow: "is_power_of_two (2 ^ 61 :: u64)"
    by (auto simp: is_power_of_two_iff intro!: exI [of _ 61])
  have val: "header_validate b ?h = Done ()" for b
    using pow by (simp add: validate_Done sample_header_def)
  have add: "add_w b (capacity_mask ?h) 1 = (Done (2 ^ 61) :: (ShmRingError, u64) outcome)" for b
    by (simp add: add_w_def)
  have two: "replicate 2 (0 :: u64) = [0, 0]" by (simp add: numeral_2_eq_2)
  have dbg: "layout_len Debug u64_pod (2 ^ 61) = Panic" by (simp add: layout_len_def mul_w_def)
  have rel: "layout_len Release u64_pod (2 ^ 61) = Done 256"
    by (simp add: layout_len_def mul_w_def add_w_def HEADER_SIZE_def)
  have hdr: "header_of_bytes overflow_file = ?h"
    using header_of_bytes_header_bytes [OF wf, of "[]"] by (simp add: overflow_file_def)
  have "open_existing Release u64_pod quiet_os p [p \<mapsto> overflow_file] = Done ?r"
    unfolding bs by (rule open_header_file [OF wf val _ add rel]) simp_all
  moreover have "try_push Release u64_pod v ?r = (Fault, ?r)"
    by (simp add: try_push_def act_simps new_handle_def sample_header_def reader_count_of_def
        slowest_read_idx_def sub_w_def slot_ptr_def mul_w_def add_w_def DATA_OFFSET_def HEADER_SIZE_def
        bind_act_def write_volatile_def in_slot_area_def two)
  moreover have "open_existing Debug u64_pod quiet_os p [p \<mapsto> overflow_file] = Panic"
    using open_exec [of u64_pod "[p \<mapsto> overflow_file]" p overflow_file quiet_os Debug]
      os_grantsD [OF quiet_os_grants(1)] len val [of Debug] add [of Debug] dbg
    by (simp add: hdr Let_def)
  ultimately show ?thesis using len by blast
qed


end
