(* ===== verification/Loan_Props.thy ===== *)
theory Loan_Props
  imports Sample
begin

text \<open>
  The properties of zero-copy loans: what claim, commit, drop and abort do, that claim and commit is a
  pop without the copy, that live loans stay pinned through every disciplined execution, and three
  executions in which the guarantee is lost.
\<close>

section \<open>Claim\<close>

text \<open>
  C20. A claim takes the position \<open>max claim_base cursor\<close>. It answers \<open>None\<close> and
  changes nothing when no message is published there; otherwise it hands out a loan on that message,
  through a pointer that reads it, and touches no byte of the file. Spurious failures of the
  compare-exchange do not matter, however many there are.
\<close>

theorem claim_correct:
  assumes "loan_inv T r ls S" and "unat rid < length (cursors S)" and "\<forall>a \<in> set adv. snd a = id"
  shows "if length (msgs S) \<le> max (unat (claim_base r ! unat rid)) (cursors S ! unat rid)
    then claim b T adv rid r = (Done None, r)
    else \<exists>l r'. claim b T adv rid r = (Done (Some l), r') \<and> mmap r' = mmap r
      \<and> unat (ln_index l) = max (unat (claim_base r ! unat rid)) (cursors S ! unat rid) \<and> ln_reader l = rid
      \<and> loan_inv T r' (ls @ [l]) S \<and> loan_deref T l r' = Done (msgs S ! unat (ln_index l))"
proof -
  note rel = loan_invD(1) [OF assms(1)]
  have idx: "unat (claim_idx rid r) = max (unat (claim_base r ! unat rid)) (cursors S ! unat rid)"
    using cursor_word(2) [OF rel assms(2)] by (simp add: claim_idx_def unat_max)
  obtain p where p: "slot_ptr b T (claim_idx rid r) r = Done p"
    using slot_ptr_Done [OF ring_rel_layout [OF rel]] by blast
  note ex = claim_exec [OF rel assms(2) p assms(3)]
  have w: "write_idx (rhdr r) \<le> claim_idx rid r \<longleftrightarrow>
      length (msgs S) \<le> max (unat (claim_base r ! unat rid)) (cursors S ! unat rid)"
    using ring_relD(2) [OF rel] idx by (simp add: word_le_nat_alt)
  show ?thesis
  proof (rule loan_inv_claim [OF assms, of b])
    assume "claim b T adv rid r = (Done None, r)" and "length (msgs S) \<le> unat (claim_idx rid r)"
    then show ?thesis using idx by simp
  next
    fix l r'
    assume l: "claim b T adv rid r = (Done (Some l), r')" "loan_inv T r' (ls @ [l]) S"
      "ln_index l = claim_idx rid r" "ln_reader l = rid"
    then have "\<not> write_idx (rhdr r) \<le> claim_idx rid r" and "mmap r' = mmap r"
      using ex by (auto split: if_splits)
    then show ?thesis using l idx w loan_deref_pinned [OF l(2), of l] by auto
  qed
qed

theorem claim_correct_witness:
  "\<exists>l r'. claim Debug u64_pod [(True, id), (True, id)] 0 sample_loaned = (Done (Some l), r')
     \<and> unat (ln_index l) = 1 \<and> loan_inv u64_pod r' [sample_loan, l] full_stream"
  using claim_correct [OF sample_loaned_inv, of 0 "[(True, id), (True, id)]" Debug] by auto

text \<open>
  The loan gate: popping is refused with \<open>LoanOutstanding\<close>, and without any change,
  exactly while the reader has a loan open.
\<close>

lemma loan_gates_pop:
  assumes "loan_inv T r ls S" and "unat rid < length (cursors S)"
  shows "try_pop b T rid r = (Fail (LoanOutstanding rid), r) \<longleftrightarrow> (\<exists>l \<in> set ls. ln_reader l = rid)"
proof -
  have "loan_depth r ! unat rid = 0 \<longleftrightarrow> \<not> (\<exists>l \<in> set ls. ln_reader l = rid)"
    using loan_gate [OF assms] by (auto simp: word_unat_eq_iff)
  moreover have "fst (try_pop b T rid r) \<noteq> Fail (LoanOutstanding rid)" if "loan_depth r ! unat rid = 0"
    using try_pop_exec [OF loan_invD(1) [OF assms(1)] assms(2) that, of b] by simp
  ultimately show ?thesis using try_pop_gated [OF assms, of b] by (metis fst_conv)
qed

section \<open>Commit, drop, abort\<close>

text \<open>
  C21. Commits are FIFO. The loan at the cursor commits: the cursor moves past it, and the other loans
  stay as they are. Any other loan is refused with \<open>LoanNotAtCursor\<close> and stays open; nothing
  changes.
\<close>

theorem commit_fifo:
  assumes "loan_inv T r ls S" and "k < length ls"
  shows "if cursors S ! unat (ln_reader (ls ! k)) = unat (ln_index (ls ! k))
    then \<exists>r'. loan_commit b (ls ! k) r = (Done ((ls ! k)\<lparr>ln_resolved := True\<rparr>), r')
      \<and> loan_inv T r' (remove_nth k ls)
          (S\<lparr>cursors := (cursors S)[unat (ln_reader (ls ! k)) := Suc (unat (ln_index (ls ! k)))]\<rparr>)
    else \<exists>c. loan_commit b (ls ! k) r = (Fail (LoanNotAtCursor (ln_index (ls ! k)) c), r)
      \<and> unat c = cursors S ! unat (ln_reader (ls ! k))"
  using commit_exec [OF loan_invD(1) [OF assms(1)] loan_facts [OF assms], of b]
    loan_inv_advance [OF assms] cursor_word(2) [OF loan_invD(1) [OF assms(1)] loan_facts(1) [OF assms]]
  by simp

theorem commit_fifo_witness:
  "\<exists>r'. loan_commit Debug sample_loan sample_loaned = (Done (sample_loan\<lparr>ln_resolved := True\<rparr>), r')
     \<and> loan_inv u64_pod r' [] \<lparr>msgs = [7, 9], cursors = [1, 0]\<rparr>"
  using commit_fifo [OF sample_loaned_inv, of 0 Debug] by (simp add: remove_nth_def full_stream_def)

text \<open>
  Dropping a loan never fails. At the cursor it commits; elsewhere it closes the loan and leaves
  the stream and every cursor as they were.
\<close>

lemma drop_commits_at_cursor:
  assumes "loan_inv T r ls S" and "k < length ls"
  shows "\<exists>r'. loan_drop b (ls ! k) r = (Done (), r')
    \<and> loan_inv T r' (remove_nth k ls)
        (if cursors S ! unat (ln_reader (ls ! k)) = unat (ln_index (ls ! k))
         then S\<lparr>cursors := (cursors S)[unat (ln_reader (ls ! k)) := Suc (unat (ln_index (ls ! k)))]\<rparr> else S)"
  using drop_exec [OF loan_invD(1) [OF assms(1)] loan_facts [OF assms], of b]
    loan_inv_advance [OF assms] loan_inv_release [OF assms]
  by simp

text \<open>
  Aborting a reader's newest loan consumes nothing: no byte of the file changes, the other loans
  stay pinned, and the reader's next claim hands out the very same message again.
\<close>

lemma abort_newest_reclaims:
  assumes "loan_inv T r ls S" and "k < length ls" and "newest k ls" and "\<forall>a \<in> set adv. snd a = id"
  shows "\<exists>r' l r''. loan_abort b (ls ! k) r = (Done (), r') \<and> mmap r' = mmap r
    \<and> loan_inv T r' (remove_nth k ls) S
    \<and> claim b T adv (ln_reader (ls ! k)) r' = (Done (Some l), r'') \<and> ln_index l = ln_index (ls ! k)
    \<and> loan_inv T r'' (remove_nth k ls @ [l]) S"
proof -
  let ?l = "ls ! k"
  let ?r' = "r\<lparr>claim_base := (claim_base r)[unat (ln_reader ?l) :=
          min (claim_base r ! unat (ln_reader ?l)) (ln_index ?l)],
        loan_depth := (loan_depth r)[unat (ln_reader ?l) := loan_depth r ! unat (ln_reader ?l) - 1]\<rparr>"
  note rel = loan_invD(1) [OF assms(1)] and i = loan_facts(1) [OF assms(1,2)]
  have ok: "loan_ok T r S ?l" using loan_invD(2) [OF assms(1)] assms(2) by simp
  have ab: "loan_abort b ?l r = (Done (), ?r')"
    using abort_exec [OF rel i loan_facts(2) [OF assms(1,2)], of b] .
  have inv': "loan_inv T ?r' (remove_nth k ls) S" by (rule loan_inv_abort [OF assms(1-3)])
  have "read_indices (rhdr r) ! unat (ln_reader ?l) \<le> ln_index ?l"
    using ok cursor_word(2) [OF rel i] by (simp add: loan_ok_def word_le_nat_alt)
  then have idx: "claim_idx (ln_reader ?l) ?r' = ln_index ?l"
    using ok reader_arrays(1) [OF rel i] by (simp add: claim_idx_def loan_ok_def)
  show ?thesis
  proof (rule loan_inv_claim [OF inv' i assms(4), of b])
    assume "length (msgs S) \<le> unat (claim_idx (ln_reader ?l) ?r')"
    then show ?thesis using ok by (simp add: idx) (simp add: loan_ok_def)
  next
    fix l r''
    assume "claim b T adv (ln_reader ?l) ?r' = (Done (Some l), r'')" "loan_inv T r'' (remove_nth k ls @ [l]) S"
      "ln_index l = claim_idx (ln_reader ?l) ?r'"
    then show ?thesis using ab inv' idx by auto
  qed
qed

text \<open>
  Resolution is idempotent: after a commit that succeeded, committing again, dropping and aborting
  change nothing.
\<close>

lemma commit_idempotent:
  assumes "loan_commit b l r = (Done l', r')"
  shows "loan_commit b' l' s = (Done l', s) \<and> loan_drop b' l' s = (Done (), s) \<and> loan_abort b' l' s = (Done (), s)"
proof -
  have "ln_resolved l'"
    using assms
    by (auto simp: loan_commit_def loan_resolve_def bind_act_def act_simps split: if_splits prod.splits outcome.splits)
  then show ?thesis by (simp add: resolved_inert)
qed



section \<open>Executions\<close>

text \<open>
  C10. Pinning. In an execution of pushes, pops, claims, commits, drops and aborts, in any order and by
  any readers, in which a reader only ever aborts its newest loan, no call panics or faults, and every loan
  that is still open at the end reads what it read at the beginning.
\<close>

theorem live_loans_pinned:
  assumes "loan_inv T r ls S" and "length (msgs S) + event_pushes es \<le> 2 ^ 64 - 1"
    and "disciplined b T es (r, ls)"
  shows "\<exists>r' ls'. loan_run b T es (r, ls) = Some (r', ls')
    \<and> (\<forall>l \<in> set ls \<inter> set ls'. \<exists>v. loan_deref T l r = Done v \<and> loan_deref T l r' = Done v)"
proof -
  obtain r' ls' S' where run: "loan_run b T es (r, ls) = Some (r', ls')" "loan_inv T r' ls' S'"
    and grow: "take (length (msgs S)) (msgs S') = msgs S"
    using loan_run_inv [OF assms] by blast
  have "msgs S' ! unat (ln_index l) = msgs S ! unat (ln_index l)" if "l \<in> set ls" for l
    using loan_invD(2) [OF assms(1) that] by (metis grow loan_ok_def nth_take)
  with run loan_deref_pinned [OF assms(1)] loan_deref_pinned [OF run(2)] show ?thesis by auto
qed

theorem live_loans_pinned_witness:
  "\<exists>r' ls'. loan_run Debug u64_pod [LPop 1, LPop 1, LClaim 0, LPush 1, LAbort 1, LPush 2] (sample_loaned, [sample_loan])
      = Some (r', ls')
    \<and> (\<forall>l \<in> set [sample_loan] \<inter> set ls'. \<exists>v. loan_deref u64_pod l sample_loaned = Done v \<and> loan_deref u64_pod l r' = Done v)"
proof -
  have "disciplined Debug u64_pod [LPop 1, LPop 1, LClaim 0, LPush 1, LAbort 1, LPush 2] (sample_loaned, [sample_loan])"
    by code_simp
  from live_loans_pinned [OF sample_loaned_inv _ this] show ?thesis
    by (simp add: event_pushes_def)
qed

text \<open>
  The raw bytes of an open loan are the slot's, they have the size of the message type, and
  they decode to the message the loan dereferences to.
\<close>

lemma loan_bytes_decode:
  assumes "loan_inv T r ls S" and "l \<in> set ls"
  shows "\<exists>bs. loan_as_bytes T l r = Done bs \<and> length bs = unat (pod_size T)
    \<and> loan_deref T l r = Done (pod_dec T bs) \<and> pod_dec T bs = msgs S ! unat (ln_index l)"
proof -
  note deref = loan_deref_pinned [OF assms]
  then have area: "in_slot_area T (ln_ptr l) r" by (simp add: loan_deref_def read_volatile_def split: if_splits)
  with deref show ?thesis
    by (auto simp: loan_as_bytes_def loan_deref_def read_volatile_def in_slot_area_def)
qed

section \<open>Where the pin is lost\<close>




text \<open>
  A committed loan can still be dereferenced: \<open>commit\<close> borrows the loan, and once its
  cursor has moved the producer may overwrite the slot. Here the loan reads 7 before and, after the
  commit, the other reader's pop and one push, 20.
\<close>

lemma committed_loan_stale:
  "(case bind_act (loan_commit b sample_loan) (\<lambda>l.
        bind_act (try_pop b u64_pod 1) (\<lambda>_. bind_act (try_push b u64_pod 20) (\<lambda>ok. ret (ok, l)))) sample_loaned of
      (Done (ok, l), r) \<Rightarrow> ok \<and> loan_deref u64_pod l r = Done 20
    | _ \<Rightarrow> False)
   \<and> loan_deref u64_pod sample_loan sample_loaned = Done 7"
  by (induction b) code_simp+

text \<open>
  Two loans dropped newest first, as Rust drops two local variables, strand the newer message: the
  cursor stops in front of it, claims find nothing although the reader still has a message, and when a further
  message arrives the loan on it can never be committed. Only a pop recovers.
\<close>

lemma drop_order_strands:
  "(case loan_run b u64_pod [LClaim 0, LClaim 0, LDrop 1, LDrop 0] (sample_full, []) of None \<Rightarrow> False
    | Some (r, ls) \<Rightarrow> ls = [] \<and> len b 0 r = Done 1 \<and> fst (claim b u64_pod [] 0 r) = Done None
        \<and> fst (try_pop b u64_pod 0 r) = Done (Some 9))
   \<and> (case loan_run b u64_pod [LClaim 0, LClaim 0, LDrop 1, LDrop 0, LPop 1, LPush 20, LClaim 0] (sample_full, []) of
        None \<Rightarrow> False
    | Some (r, ls) \<Rightarrow> map ln_index ls = [2] \<and> fst (loan_commit b (ls ! 0) r) = Fail (LoanNotAtCursor 2 1))"
  by (induction b) code_simp+

end
