(* ===== verification/Status.thy ===== *)
theory Status
  imports Slot_Array File_Sys
begin

text \<open>
  Status files (\<open>src/status.rs\<close>): one plain-old-data struct in a file, with
  \<open>create\<close>, \<open>read\<close>, \<open>update\<close> and \<open>cleanup\<close>. The trait
  \<open>PodStatus\<close> is a record of its items, its layout convention (magic first, version second) is
  the locale \<open>pod_status\<close>, interpreted on the \<open>MountStatus\<close> of the module
  documentation. The lemmas give the exact outcome of every operation on every file.
\<close>

section \<open>The trait\<close>

record 'a status_type = "'a pod" +
  st_MAGIC :: u64
  st_VERSION :: u32
  st_magic :: "'a \<Rightarrow> u64"
  st_version :: "'a \<Rightarrow> u32"
  st_set_magic :: "'a \<Rightarrow> 'a"

definition magic_matches :: "'a status_type \<Rightarrow> 'a \<Rightarrow> bool" where
  "magic_matches T v \<longleftrightarrow> st_magic T v = st_MAGIC T"

definition version_matches :: "'a status_type \<Rightarrow> 'a \<Rightarrow> bool" where
  "version_matches T v \<longleftrightarrow> st_version T v = st_VERSION T"

text \<open>
  What an implementor promises: the type is plain old data, the two accessors read the first two
  fields of a \<open>repr(C)\<close> layout, and \<open>set_magic\<close> stamps the first of them.
\<close>

locale pod_status =
  fixes T :: "'a status_type"
  assumes pod: "pod_type (pod.truncate T)"
    and head_size: "12 \<le> unat (pod_size T)"
    and magic_at_0: "st_magic T v = of_le (load 0 8 (pod_enc T v))"
    and version_at_8: "st_version T v = of_le (load 8 4 (pod_enc T v))"
    and enc_dec_head: "length bs = unat (pod_size T) \<Longrightarrow>
      st_magic T (pod_dec T bs) = of_le (load 0 8 bs) \<and> st_version T (pod_dec T bs) = of_le (load 8 4 bs)"
    and set_magic: "st_magic T (st_set_magic T v) = st_MAGIC T"
      "st_version T (st_set_magic T v) = st_version T v"

sublocale pod_status \<subseteq> pod_type "pod.truncate T"
  by (rule pod)

context pod_status begin

lemma image_length [simp]: "length (pod_enc T v) = unat (pod_size T)"
  using enc_length [of v] by (simp add: pod.truncate_def)

lemma image_decodes [simp]: "pod_dec T (pod_enc T v) = v"
  using dec_enc [of v] by (simp add: pod.truncate_def)

end

text \<open>The struct of the module documentation.\<close>

record MountStatus =
  ms_magic :: u64
  ms_version :: u32
  ms_is_mounted :: u32

definition mount_status :: "MountStatus status_type" where
  "mount_status =
     \<lparr> pod_size = 16, pod_align = 8,
       pod_enc = (\<lambda>v. le_bytes 8 (ms_magic v) @ le_bytes 4 (ms_version v) @ le_bytes 4 (ms_is_mounted v)),
       pod_dec = (\<lambda>bs. \<lparr> ms_magic = of_le (load 0 8 bs), ms_version = of_le (load 8 4 bs),
                          ms_is_mounted = of_le (load 12 4 bs) \<rparr>),
       st_MAGIC = 0x4D535455, st_VERSION = 1, st_magic = ms_magic, st_version = ms_version,
       st_set_magic = (\<lambda>v. v\<lparr>ms_magic := 0x4D535455\<rparr>) \<rparr>"

interpretation mount_status: pod_status mount_status
  by unfold_locales
     (auto simp: mount_status_def pod.truncate_def load_def is_power_of_two_iff intro!: exI [of _ 3])

section \<open>Operations\<close>

text \<open>\<open>slice::copy_from_slice\<close> panics when the lengths differ.\<close>

definition copy_from_slice :: "u8 list \<Rightarrow> u8 list \<Rightarrow> ('e, u8 list) outcome" where
  "copy_from_slice src dst = (if length src = length dst then Done src else Panic)"

definition status_create ::
  "os_env \<Rightarrow> 'a status_type \<Rightarrow> string \<Rightarrow> 'a \<Rightarrow> (fs, ShmRingError, unit) act" where
  "status_create os T p initial =
     bind_act (lift_out (io_result (os_open os p) ())) (\<lambda>_.
     bind_act (modify (\<lambda>fs. fs(p \<mapsto> []))) (\<lambda>_.
     bind_act (lift_out (io_result (os_set_len os (pod_size T)) ())) (\<lambda>_.
     bind_act (modify (\<lambda>fs. fs(p \<mapsto> set_len (pod_size T) (the (fs p))))) (\<lambda>_.
     bind_act (asks (\<lambda>fs. map_result (os_map os (the (fs p))))) (\<lambda>bs.
     bind_act (lift_out (copy_from_slice (pod_enc T initial) bs)) (\<lambda>bs.
     bind_act (modify (\<lambda>fs. fs(p \<mapsto> bs))) (\<lambda>_.
     lift_out (io_result (os_flush os p) ()))))))))"

definition status_read ::
  "os_env \<Rightarrow> 'a status_type \<Rightarrow> string \<Rightarrow> fs \<Rightarrow> (ShmRingError, 'a) outcome" where
  "status_read os T p fs =
     (case fs p of
        None \<Rightarrow> Fail (Io IoNotFound)
      | Some content \<Rightarrow>
          bind_out (io_result (os_open os p) ()) (\<lambda>_.
          bind_out (map_result (os_map os content)) (\<lambda>bs.
          if (of_nat (length bs) :: u64) < pod_size T
          then Fail (FileTooShort (pod_size T) (of_nat (length bs)))
          else
            let value = pod_dec T (load 0 (unat (pod_size T)) bs) in
            if \<not> magic_matches T value
            then Fail (HeaderCorruption ''magic'' (st_MAGIC T) (st_magic T value))
            else if \<not> version_matches T value
            then Fail (VersionMismatch (st_VERSION T) (st_version T value))
            else Done value)))"

definition status_update ::
  "os_env \<Rightarrow> 'a status_type \<Rightarrow> string \<Rightarrow> 'a \<Rightarrow> (fs, ShmRingError, unit) act" where
  "status_update os T p value =
     bind_act (asks (\<lambda>fs. case fs p of None \<Rightarrow> Fail (Io IoNotFound) | Some c \<Rightarrow> io_result (os_open os p) c)) (\<lambda>content.
     bind_act (lift_out (map_result (os_map os content))) (\<lambda>bs.
     if (of_nat (length bs) :: u64) < pod_size T
     then fail (FileTooShort (pod_size T) (of_nat (length bs)))
     else if length bs < 12 then lift_out Fault
     else
       let stored_magic = of_le (load 0 8 bs); stored_version = of_le (load 8 4 bs) in
       if stored_magic \<noteq> st_MAGIC T
       then fail (HeaderCorruption ''magic'' (st_MAGIC T) stored_magic)
       else if stored_version \<noteq> st_VERSION T
       then fail (VersionMismatch (st_VERSION T) stored_version)
       else
         bind_act (lift_out (copy_from_slice (pod_enc T value) bs)) (\<lambda>bs.
         bind_act (modify (\<lambda>fs. fs(p \<mapsto> bs))) (\<lambda>_.
         lift_out (io_result (os_flush os p) ())))))"

definition status_cleanup :: "os_env \<Rightarrow> string \<Rightarrow> (fs, ShmRingError, unit) act" where
  "status_cleanup os p =
     bind_act (gets (\<lambda>fs. fs p \<noteq> None)) (\<lambda>exists.
     if exists then
       bind_act (lift_out (io_result (os_remove os p) ())) (\<lambda>_. modify (\<lambda>fs. fs(p := None)))
     else ret ())"

section \<open>What the operations do\<close>

text \<open>The identity gate, as both \<open>read\<close> and \<open>update\<close> apply it to the head of a file.\<close>

definition head_check :: "'a status_type \<Rightarrow> u8 list \<Rightarrow> (ShmRingError, unit) outcome" where
  "head_check T bs =
     (if length bs < unat (pod_size T) then Fail (FileTooShort (pod_size T) (of_nat (length bs)))
      else if of_le (load 0 8 bs) \<noteq> st_MAGIC T
      then Fail (HeaderCorruption ''magic'' (st_MAGIC T) (of_le (load 0 8 bs)))
      else if of_le (load 8 4 bs) \<noteq> st_VERSION T
      then Fail (VersionMismatch (st_VERSION T) (of_le (load 8 4 bs)))
      else Done ())"

lemma len_word_less:
  "length bs < 2 ^ 64 \<Longrightarrow> (of_nat (length bs) :: u64) < n \<longleftrightarrow> length bs < unat n"
  by (simp add: word_less_nat_alt unat_of_nat)

lemma load_load: "i + n \<le> m \<Longrightarrow> load i n (load 0 m bs) = load i n bs"
  by (simp add: load_def drop_take min_def)

lemma create_exec:
  assumes "pod_status T" and "os_grants os p"
  shows "status_create os T p v fs = (Done (), fs(p \<mapsto> pod_enc T v))"
  using pod_status.image_length [OF assms(1), of v]
  by (simp add: status_create_def act_simps os_grantsD [OF assms(2)] copy_from_slice_def)

lemma read_exec:
  assumes T: "pod_status T" and os: "os_grants os p" and fs: "fs p = Some bs" "length bs < 2 ^ 64"
  shows "status_read os T p fs =
    bind_out (head_check T bs) (\<lambda>_. Done (pod_dec T (load 0 (unat (pod_size T)) bs)))"
proof (cases "length bs < unat (pod_size T)")
  case True
  then show ?thesis
    by (simp add: status_read_def head_check_def fs os_grantsD [OF os] len_word_less [OF fs(2)])
next
  case False
  let ?img = "load 0 (unat (pod_size T)) bs"
  have "length ?img = unat (pod_size T)" using False by simp
  from pod_status.enc_dec_head [OF T this] pod_status.head_size [OF T]
  have "st_magic T (pod_dec T ?img) = of_le (load 0 8 bs)" "st_version T (pod_dec T ?img) = of_le (load 8 4 bs)"
    by (simp_all add: load_load)
  with False show ?thesis
    by (simp add: status_read_def head_check_def fs os_grantsD [OF os] len_word_less [OF fs(2)]
        magic_matches_def version_matches_def Let_def)
qed

lemma update_exec:
  assumes T: "pod_status T" and os: "os_grants os p" and fs: "fs p = Some bs" "length bs < 2 ^ 64"
  shows "status_update os T p v fs =
    (case head_check T bs of
       Done _ \<Rightarrow> if length bs = unat (pod_size T) then (Done (), fs(p \<mapsto> pod_enc T v)) else (Panic, fs)
     | Fail e \<Rightarrow> (Fail e, fs) | Panic \<Rightarrow> (Panic, fs) | Fault \<Rightarrow> (Fault, fs))"
  using pod_status.head_size [OF T] pod_status.image_length [OF T, of v]
  by (simp add: status_update_def head_check_def fs os_grantsD [OF os] len_word_less [OF fs(2)]
      act_simps copy_from_slice_def Let_def)

lemma read_absent: "fs p = None \<Longrightarrow> status_read os T p fs = Fail (Io IoNotFound)"
  by (simp add: status_read_def)

lemma update_absent: "fs p = None \<Longrightarrow> status_update os T p v fs = (Fail (Io IoNotFound), fs)"
  by (simp add: status_update_def act_simps)

text \<open>The head of an image holds the value's own magic and version.\<close>

lemma head_check_image:
  assumes "pod_status T"
  shows "head_check T (pod_enc T v) =
    (if \<not> magic_matches T v then Fail (HeaderCorruption ''magic'' (st_MAGIC T) (st_magic T v))
     else if \<not> version_matches T v then Fail (VersionMismatch (st_VERSION T) (st_version T v))
     else Done ())"
  using pod_status.image_length [OF assms, of v]
  by (simp add: head_check_def magic_matches_def version_matches_def
      pod_status.magic_at_0 [OF assms, symmetric] pod_status.version_at_8 [OF assms, symmetric])

lemma read_image:
  assumes "pod_status T" and "os_grants os p" and "fs p = Some (pod_enc T v)"
  shows "status_read os T p fs = bind_out (head_check T (pod_enc T v)) (\<lambda>_. Done v)"
  using read_exec [OF assms(1,2), of fs "pod_enc T v"] assms(3) pod_status.image_length [OF assms(1), of v]
    pod_status.image_decodes [OF assms(1), of v] unat_less_2p64 [of "pod_size T"]
  by (simp add: load_def)

lemma cleanup_exec:
  "os_remove os p = None \<Longrightarrow> status_cleanup os p fs = (Done (), fs(p := None))"
  by (auto simp: status_cleanup_def act_simps)


section \<open>Properties\<close>

definition sample_mount :: MountStatus where
  "sample_mount = \<lparr>ms_magic = 0x4D535455, ms_version = 1, ms_is_mounted = 0\<rparr>"

lemma sample_mount_ok:
  "magic_matches mount_status sample_mount" "version_matches mount_status sample_mount"
  "magic_matches mount_status (sample_mount\<lparr>ms_is_mounted := n\<rparr>)"
  "version_matches mount_status (sample_mount\<lparr>ms_is_mounted := n\<rparr>)"
  by (simp_all add: magic_matches_def version_matches_def mount_status_def sample_mount_def)

lemma mount_status_size [simp]: "pod_size mount_status = 16"
  by (simp add: mount_status_def)

lemma sample_mount_read:
  "fs p = Some (pod_enc mount_status v) \<Longrightarrow> magic_matches mount_status v \<Longrightarrow> version_matches mount_status v
     \<Longrightarrow> status_read quiet_os mount_status p fs = Done v"
  using read_image [OF mount_status.pod_status_axioms quiet_os_grants(1), of fs p v]
    head_check_image [OF mount_status.pod_status_axioms, of v] by simp

text \<open>
  Creating a status file destroys whatever the path held and nothing else, and reading it back
  gives the value, provided the value carries the type's magic and version; a value that does not is
  reported with what it carries.
\<close>

lemma status_create_read:
  assumes "pod_status T" and "os_grants os p"
  shows "\<exists>fs'. status_create os T p v fs = (Done (), fs') \<and> (\<forall>q. fs' q = (if q = p then Some (pod_enc T v) else fs q))
    \<and> status_read os T p fs' =
       (if \<not> magic_matches T v then Fail (HeaderCorruption ''magic'' (st_MAGIC T) (st_magic T v))
        else if \<not> version_matches T v then Fail (VersionMismatch (st_VERSION T) (st_version T v))
        else Done v)"
  using create_exec [OF assms, of v fs] read_image [OF assms, of "fs(p \<mapsto> pod_enc T v)" v]
    head_check_image [OF assms(1), of v] by simp

text \<open>
  An update never touches a file that a read would refuse: it returns the read's own error and
  leaves every byte in place.
\<close>

lemma status_update_rejects:
  assumes "pod_status T" and "os_grants os p" and "\<forall>bs. fs p = Some bs \<longrightarrow> length bs < 2 ^ 64"
    and "status_read os T p fs = Fail e"
  shows "status_update os T p v fs = (Fail e, fs)"
proof (cases "fs p")
  case None
  then show ?thesis using assms(4) read_absent [of fs p os T] update_absent [of fs p os T v] by simp
next
  case (Some bs)
  then have len: "length bs < 2 ^ 64" using assms(3) by simp
  have "head_check T bs = Fail e"
    using assms(4) read_exec [where fs = fs and p = p, OF assms(1,2) Some len] by (cases "head_check T bs") simp_all
  then show ?thesis using update_exec [where fs = fs and p = p and v = v, OF assms(1,2) Some len] by simp
qed

text \<open>
  C39. On a file that reads back a value, an update succeeds exactly when the file has the type's
  size, and then the file holds the new value's image. On a longer file, which passes every check, the
  copy panics and the file is unchanged.
\<close>

theorem status_update_accepts:
  assumes "pod_status T" and "os_grants os p" and "fs p = Some bs" and "length bs < 2 ^ 64"
    and "status_read os T p fs = Done old"
  shows "status_update os T p v fs =
      (if length bs = unat (pod_size T) then (Done (), fs(p \<mapsto> pod_enc T v)) else (Panic, fs))
    \<and> unat (pod_size T) \<le> length bs
    \<and> (length bs = unat (pod_size T) \<and> magic_matches T v \<and> version_matches T v
        \<longrightarrow> status_read os T p (snd (status_update os T p v fs)) = Done v)"
proof -
  have ok: "head_check T bs = Done ()"
    using assms(5) read_exec [where fs = fs and p = p, OF assms(1-4)] by (cases "head_check T bs") simp_all
  then have "unat (pod_size T) \<le> length bs" by (simp add: head_check_def split: if_splits)
  then show ?thesis
    using ok update_exec [where fs = fs and p = p and v = v, OF assms(1-4)] read_image [OF assms(1,2), of "fs(p \<mapsto> pod_enc T v)" v]
      head_check_image [OF assms(1), of v] by simp
qed

theorem status_update_accepts_witness:
  "(let fs = [''st'' \<mapsto> pod_enc mount_status sample_mount]; v = sample_mount\<lparr>ms_is_mounted := 1\<rparr> in
      status_read quiet_os mount_status ''st'' (snd (status_update quiet_os mount_status ''st'' v fs)) = Done v)"
proof -
  let ?fs = "[''st'' \<mapsto> pod_enc mount_status sample_mount] :: fs"
  have "status_read quiet_os mount_status ''st'' ?fs = Done sample_mount"
    using sample_mount_ok by (intro sample_mount_read) simp_all
  from status_update_accepts [OF mount_status.pod_status_axioms quiet_os_grants(1) _ _ this,
      of "pod_enc mount_status sample_mount" "sample_mount\<lparr>ms_is_mounted := 1\<rparr>"]
  show ?thesis using sample_mount_ok by (auto simp: Let_def)
qed

text \<open>
  A file one byte longer than the type, with the right magic and version, can be read but panics
  when it is updated.
\<close>

lemma status_update_long_file:
  "(let fs = [p \<mapsto> pod_enc mount_status sample_mount @ [0]] in
      status_read quiet_os mount_status p fs = Done sample_mount
      \<and> status_update quiet_os mount_status p v fs = (Panic, fs))"
proof -
  let ?bs = "pod_enc mount_status sample_mount @ [0]" and ?fs = "[p \<mapsto> pod_enc mount_status sample_mount @ [0]] :: fs"
  have "head_check mount_status ?bs = Done ()"
    using sample_mount_ok head_check_image [OF mount_status.pod_status_axioms, of sample_mount]
    by (simp add: head_check_def load_def split: if_splits)
  moreover have "load 0 16 ?bs = pod_enc mount_status sample_mount" by (simp add: load_def)
  ultimately show ?thesis
    using read_exec [OF mount_status.pod_status_axioms quiet_os_grants(1), of ?fs p ?bs]
      update_exec [OF mount_status.pod_status_axioms quiet_os_grants(1), of ?fs p ?bs v] by (simp add: Let_def)
qed

text \<open>
  Cleanup is idempotent and removes nothing but its own path; a missing file is success without
  asking the operating system.
\<close>

lemma status_cleanup_idempotent:
  assumes "os_remove os p = None"
  shows "\<exists>fs'. status_cleanup os p fs = (Done (), fs') \<and> fs' p = None \<and> (\<forall>q. q \<noteq> p \<longrightarrow> fs' q = fs q)
    \<and> status_cleanup os' p fs' = (Done (), fs')"
  using cleanup_exec [OF assms, of fs] by (auto simp: status_cleanup_def act_simps)

end
