(* ===== verification/Protocol.thy ===== *)
theory Protocol
  imports Prelude
begin

text \<open>
  The concurrent protocol, one memory access at a time: \<open>try_push\<close> of the producer and
  \<open>try_pop\<close> of every reader as step machines over release/acquire atomics and plain slot
  accesses. \<open>src/loom_ring.rs\<close> is this protocol without the mapping, for a model checker;
  \<open>src/ring.rs\<close> performs the same accesses in the same order.

  Memory model. A location keeps the history of the messages stored to it. A load may return any
  message not older than the last one its thread has loaded from that location, so stale values are
  possible; a location's only writer reads its own last store. A message carries the view of the
  thread that released it, and an acquire load joins that view to the reader's. A view counts the slot
  accesses that happen before: slot writes of the producer and slot reads of each reader. An access to
  a slot races when a conflicting access to the same slot is not in the accessing thread's view. Fewer
  guarantees than the language's memory model gives are used, so what is shown holds there too.
\<close>

section \<open>State\<close>

record view =
  vw :: nat                   \<comment> \<open>slot writes of the producer\<close>
  vr :: "nat \<Rightarrow> nat"   \<comment> \<open>slot reads of each reader\<close>

definition view_zero :: view where
  "view_zero = \<lparr>vw = 0, vr = (\<lambda>_. 0)\<rparr>"

definition view_join :: "view \<Rightarrow> view \<Rightarrow> view" where
  "view_join a b = \<lparr>vw = max (vw a) (vw b), vr = (\<lambda>i. max (vr a i) (vr b i))\<rparr>"

definition U64_MAX :: nat where "U64_MAX = 2 ^ 64 - 1"

text \<open>Where a call stands. \<open>PScan v w j m\<close>: \<open>j\<close> cursors loaded, minimum \<open>m\<close> so far.\<close>

datatype 'v p_pc = PIdle | PScan 'v nat nat nat | PWrite 'v nat | PPublish 'v nat | PCount
datatype 'v r_pc = RIdle | RCursor nat | RRead nat | RStore nat 'v

record 'v proto =
  w_hist :: "(nat \<times> view) list"            \<comment> \<open>messages of \<open>write_idx\<close>\<close>
  r_hist :: "nat \<Rightarrow> (nat \<times> view) list"  \<comment> \<open>messages of each reader's cursor\<close>
  total :: nat
  cells :: "nat \<Rightarrow> 'v"
  cell_w :: "nat \<Rightarrow> nat"              \<comment> \<open>last write of a slot, by number, from 1\<close>
  cell_r :: "nat \<Rightarrow> nat \<Rightarrow> nat"  \<comment> \<open>last read of a slot by a reader\<close>
  p_pc :: "'v p_pc"
  p_view :: view
  p_seen :: "nat \<Rightarrow> nat"              \<comment> \<open>newest message of each cursor the producer has loaded\<close>
  r_pc :: "nat \<Rightarrow> 'v r_pc"
  r_view :: "nat \<Rightarrow> view"
  r_seen :: "nat \<Rightarrow> nat"
  raced :: bool
  crashed :: bool                               \<comment> \<open>an overflow check failed\<close>
  published :: "'v list"                        \<comment> \<open>history: accepted messages\<close>
  answers :: "bool list"                        \<comment> \<open>history: answers of \<open>try_push\<close>\<close>
  got :: "nat \<Rightarrow> 'v list"             \<comment> \<open>history: messages each reader popped\<close>

definition proto_init :: "(nat \<Rightarrow> 'v) \<Rightarrow> 'v proto" where
  "proto_init junk =
     \<lparr> w_hist = [(0, view_zero)], r_hist = (\<lambda>_. [(0, view_zero)]), total = 0, cells = junk,
       cell_w = (\<lambda>_. 0), cell_r = (\<lambda>_ _. 0), p_pc = PIdle, p_view = view_zero, p_seen = (\<lambda>_. 0),
       r_pc = (\<lambda>_. RIdle), r_view = (\<lambda>_. view_zero), r_seen = (\<lambda>_. 0), raced = False, crashed = False,
       published = [], answers = [], got = (\<lambda>_. []) \<rparr>"

section \<open>Steps\<close>

text \<open>\<open>Scan t\<close> and \<open>PopCall i t\<close> carry the message the load returns.\<close>

datatype 'v event =
    PushCall 'v | Scan nat | Decide | Write | Publish | Count
  | PopCall nat nat | Cursor nat | Read nat | Store nat

fun last_val :: "(nat \<times> view) list \<Rightarrow> nat" where
  "last_val h = fst (last h)"

text \<open>The producer: \<open>try_push\<close> for \<open>n\<close> readers and capacity \<open>cap\<close>.\<close>

fun p_step :: "nat \<Rightarrow> nat \<Rightarrow> 'v event \<Rightarrow> 'v proto \<Rightarrow> 'v proto option" where
  "p_step n cap (PushCall v) c =
     (if p_pc c = PIdle then Some (c\<lparr>p_pc := PScan v (last_val (w_hist c)) 0 U64_MAX\<rparr>) else None)"
| "p_step n cap (Scan t) c =
     (case p_pc c of
        PScan v w j m \<Rightarrow>
          if j < n \<and> p_seen c j \<le> t \<and> t < length (r_hist c j) then
            (let (r, vv) = r_hist c j ! t in
             Some (c\<lparr>p_pc := PScan v w (Suc j) (min m r), p_view := view_join (p_view c) vv,
                     p_seen := (p_seen c)(j := t)\<rparr>))
          else None
      | _ \<Rightarrow> None)"
| "p_step n cap Decide c =
     (case p_pc c of
        PScan v w j m \<Rightarrow>
          if j \<noteq> n then None
          else if w < m then Some (c\<lparr>crashed := True\<rparr>)
          else if cap \<le> w - m then Some (c\<lparr>p_pc := PIdle, answers := answers c @ [False]\<rparr>)
          else Some (c\<lparr>p_pc := PWrite v w\<rparr>)
      | _ \<Rightarrow> None)"
| "p_step n cap Write c =
     (case p_pc c of
        PWrite v w \<Rightarrow>
          (let s = w mod cap; k = Suc (vw (p_view c)) in
           Some (c\<lparr>p_pc := PPublish v w, cells := (cells c)(s := v), cell_w := (cell_w c)(s := k),
                   p_view := (p_view c)\<lparr>vw := k\<rparr>,
                   raced := (raced c \<or> vw (p_view c) < cell_w c s
                               \<or> list_ex (\<lambda>i. vr (p_view c) i < cell_r c s i) [0..<n])\<rparr>))
      | _ \<Rightarrow> None)"
| "p_step n cap Publish c =
     (case p_pc c of
        PPublish v w \<Rightarrow>
          if U64_MAX \<le> w then Some (c\<lparr>crashed := True\<rparr>)
          else Some (c\<lparr>p_pc := PCount, w_hist := w_hist c @ [(Suc w, p_view c)], published := published c @ [v]\<rparr>)
      | _ \<Rightarrow> None)"
| "p_step n cap Count c =
     (case p_pc c of
        PCount \<Rightarrow> Some (c\<lparr>p_pc := PIdle, total := Suc (total c), answers := answers c @ [True]\<rparr>)
      | _ \<Rightarrow> None)"
| "p_step n cap _ c = None"

text \<open>A reader: \<open>try_pop\<close>.\<close>

fun r_step :: "nat \<Rightarrow> nat \<Rightarrow> 'v event \<Rightarrow> 'v proto \<Rightarrow> 'v proto option" where
  "r_step n cap (PopCall i t) c =
     (if i < n \<and> r_pc c i = RIdle \<and> r_seen c i \<le> t \<and> t < length (w_hist c) then
        (let (w, vv) = w_hist c ! t in
         Some (c\<lparr>r_pc := (r_pc c)(i := RCursor w), r_view := (r_view c)(i := view_join (r_view c i) vv),
                 r_seen := (r_seen c)(i := t)\<rparr>))
      else None)"
| "r_step n cap (Cursor i) c =
     (case r_pc c i of
        RCursor w \<Rightarrow>
          if \<not> i < n then None
          else if last_val (r_hist c i) = w then Some (c\<lparr>r_pc := (r_pc c)(i := RIdle)\<rparr>)
          else Some (c\<lparr>r_pc := (r_pc c)(i := RRead (last_val (r_hist c i)))\<rparr>)
      | _ \<Rightarrow> None)"
| "r_step n cap (Read i) c =
     (case r_pc c i of
        RRead r \<Rightarrow>
          if \<not> i < n then None
          else
            (let s = r mod cap; k = Suc (vr (r_view c i) i) in
             Some (c\<lparr>r_pc := (r_pc c)(i := RStore r (cells c s)),
                     cell_r := (cell_r c)(s := (cell_r c s)(i := k)),
                     r_view := (r_view c)(i := (r_view c i)\<lparr>vr := (vr (r_view c i))(i := k)\<rparr>),
                     raced := (raced c \<or> vw (r_view c i) < cell_w c s)\<rparr>))
      | _ \<Rightarrow> None)"
| "r_step n cap (Store i) c =
     (case r_pc c i of
        RStore r v \<Rightarrow>
          if \<not> i < n then None
          else if U64_MAX \<le> r then Some (c\<lparr>crashed := True\<rparr>)
          else Some (c\<lparr>r_pc := (r_pc c)(i := RIdle), r_hist := (r_hist c)(i := r_hist c i @ [(Suc r, r_view c i)]),
                       got := (got c)(i := got c i @ [v])\<rparr>)
      | _ \<Rightarrow> None)"
| "r_step n cap _ c = None"

definition step :: "nat \<Rightarrow> nat \<Rightarrow> 'v event \<Rightarrow> 'v proto \<Rightarrow> 'v proto option" where
  "step n cap e c =
     (if crashed c then None
      else case p_step n cap e c of Some c' \<Rightarrow> Some c' | None \<Rightarrow> r_step n cap e c)"

fun run :: "nat \<Rightarrow> nat \<Rightarrow> 'v event list \<Rightarrow> 'v proto \<Rightarrow> 'v proto option" where
  "run n cap [] c = Some c"
| "run n cap (e # es) c = (case step n cap e c of Some c' \<Rightarrow> run n cap es c' | None \<Rightarrow> None)"

text \<open>The reachable states, as an inductive relation.\<close>

inductive reachable :: "nat \<Rightarrow> nat \<Rightarrow> 'v proto \<Rightarrow> bool" for n cap where
  init: "reachable n cap (proto_init junk)"
| step: "reachable n cap c \<Longrightarrow> step n cap e c = Some c' \<Longrightarrow> reachable n cap c'"

lemma reachable_run: "reachable n cap c \<Longrightarrow> run n cap es c = Some c' \<Longrightarrow> reachable n cap c'"
  by (induction es arbitrary: c) (auto split: option.splits intro: reachable.step)

end
