(* ===== verification/Protocol_Inv.thy ===== *)
theory Protocol_Inv
  imports Protocol
begin

text \<open>
  The invariant of the concurrent protocol and its preservation by every access: a reader's cursor
  never passes the producer, the producer never passes the slowest cursor by more than the capacity,
  and every slot access is ordered after the conflicting ones by the views that the release and acquire
  accesses carry.
\<close>

section \<open>The invariant\<close>

abbreviation wcount :: "'v proto \<Rightarrow> nat" where
  "wcount c \<equiv> length (w_hist c) - 1"

abbreviation rcount :: "'v proto \<Rightarrow> nat \<Rightarrow> nat" where
  "rcount c i \<equiv> length (r_hist c i) - 1"

text \<open>Histories: message \<open>k\<close> has value \<open>k\<close> and releases at least \<open>k\<close> accesses.\<close>

definition hist_ok :: "(view \<Rightarrow> nat) \<Rightarrow> (nat \<times> view) list \<Rightarrow> bool" where
  "hist_ok f h \<longleftrightarrow> h \<noteq> [] \<and> (\<forall>k < length h. fst (h ! k) = k \<and> k \<le> f (snd (h ! k)))"

text \<open>Access number \<open>k\<close> to a slot was for the stream index \<open>k - 1\<close>, of that slot.\<close>

definition stamp_ok :: "nat \<Rightarrow> nat \<Rightarrow> nat \<Rightarrow> nat \<Rightarrow> bool" where
  "stamp_ok cap s bound k \<longleftrightarrow> k = 0 \<or> (k \<le> bound \<and> (k - 1) mod cap = s)"

fun p_pc_ok :: "nat \<Rightarrow> nat \<Rightarrow> nat \<Rightarrow> nat \<Rightarrow> (nat \<Rightarrow> nat) \<Rightarrow> (nat \<Rightarrow> 'v) \<Rightarrow> 'v p_pc \<Rightarrow> bool" where
  "p_pc_ok n cap W sw seen cs (PScan v w j m) = (sw = W \<and> w = W \<and> j \<le> n \<and> (\<forall>i < j. m \<le> seen i))"
| "p_pc_ok n cap W sw seen cs (PWrite v w) = (sw = W \<and> w = W \<and> (\<forall>i < n. w < seen i + cap))"
| "p_pc_ok n cap W sw seen cs (PPublish v w) =
     (sw = Suc W \<and> w = W \<and> (\<forall>i < n. w < seen i + cap) \<and> cs (w mod cap) = v)"
| "p_pc_ok n cap W sw seen cs _ = (sw = W)"

fun r_pc_ok :: "nat \<Rightarrow> nat \<Rightarrow> nat \<Rightarrow> 'v list \<Rightarrow> 'v r_pc \<Rightarrow> bool" where
  "r_pc_ok R sr seen pub RIdle = (sr = R)"
| "r_pc_ok R sr seen pub (RCursor w) = (sr = R \<and> w = seen)"
| "r_pc_ok R sr seen pub (RRead r) = (sr = R \<and> r = R \<and> r < seen)"
| "r_pc_ok R sr seen pub (RStore r v) = (sr = Suc R \<and> r = R \<and> r < seen \<and> v = pub ! r)"

definition p_ok :: "nat \<Rightarrow> nat \<Rightarrow> (nat \<times> view) list \<Rightarrow> 'v list \<Rightarrow> (nat \<Rightarrow> nat) \<Rightarrow> view \<Rightarrow> (nat \<Rightarrow> nat) \<Rightarrow> (nat \<Rightarrow> 'v)
    \<Rightarrow> 'v p_pc \<Rightarrow> bool" where
  "p_ok n cap h pub cw v seen cs pc \<longleftrightarrow>
     hist_ok vw h \<and> length pub = length h - 1 \<and> length pub \<le> U64_MAX
     \<and> (\<forall>s. stamp_ok cap s (vw v) (cw s)) \<and> p_pc_ok n cap (length h - 1) (vw v) seen cs pc"

definition r_ok :: "nat \<Rightarrow> nat \<Rightarrow> nat \<Rightarrow> 'v list \<Rightarrow> (nat \<times> view) list \<Rightarrow> nat \<Rightarrow> view \<Rightarrow> (nat \<Rightarrow> nat) \<Rightarrow> 'v list
    \<Rightarrow> 'v r_pc \<Rightarrow> bool" where
  "r_ok cap i W pub h seen v cr g pc \<longleftrightarrow>
     hist_ok (\<lambda>v. vr v i) h \<and> length h - 1 \<le> seen \<and> seen \<le> W \<and> seen \<le> vw v
     \<and> g = take (length h - 1) pub \<and> (\<forall>s. stamp_ok cap s (vr v i) (cr s))
     \<and> r_pc_ok (length h - 1) (vr v i) seen pub pc"

text \<open>What the producer knows of a reader, and the window of slots the reader still needs.\<close>

definition pr_ok :: "nat \<Rightarrow> nat \<Rightarrow> nat \<Rightarrow> 'v list \<Rightarrow> nat \<Rightarrow> nat \<Rightarrow> view \<Rightarrow> (nat \<Rightarrow> 'v) \<Rightarrow> bool" where
  "pr_ok cap i W pub R seen v cs \<longleftrightarrow>
     seen \<le> R \<and> seen \<le> vr v i \<and> vw v \<le> R + cap \<and> (\<forall>k. R \<le> k \<and> k < W \<longrightarrow> cs (k mod cap) = pub ! k)"

text \<open>No thread and no message knows of accesses that were not made.\<close>

definition below :: "nat \<Rightarrow> nat \<Rightarrow> (nat \<Rightarrow> nat) \<Rightarrow> view \<Rightarrow> bool" where
  "below n P R v \<longleftrightarrow> vw v \<le> P \<and> (\<forall>i < n. vr v i \<le> R i)"

definition views_ok :: "nat \<Rightarrow> 'v proto \<Rightarrow> bool" where
  "views_ok n c \<longleftrightarrow>
     (let b = below n (vw (p_view c)) (\<lambda>i. vr (r_view c i) i) in
      (\<forall>m \<in> set (w_hist c). b (snd m)) \<and> (\<forall>i < n. \<forall>m \<in> set (r_hist c i). b (snd m))
      \<and> b (p_view c) \<and> (\<forall>i < n. b (r_view c i)))"

definition proto_inv :: "nat \<Rightarrow> nat \<Rightarrow> 'v proto \<Rightarrow> bool" where
  "proto_inv n cap c \<longleftrightarrow>
     p_ok n cap (w_hist c) (published c) (cell_w c) (p_view c) (p_seen c) (cells c) (p_pc c)
     \<and> (\<forall>i < n. r_ok cap i (wcount c) (published c) (r_hist c i) (r_seen c i) (r_view c i) (\<lambda>s. cell_r c s i)
                  (got c i) (r_pc c i)
              \<and> pr_ok cap i (wcount c) (published c) (rcount c i) (p_seen c i) (p_view c) (cells c))
     \<and> views_ok n c \<and> \<not> raced c \<and> (crashed c \<longrightarrow> length (published c) = U64_MAX)"

lemma hist_ok_append:
  assumes "hist_ok f h" and "length h \<le> f v"
  shows "hist_ok f (h @ [(length h, v)])"
  using assms by (auto simp: hist_ok_def nth_append less_Suc_eq)

lemma hist_okD:
  assumes "hist_ok f h"
  shows "h \<noteq> []" "k < length h \<Longrightarrow> fst (h ! k) = k" "k < length h \<Longrightarrow> k \<le> f (snd (h ! k))"
    "fst (last h) = length h - 1" "0 < length h"
  using assms by (auto simp: hist_ok_def last_conv_nth)

lemma stamp_ok_mono: "stamp_ok cap s b k \<Longrightarrow> b \<le> b' \<Longrightarrow> stamp_ok cap s b' k"
  by (auto simp: stamp_ok_def)

lemma stamp_ok_step:
  assumes "stamp_ok cap s b k"
  shows "stamp_ok cap s (Suc b) (if s = b mod cap then Suc b else k)"
  using assms by (auto simp: stamp_ok_def)

lemma view_join_simps [simp]:
  "vw (view_join a b) = max (vw a) (vw b)" "vr (view_join a b) i = max (vr a i) (vr b i)"
  by (simp_all add: view_join_def)

lemma mod_eq_less_gap: "k mod cap = w mod cap \<Longrightarrow> k < (w :: nat) \<Longrightarrow> k + cap \<le> w"
  by (metis add.commute dvd_imp_le le_diff_conv2 less_imp_le_nat mod_eq_dvd_iff_nat zero_less_diff)

lemma proto_init_inv:
  assumes "0 < n" and "0 < cap"
  shows "proto_inv n cap (proto_init junk)"
  using assms
  by (simp add: proto_inv_def p_ok_def r_ok_def pr_ok_def views_ok_def below_def proto_init_def hist_ok_def
      view_zero_def stamp_ok_def)

lemma proto_invD:
  assumes "proto_inv n cap c"
  shows "p_ok n cap (w_hist c) (published c) (cell_w c) (p_view c) (p_seen c) (cells c) (p_pc c)"
    "i < n \<Longrightarrow> r_ok cap i (wcount c) (published c) (r_hist c i) (r_seen c i) (r_view c i) (\<lambda>s. cell_r c s i)
                  (got c i) (r_pc c i)"
    "i < n \<Longrightarrow> pr_ok cap i (wcount c) (published c) (rcount c i) (p_seen c i) (p_view c) (cells c)"
    "views_ok n c" "\<not> raced c" "crashed c \<Longrightarrow> length (published c) = U64_MAX"
  using assms by (simp_all add: proto_inv_def)

lemma below_join: "below n P R a \<Longrightarrow> below n P R v \<Longrightarrow> below n P R (view_join a v)"
  by (simp add: below_def)

lemma below_mono: "below n P R v \<Longrightarrow> P \<le> P' \<Longrightarrow> (\<And>i. i < n \<Longrightarrow> R i \<le> R' i) \<Longrightarrow> below n P' R' v"
  by (fastforce simp: below_def)

lemma views_okD:
  assumes "views_ok n c"
  shows "m \<in> set (w_hist c) \<Longrightarrow> below n (vw (p_view c)) (\<lambda>i. vr (r_view c i) i) (snd m)"
    "i < n \<Longrightarrow> m \<in> set (r_hist c i) \<Longrightarrow> below n (vw (p_view c)) (\<lambda>i. vr (r_view c i) i) (snd m)"
    "below n (vw (p_view c)) (\<lambda>i. vr (r_view c i) i) (p_view c)"
    "i < n \<Longrightarrow> below n (vw (p_view c)) (\<lambda>i. vr (r_view c i) i) (r_view c i)"
  using assms by (auto simp: views_ok_def Let_def)

lemma r_okD:
  assumes "r_ok cap i W pub h seen v cr g pc"
  shows "hist_ok (\<lambda>v. vr v i) h" "length h - 1 \<le> seen" "seen \<le> W" "seen \<le> vw v" "g = take (length h - 1) pub"
    "stamp_ok cap s (vr v i) (cr s)" "r_pc_ok (length h - 1) (vr v i) seen pub pc"
  using assms by (simp_all add: r_ok_def)

lemma p_okD:
  assumes "p_ok n cap h pub cw v seen cs pc"
  shows "hist_ok vw h" "length pub = length h - 1" "length pub \<le> U64_MAX" "stamp_ok cap s (vw v) (cw s)"
    "p_pc_ok n cap (length h - 1) (vw v) seen cs pc"
  using assms by (simp_all add: p_ok_def)

lemma pr_okD:
  assumes "pr_ok cap i W pub R seen v cs"
  shows "seen \<le> R" "seen \<le> vr v i" "vw v \<le> R + cap" "R \<le> k \<Longrightarrow> k < W \<Longrightarrow> cs (k mod cap) = pub ! k"
  using assms by (simp_all add: pr_ok_def)

text \<open>A reader has read no slot at or beyond what it has seen published.\<close>

lemma reads_bound:
  assumes "r_ok cap i W pub h seen v cr g pc"
  shows "vr v i \<le> W"
  using r_okD(2,3,7) [OF assms] by (cases pc) auto

section \<open>The producer's steps\<close>

lemma inv_PushCall:
  assumes inv: "proto_inv n cap c" and st: "p_step n cap (PushCall v) c = Some c'"
  shows "proto_inv n cap c'"
proof -
  have "p_pc c = PIdle" and c': "c' = c\<lparr>p_pc := PScan v (wcount c) 0 U64_MAX\<rparr>"
    using st hist_okD(4) [of vw "w_hist c"] proto_invD(1) [OF inv] by (auto simp: p_ok_def split: if_splits)
  with inv show ?thesis by (auto simp: proto_inv_def p_ok_def views_ok_def)
qed

lemma inv_Scan:
  assumes inv: "proto_inv n cap c" and st: "p_step n cap (Scan t) c = Some c'"
  shows "proto_inv n cap c'"
proof -
  obtain v w j m where pc: "p_pc c = PScan v w j m" and j: "j < n" and t: "p_seen c j \<le> t" "t < length (r_hist c j)"
    and c': "c' = c\<lparr>p_pc := PScan v w (Suc j) (min m (fst (r_hist c j ! t))),
        p_view := view_join (p_view c) (snd (r_hist c j ! t)), p_seen := (p_seen c)(j := t)\<rparr>"
    using st by (auto simp: case_prod_beta Let_def split: p_pc.splits if_splits)
  let ?m = "snd (r_hist c j ! t)" and ?v = "view_join (p_view c) (snd (r_hist c j ! t))"
  have h: "fst (r_hist c j ! t) = t" "t \<le> vr ?m j"
    using hist_okD(2,3) t(2) proto_invD(2) [OF inv j] by (auto simp: r_ok_def)
  have bm: "below n (vw (p_view c)) (\<lambda>i. vr (r_view c i) i) ?m"
    using views_okD(2) [OF proto_invD(4) [OF inv] j] t(2) by simp
  then have vw: "vw ?v = vw (p_view c)" by (simp add: below_def)
  have "views_ok n c'"
    using proto_invD(4) [OF inv] below_join [OF views_okD(3) [OF proto_invD(4) [OF inv]] bm] vw
    by (simp add: views_ok_def Let_def c')
  moreover have "p_ok n cap (w_hist c) (published c) (cell_w c) ?v ((p_seen c)(j := t)) (cells c)
      (PScan v w (Suc j) (min m t))"
    using proto_invD(1) [OF inv] j t(1) vw by (auto simp: p_ok_def pc less_Suc_eq min.coboundedI1)
  moreover have "pr_ok cap i (wcount c) (published c) (rcount c i) (((p_seen c)(j := t)) i) ?v (cells c)" if "i < n" for i
    using proto_invD(3) [OF inv that] h t(2) vw by (auto simp: pr_ok_def max.coboundedI1 max.coboundedI2)
  ultimately show ?thesis using inv by (simp add: proto_inv_def c' h(1))
qed

lemma inv_Decide:
  assumes inv: "proto_inv n cap c" and n: "0 < n" and st: "p_step n cap Decide c = Some c'"
  shows "proto_inv n cap c'"
proof -
  obtain v w m where pc: "p_pc c = PScan v w n m"
    and c': "c' = (if w < m then c\<lparr>crashed := True\<rparr>
        else if cap \<le> w - m then c\<lparr>p_pc := PIdle, answers := answers c @ [False]\<rparr> else c\<lparr>p_pc := PWrite v w\<rparr>)"
    using st by (auto split: p_pc.splits if_splits)
  note p = proto_invD(1) [OF inv, unfolded p_ok_def pc p_pc_ok.simps]
  have "p_seen c 0 \<le> wcount c"
    using proto_invD(2,3) [OF inv n] by (simp add: r_ok_def pr_ok_def)
  then have "\<not> w < m" using p n by auto
  moreover have "\<forall>i < n. w < p_seen c i + cap" if "\<not> cap \<le> w - m" using that p by fastforce
  ultimately show ?thesis using inv p
    by (auto simp: proto_inv_def p_ok_def views_ok_def c' pc)
qed

lemma inv_Write:
  assumes inv: "proto_inv n cap c" and cap: "0 < cap" and st: "p_step n cap Write c = Some c'"
  shows "proto_inv n cap c'"
proof -
  obtain v w where pc: "p_pc c = PWrite v w"
    and c': "c' = c\<lparr>p_pc := PPublish v w, cells := (cells c)(w mod cap := v),
        cell_w := (cell_w c)(w mod cap := Suc (vw (p_view c))), p_view := (p_view c)\<lparr>vw := Suc (vw (p_view c))\<rparr>,
        raced := (raced c \<or> vw (p_view c) < cell_w c (w mod cap)
           \<or> list_ex (\<lambda>i. vr (p_view c) i < cell_r c (w mod cap) i) [0..<n])\<rparr>"
    using st by (auto simp: Let_def split: p_pc.splits)
  note p = proto_invD(1) [OF inv, unfolded p_ok_def pc p_pc_ok.simps]
  let ?s = "w mod cap" and ?v = "(p_view c)\<lparr>vw := Suc (vw (p_view c))\<rparr>"
  have "stamp_ok cap ?s (vw (p_view c)) (cell_w c ?s)" using p by blast
  then have "\<not> vw (p_view c) < cell_w c ?s" by (auto simp: stamp_ok_def)
  moreover have "\<not> vr (p_view c) i < cell_r c ?s i" if i: "i < n" for i
  proof (cases "cell_r c ?s i")
    case (Suc k)
    note r = proto_invD(2) [OF inv i] and pr = proto_invD(3) [OF inv i]
    have k: "k mod cap = ?s" "Suc k \<le> vr (r_view c i) i"
      using r_okD(6) [OF r, of ?s] Suc by (auto simp: stamp_ok_def)
    have "k < w" using k(2) reads_bound [OF r] p by simp
    from mod_eq_less_gap [OF k(1) this] have "k < p_seen c i" using p i by fastforce
    with pr_okD(2) [OF pr] Suc show ?thesis by linarith
  qed simp
  ultimately have "\<not> raced c'" using proto_invD(5) [OF inv] by (simp add: c' list_ex_iff)
  moreover have stamps: "stamp_ok cap s (vw ?v) (((cell_w c)(?s := Suc (vw (p_view c)))) s)" for s
    using stamp_ok_step [of cap s "vw (p_view c)" "cell_w c s"] p by auto
  then have "p_ok n cap (w_hist c) (published c) ((cell_w c)(?s := Suc (vw (p_view c)))) ?v (p_seen c)
      ((cells c)(?s := v)) (PPublish v w)"
    using p unfolding p_ok_def by auto
  moreover have "pr_ok cap i (wcount c) (published c) (rcount c i) (p_seen c i) ?v ((cells c)(?s := v))" if i: "i < n" for i
  proof -
    note pr = proto_invD(3) [OF inv i, unfolded pr_ok_def]
    have w: "w < rcount c i + cap" using p pr i by fastforce
    have "k mod cap \<noteq> ?s" if "rcount c i \<le> k" "k < wcount c" for k
      using mod_eq_less_gap [of k cap w] that p w by fastforce
    with pr p w show ?thesis by (auto simp: pr_ok_def)
  qed
  moreover have "views_ok n c'"
  proof -
    let ?R = "\<lambda>i. vr (r_view c i) i"
    have "below n (Suc (vw (p_view c))) ?R v" if "below n (vw (p_view c)) ?R v" for v
      using below_mono [OF that, of "Suc (vw (p_view c))" ?R] by simp
    moreover have "below n (Suc (vw (p_view c))) ?R ?v"
      using views_okD(3) [OF proto_invD(4) [OF inv]] by (simp add: below_def)
    ultimately show ?thesis using proto_invD(4) [OF inv] by (simp add: views_ok_def Let_def c')
  qed
  ultimately show ?thesis using inv by (simp add: proto_inv_def c')
qed

lemma inv_Publish:
  assumes inv: "proto_inv n cap c" and n: "0 < n" and st: "p_step n cap Publish c = Some c'"
  shows "proto_inv n cap c'"
proof -
  obtain v w where pc: "p_pc c = PPublish v w"
    and c': "c' = (if U64_MAX \<le> w then c\<lparr>crashed := True\<rparr>
        else c\<lparr>p_pc := PCount, w_hist := w_hist c @ [(Suc w, p_view c)], published := published c @ [v]\<rparr>)"
    using st by (auto split: p_pc.splits if_splits)
  note p = proto_invD(1) [OF inv] and pp = p_okD(5) [OF proto_invD(1) [OF inv], unfolded pc p_pc_ok.simps]
  have len: "length (w_hist c) = Suc w" "length (published c) = w"
    using pp p_okD(2) [OF p] hist_okD(5) [OF p_okD(1) [OF p]] by auto
  have sw: "vw (p_view c) = Suc w" and cell: "cells c (w mod cap) = v" using pp by auto
  show ?thesis
  proof (cases "U64_MAX \<le> w")
    case True
    then have "length (published c) = U64_MAX" using len p_okD(3) [OF p] by simp
    moreover have "views_ok n c'" using proto_invD(4) [OF inv] True by (simp add: views_ok_def c')
    ultimately show ?thesis using inv True by (simp add: proto_inv_def c')
  next
    case False
    let ?h = "w_hist c @ [(Suc w, p_view c)]" and ?pub = "published c @ [v]"
    have "hist_ok vw ?h"
      using hist_ok_append [OF p_okD(1) [OF p], of "p_view c"] sw len by simp
    then have "p_ok n cap ?h ?pub (cell_w c) (p_view c) (p_seen c) (cells c) PCount"
      using sw len False p_okD(4) [OF p] by (simp add: p_ok_def)
    moreover have "r_ok cap i (Suc w) ?pub (r_hist c i) (r_seen c i) (r_view c i) (\<lambda>s. cell_r c s i) (got c i) (r_pc c i)"
      if i: "i < n" for i
    proof -
      have r: "r_ok cap i w (published c) (r_hist c i) (r_seen c i) (r_view c i) (\<lambda>s. cell_r c s i) (got c i) (r_pc c i)"
        using proto_invD(2) [OF inv i] len by simp
      have "rcount c i \<le> w" using r_okD(2,3) [OF r] by linarith
      then have "length (r_hist c i) \<le> Suc w" by simp
      moreover have "r_pc_ok (rcount c i) (vr (r_view c i) i) (r_seen c i) ?pub (r_pc c i)"
        using r_okD(3,7) [OF r] len by (cases "r_pc c i") (auto simp: nth_append)
      ultimately show ?thesis using r len r_okD(3) [OF r] by (simp add: r_ok_def)
    qed
    moreover have "pr_ok cap i (Suc w) ?pub (rcount c i) (p_seen c i) (p_view c) (cells c)" if i: "i < n" for i
    proof -
      have "pr_ok cap i w (published c) (rcount c i) (p_seen c i) (p_view c) (cells c)"
        using proto_invD(3) [OF inv i] len by simp
      then show ?thesis using cell len by (auto simp: pr_ok_def nth_append less_Suc_eq)
    qed
    moreover have "views_ok n c'"
      using proto_invD(4) [OF inv] False by (simp add: views_ok_def Let_def c')
    moreover have "\<not> crashed c" using proto_invD(6) [OF inv] False len by auto
    ultimately show ?thesis using proto_invD(5) [OF inv] False by (simp add: proto_inv_def c' len)
  qed
qed

lemma inv_Count:
  assumes inv: "proto_inv n cap c" and st: "p_step n cap Count c = Some c'"
  shows "proto_inv n cap c'"
proof -
  have "p_pc c = PCount" and "c' = c\<lparr>p_pc := PIdle, total := Suc (total c), answers := answers c @ [True]\<rparr>"
    using st by (auto split: p_pc.splits)
  with inv show ?thesis by (auto simp: proto_inv_def p_ok_def views_ok_def)
qed

section \<open>A reader's steps\<close>

lemma inv_PopCall:
  assumes inv: "proto_inv n cap c" and st: "r_step n cap (PopCall i t) c = Some c'"
  shows "proto_inv n cap c'"
proof -
  have i: "i < n" and pc: "r_pc c i = RIdle" and t: "r_seen c i \<le> t" "t < length (w_hist c)"
    and c': "c' = c\<lparr>r_pc := (r_pc c)(i := RCursor (fst (w_hist c ! t))),
        r_view := (r_view c)(i := view_join (r_view c i) (snd (w_hist c ! t))), r_seen := (r_seen c)(i := t)\<rparr>"
    using st by (auto simp: case_prod_beta Let_def split: if_splits)
  let ?m = "snd (w_hist c ! t)" and ?v = "view_join (r_view c i) (snd (w_hist c ! t))"
  note p = proto_invD(1) [OF inv] and r = proto_invD(2) [OF inv i] and vo = proto_invD(4) [OF inv]
  have h: "fst (w_hist c ! t) = t" "t \<le> vw ?m"
    using hist_okD(2,3) [OF p_okD(1) [OF p] t(2)] by simp_all
  have bm: "below n (vw (p_view c)) (\<lambda>i. vr (r_view c i) i) ?m"
    using views_okD(1) [OF vo] t(2) by simp
  then have own: "vr ?v i = vr (r_view c i) i" using i by (simp add: below_def max_absorb1)
  have same: "(\<lambda>k. vr (((r_view c)(i := ?v)) k) k) = (\<lambda>k. vr (r_view c k) k)"
    using own by (auto simp: fun_eq_iff)
  have "views_ok n c'"
    using vo below_join [OF views_okD(4) [OF vo i] bm] same by (simp add: views_ok_def Let_def c')
  moreover have "r_ok cap i (wcount c) (published c) (r_hist c i) t ?v (\<lambda>s. cell_r c s i) (got c i) (RCursor t)"
    using r h t own by (auto simp: r_ok_def pc max.coboundedI2)
  ultimately show ?thesis using inv by (simp add: proto_inv_def c' h(1))
qed

lemma inv_Cursor:
  assumes inv: "proto_inv n cap c" and st: "r_step n cap (Cursor i) c = Some c'"
  shows "proto_inv n cap c'"
proof -
  obtain w where i: "i < n" and pc: "r_pc c i = RCursor w"
    and c': "c' = c\<lparr>r_pc := (r_pc c)(i := if last_val (r_hist c i) = w then RIdle else RRead (last_val (r_hist c i)))\<rparr>"
    using st by (auto split: r_pc.splits if_splits)
  note r = proto_invD(2) [OF inv i]
  have "last_val (r_hist c i) = rcount c i" using hist_okD(4) [OF r_okD(1) [OF r]] by simp
  then have "r_ok cap i (wcount c) (published c) (r_hist c i) (r_seen c i) (r_view c i) (\<lambda>s. cell_r c s i) (got c i)
      (r_pc c' i)"
    using r by (auto simp: r_ok_def pc c')
  with inv show ?thesis by (auto simp: proto_inv_def c' views_ok_def)
qed

lemma inv_Read:
  assumes inv: "proto_inv n cap c" and st: "r_step n cap (Read i) c = Some c'"
  shows "proto_inv n cap c'"
proof -
  obtain r where i: "i < n" and pc: "r_pc c i = RRead r"
    and c': "c' = c\<lparr>r_pc := (r_pc c)(i := RStore r (cells c (r mod cap))),
        cell_r := (cell_r c)(r mod cap := (cell_r c (r mod cap))(i := Suc (vr (r_view c i) i))),
        r_view := (r_view c)(i := (r_view c i)\<lparr>vr := (vr (r_view c i))(i := Suc (vr (r_view c i) i))\<rparr>),
        raced := (raced c \<or> vw (r_view c i) < cell_w c (r mod cap))\<rparr>"
    using st by (auto simp: Let_def split: r_pc.splits if_splits)
  let ?s = "r mod cap" and ?v = "(r_view c i)\<lparr>vr := (vr (r_view c i))(i := Suc (vr (r_view c i) i))\<rparr>"
  note p = proto_invD(1) [OF inv] and rk = proto_invD(2) [OF inv i] and pr = proto_invD(3) [OF inv i]
    and vo = proto_invD(4) [OF inv]
  have rr: "vr (r_view c i) i = rcount c i" "r = rcount c i" "r < r_seen c i"
    using r_okD(7) [OF rk] by (simp_all add: pc)
  have "\<not> vw (r_view c i) < cell_w c ?s"
  proof (cases "cell_w c ?s")
    case (Suc k)
    have k: "k mod cap = ?s" "Suc k \<le> vw (p_view c)"
      using p_okD(4) [OF p, of ?s] Suc by (auto simp: stamp_ok_def)
    have "k \<le> r"
    proof (rule ccontr)
      assume "\<not> k \<le> r"
      then have "r + cap \<le> k" using mod_eq_less_gap [of r cap k] k(1) by simp
      with k(2) pr_okD(3) [OF pr] rr(2) show False by simp
    qed
    then show ?thesis using Suc rr(3) r_okD(4) [OF rk] by simp
  qed simp
  then have "\<not> raced c'" using proto_invD(5) [OF inv] by (simp add: c')
  moreover have "cells c ?s = published c ! r"
    using pr_okD(4) [OF pr] rr r_okD(3) [OF rk] by simp
  then have "r_ok cap i (wcount c) (published c) (r_hist c i) (r_seen c i) ?v (\<lambda>s. cell_r c' s i) (got c i)
      (RStore r (cells c ?s))"
    using rk rr stamp_ok_step [where b = r and cap = cap] by (simp add: r_ok_def c' if_distrib [of "\<lambda>f. f i"] cong: if_cong)
  moreover have "views_ok n c'"
  proof -
    have le: "vr (r_view c k) k \<le> vr (((r_view c)(i := ?v)) k) k" for k by simp
    have "below n (vw (p_view c)) (\<lambda>k. vr (((r_view c)(i := ?v)) k) k) v"
      if "below n (vw (p_view c)) (\<lambda>k. vr (r_view c k) k) v" for v
      using below_mono [OF that order_refl le] .
    moreover have "below n (vw (p_view c)) (\<lambda>k. vr (((r_view c)(i := ?v)) k) k) ?v"
      using views_okD(4) [OF vo i] by (auto simp: below_def)
    ultimately show ?thesis using vo by (auto simp: views_ok_def Let_def c')
  qed
  moreover have "(\<lambda>s. cell_r c' s j) = (\<lambda>s. cell_r c s j)" if "j \<noteq> i" for j
    using that by (auto simp: c' fun_eq_iff)
  ultimately show ?thesis using inv by (simp add: proto_inv_def c')
qed

lemma inv_Store:
  assumes inv: "proto_inv n cap c" and st: "r_step n cap (Store i) c = Some c'"
  shows "proto_inv n cap c'"
proof -
  obtain r v where i: "i < n" and pc: "r_pc c i = RStore r v"
    and c': "c' = (if U64_MAX \<le> r then c\<lparr>crashed := True\<rparr>
        else c\<lparr>r_pc := (r_pc c)(i := RIdle), r_hist := (r_hist c)(i := r_hist c i @ [(Suc r, r_view c i)]),
               got := (got c)(i := got c i @ [v])\<rparr>)"
    using st by (auto split: r_pc.splits if_splits)
  note p = proto_invD(1) [OF inv] and rk = proto_invD(2) [OF inv i] and pr = proto_invD(3) [OF inv i]
    and vo = proto_invD(4) [OF inv]
  have rr: "vr (r_view c i) i = Suc r" "rcount c i = r" "r < r_seen c i" "v = published c ! r"
    using r_okD(7) [OF rk] by (simp_all add: pc)
  have lt: "r < length (published c)" using rr(3) r_okD(3) [OF rk] p_okD(2) [OF p] by simp
  with p_okD(3) [OF p] have small: "\<not> U64_MAX \<le> r" by simp
  have len: "length (r_hist c i) = Suc r" using rr(2) hist_okD(5) [OF r_okD(1) [OF rk]] by linarith
  let ?h = "r_hist c i @ [(Suc r, r_view c i)]"
  have "hist_ok (\<lambda>v. vr v i) ?h"
    using hist_ok_append [OF r_okD(1) [OF rk], of "r_view c i"] rr(1) len by simp
  moreover have "got c i @ [v] = take (Suc r) (published c)"
    using r_okD(5) [OF rk] rr(2,4) lt by (simp add: take_Suc_conv_app_nth)
  ultimately have "r_ok cap i (wcount c) (published c) ?h (r_seen c i) (r_view c i) (\<lambda>s. cell_r c s i)
      (got c i @ [v]) RIdle"
    using rk rr(1,3) len by (simp add: r_ok_def)
  moreover have "pr_ok cap i (wcount c) (published c) (Suc r) (p_seen c i) (p_view c) (cells c)"
    using pr rr(2) by (simp add: pr_ok_def)
  moreover have "views_ok n c'"
    using vo views_okD(4) [OF vo i] small by (simp add: views_ok_def Let_def c')
  ultimately show ?thesis using inv small len by (simp add: proto_inv_def c')
qed

section \<open>Every reachable state satisfies the invariant\<close>

lemma step_inv:
  assumes inv: "proto_inv n cap c" and pos: "0 < n" "0 < cap" and st: "step n cap e c = Some c'"
  shows "proto_inv n cap c'"
proof -
  consider "p_step n cap e c = Some c'" | "r_step n cap e c = Some c'"
    using st by (auto simp: step_def split: if_splits option.splits)
  then show ?thesis
  proof cases
    case 1
    then show ?thesis
      using inv_PushCall [OF inv] inv_Scan [OF inv] inv_Decide [OF inv pos(1)] inv_Write [OF inv pos(2)]
        inv_Publish [OF inv pos(1)] inv_Count [OF inv]
      by (cases e) (simp_all del: p_step.simps(1-6))
  next
    case 2
    then show ?thesis
      using inv_PopCall [OF inv] inv_Cursor [OF inv] inv_Read [OF inv] inv_Store [OF inv]
      by (cases e) (simp_all del: r_step.simps(1-4))
  qed
qed

lemma reachable_inv:
  assumes "reachable n cap c" and "0 < n" and "0 < cap"
  shows "proto_inv n cap c"
  using assms by (induction rule: reachable.induct) (auto intro: proto_init_inv step_inv)

end
