(* ===== verification/Protocol_Props.thy ===== *)
theory Protocol_Props
  imports Protocol_Inv Sample
begin

text \<open>
  The properties of the concurrent protocol: no data race and no failed overflow check in any reachable
  state, broadcast FIFO under every interleaving and every admissible stale load, and the agreement of calls that
  run alone with the sequential operations of the ring.
\<close>

section \<open>Calls that run alone\<close>

text \<open>The stream a protocol state holds.\<close>

definition abs_stream :: "nat \<Rightarrow> 'v proto \<Rightarrow> 'v stream" where
  "abs_stream n c = \<lparr>msgs = published c, cursors = map (rcount c) [0..<n]\<rparr>"

definition scan_events :: "nat \<Rightarrow> nat \<Rightarrow> 'v proto \<Rightarrow> 'v event list" where
  "scan_events j n c = map (\<lambda>i. Scan (rcount c i)) [j..<n]"

text \<open>A whole push, and a whole pop, with every load returning the newest message.\<close>

definition push_events :: "nat \<Rightarrow> nat \<Rightarrow> 'v \<Rightarrow> 'v proto \<Rightarrow> 'v event list" where
  "push_events n cap v c =
     PushCall v # scan_events 0 n c @ Decide
       # (if length (published c) < slowest (abs_stream n c) + cap then [Write, Publish, Count] else [])"

definition pop_events :: "nat \<Rightarrow> 'v proto \<Rightarrow> 'v event list" where
  "pop_events i c = PopCall i (wcount c) # Cursor i # (if rcount c i < wcount c then [Read i, Store i] else [])"

lemma run_append: "run n cap (xs @ ys) c = (case run n cap xs c of Some c' \<Rightarrow> run n cap ys c' | None \<Rightarrow> None)"
  by (induction xs arbitrary: c) (auto split: option.split)

lemma step_simps:
  "\<not> crashed c \<Longrightarrow> p_step n cap e c = Some c' \<Longrightarrow> step n cap e c = Some c'"
  "\<not> crashed c \<Longrightarrow> p_step n cap e c = None \<Longrightarrow> step n cap e c = r_step n cap e c"
  by (simp_all add: step_def)

lemma inv_counts:
  assumes "proto_inv n cap c"
  shows "wcount c = length (published c)" "length (w_hist c) = Suc (length (published c))"
    "i < n \<Longrightarrow> length (r_hist c i) = Suc (rcount c i)" "i < n \<Longrightarrow> rcount c i \<le> length (published c)"
    "i < n \<Longrightarrow> last_val (r_hist c i) = rcount c i" "last_val (w_hist c) = length (published c)"
proof -
  note p = proto_invD(1) [OF assms]
  show w: "wcount c = length (published c)" using p_okD(2) [OF p] by simp
  then show "length (w_hist c) = Suc (length (published c))" using hist_okD(5) [OF p_okD(1) [OF p]] by linarith
  show "last_val (w_hist c) = length (published c)" using hist_okD(4) [OF p_okD(1) [OF p]] w by simp
  assume i: "i < n"
  note r = proto_invD(2) [OF assms i]
  show "length (r_hist c i) = Suc (rcount c i)" using hist_okD(5) [OF r_okD(1) [OF r]] by linarith
  show "rcount c i \<le> length (published c)" using r_okD(2,3) [OF r] w by linarith
  show "last_val (r_hist c i) = rcount c i" using hist_okD(4) [OF r_okD(1) [OF r]] by simp
qed

text \<open>The fields a scan leaves alone.\<close>

definition same_rings :: "'v proto \<Rightarrow> 'v proto \<Rightarrow> bool" where
  "same_rings c c' \<longleftrightarrow> w_hist c' = w_hist c \<and> r_hist c' = r_hist c \<and> published c' = published c
     \<and> answers c' = answers c \<and> got c' = got c \<and> crashed c' = crashed c \<and> r_pc c' = r_pc c"

lemma scan_run:
  assumes "proto_inv n cap c" and "0 < n" and "0 < cap" and "\<not> crashed c" and "j \<le> n"
    and "p_pc c = PScan v w j m"
  shows "\<exists>c'. run n cap (scan_events j n c) c = Some c' \<and> proto_inv n cap c' \<and> same_rings c c'
     \<and> p_pc c' = PScan v w n (foldl min m (map (rcount c) [j..<n]))"
  using assms
proof (induction "n - j" arbitrary: j m c)
  case 0
  then show ?case by (auto simp: scan_events_def same_rings_def)
next
  case (Suc k)
  then have j: "j < n" by simp
  note r = proto_invD(2) [OF Suc.prems(1) j] and pr = proto_invD(3) [OF Suc.prems(1) j]
  let ?t = "rcount c j"
  have t: "?t < length (r_hist c j)" using inv_counts(3) [OF Suc.prems(1) j] by linarith
  have val: "fst (r_hist c j ! ?t) = ?t" using hist_okD(2) [OF r_okD(1) [OF r] t] .
  obtain c1 where c1: "p_step n cap (Scan ?t) c = Some c1" "p_pc c1 = PScan v w (Suc j) (min m ?t)" "same_rings c c1"
    using Suc.prems(6) j t pr_okD(1) [OF pr] val
    by (simp add: case_prod_beta Let_def same_rings_def)
  have st: "step n cap (Scan ?t) c = Some c1" using step_simps(1) [OF Suc.prems(4) c1(1)] .
  have "\<not> crashed c1" using c1(3) Suc.prems(4) by (simp add: same_rings_def)
  moreover have k: "k = n - Suc j" using Suc.hyps(2) by simp
  moreover have "scan_events (Suc j) n c1 = scan_events (Suc j) n c" "rcount c1 = rcount c"
    using c1(3) by (auto simp: scan_events_def same_rings_def)
  ultimately obtain c' where "run n cap (scan_events (Suc j) n c) c1 = Some c'" "proto_inv n cap c'" "same_rings c1 c'"
    "p_pc c' = PScan v w n (foldl min (min m ?t) (map (rcount c) [Suc j..<n]))"
    using Suc.hyps(1) [of "Suc j" c1 "min m ?t"] k step_inv [OF Suc.prems(1-3) st] Suc.prems(2,3) c1(2) j
    by auto
  moreover have "scan_events j n c = Scan ?t # scan_events (Suc j) n c" "[j..<n] = j # [Suc j..<n]"
    using j by (simp_all add: scan_events_def upt_conv_Cons)
  ultimately show ?case using c1(3) st by (auto simp: same_rings_def simp del: step_def)
qed

lemma solo_push:
  assumes inv: "proto_inv n cap c" and pos: "0 < n" "0 < cap" and idle: "p_pc c = PIdle" "\<not> crashed c"
    and small: "length (published c) < U64_MAX"
  shows "\<exists>c'. run n cap (push_events n cap v c) c = Some c'
     \<and> abs_stream n c' = snd (stream_push cap v (abs_stream n c))
     \<and> answers c' = answers c @ [fst (stream_push cap v (abs_stream n c))] \<and> p_pc c' = PIdle \<and> \<not> crashed c'"
proof -
  let ?w = "length (published c)" and ?m = "slowest (abs_stream n c)"
  let ?c0 = "c\<lparr>p_pc := PScan v ?w 0 U64_MAX\<rparr>"
  have p0: "p_step n cap (PushCall v) c = Some ?c0" using idle inv_counts(6) [OF inv] by simp
  have inv0: "proto_inv n cap ?c0" by (rule inv_PushCall [OF inv p0])
  have "scan_events 0 n ?c0 = scan_events 0 n c" by (simp add: scan_events_def)
  then obtain c1 where c1: "run n cap (scan_events 0 n c) ?c0 = Some c1" "proto_inv n cap c1" "same_rings ?c0 c1"
    "p_pc c1 = PScan v ?w n (foldl min U64_MAX (map (rcount c) [0..<n]))"
    using scan_run [OF inv0 pos _ _, of 0 v ?w U64_MAX] idle(2) by auto
  have ne: "set (map (rcount c) [0..<n]) \<noteq> {}" using pos(1) by simp
  have mw: "?m \<le> ?w" using inv_counts(4) [OF inv, of 0] pos(1) slowest_le [of 0 "abs_stream n c"]
    by (simp add: abs_stream_def)
  have "foldl min U64_MAX (map (rcount c) [0..<n]) = min U64_MAX ?m"
    by (simp only: foldl_min_Min Min_insert [OF List.finite_set ne] abs_stream_def slowest_def stream.simps)
  then have m: "p_pc c1 = PScan v ?w n ?m" using c1(4) mw small by simp
  have keep: "published c1 = published c" "w_hist c1 = w_hist c" "r_hist c1 = r_hist c" "answers c1 = answers c"
    "\<not> crashed c1"
    using c1(3) idle(2) by (simp_all add: same_rings_def)
  show ?thesis
  proof (cases "?w < ?m + cap")
    case True
    let ?pv = "(p_view c1)\<lparr>vw := Suc (vw (p_view c1))\<rparr>"
    have "\<exists>c'. run n cap [Decide, Write, Publish, Count] c1 = Some c' \<and> published c' = published c @ [v]
       \<and> r_hist c' = r_hist c \<and> answers c' = answers c @ [True] \<and> p_pc c' = PIdle \<and> \<not> crashed c'"
      using True m keep mw small by (simp add: step_def Let_def)
    then show ?thesis using True p0 c1(1) idle(2)
      by (auto simp: push_events_def run_append step_def stream_push_def abs_stream_def)
  next
    case False
    then have "run n cap [Decide] c1 = Some (c1\<lparr>p_pc := PIdle, answers := answers c1 @ [False]\<rparr>)"
      using m keep mw by (simp add: step_def)
    then show ?thesis using False p0 c1(1) idle(2) keep
      by (auto simp: push_events_def run_append step_def stream_push_def abs_stream_def)
  qed
qed

lemma solo_pop:
  assumes inv: "proto_inv n cap c" and i: "i < n" and idle: "r_pc c i = RIdle" "\<not> crashed c"
  shows "\<exists>c'. run n cap (pop_events i c) c = Some c'
     \<and> abs_stream n c' = snd (stream_pop i (abs_stream n c))
     \<and> got c' i = got c i @ (case fst (stream_pop i (abs_stream n c)) of None \<Rightarrow> [] | Some v \<Rightarrow> [v])
     \<and> r_pc c' i = RIdle \<and> \<not> crashed c'"
proof -
  note p = proto_invD(1) [OF inv] and r = proto_invD(2) [OF inv i] and pr = proto_invD(3) [OF inv i]
  let ?w = "length (published c)" and ?r = "rcount c i"
  have w: "wcount c = ?w" "length (w_hist c) = Suc ?w" and rl: "length (r_hist c i) = Suc ?r" "?r \<le> ?w"
    "last_val (r_hist c i) = ?r"
    using inv_counts [OF inv] i by simp_all
  have val: "fst (w_hist c ! ?w) = ?w" using hist_okD(2) [OF p_okD(1) [OF p]] w(2) by simp
  have seen: "r_seen c i \<le> ?w" using r_okD(3) [OF r] w(1) by simp
  let ?c1 = "c\<lparr>r_pc := (r_pc c)(i := RCursor ?w),
      r_view := (r_view c)(i := view_join (r_view c i) (snd (w_hist c ! ?w))), r_seen := (r_seen c)(i := ?w)\<rparr>"
  have s1: "step n cap (PopCall i (wcount c)) c = Some ?c1"
    using i idle seen w val by (simp add: step_def case_prod_beta Let_def)
  have cur: "abs_stream n c = \<lparr>msgs = published c, cursors = map (rcount c) [0..<n]\<rparr>" by (simp add: abs_stream_def)
  show ?thesis
  proof (cases "?r < ?w")
    case True
    have cell: "cells c (?r mod cap) = published c ! ?r" using pr_okD(4) [OF pr] True w(1) by simp
    have small: "\<not> U64_MAX \<le> ?r" using True p_okD(3) [OF p] by simp
    have "\<exists>c'. run n cap [Cursor i, Read i, Store i] ?c1 = Some c' \<and> published c' = published c
        \<and> (\<forall>j. rcount c' j = (if j = i then Suc ?r else rcount c j)) \<and> got c' i = got c i @ [published c ! ?r]
        \<and> r_pc c' i = RIdle \<and> \<not> crashed c'"
      using i True small rl(1,3) idle(2) cell by (simp add: step_def Let_def del: last_val.simps)
    moreover have "map (rcount c') [0..<n] = (map (rcount c) [0..<n])[i := Suc ?r]"
      if "\<forall>j. rcount c' j = (if j = i then Suc ?r else rcount c j)" for c' :: "'a proto"
      using that i by (intro nth_equalityI) (auto simp: nth_list_update)
    ultimately show ?thesis using True s1 i w(1)
      by (fastforce simp: pop_events_def stream_pop_def Let_def cur abs_stream_def)
  next
    case False
    then have "run n cap [Cursor i] ?c1 = Some (?c1\<lparr>r_pc := (r_pc ?c1)(i := RIdle)\<rparr>)"
      using i rl idle(2) by (simp add: step_def del: last_val.simps)
    then show ?thesis using False s1 i w(1) idle(2)
      by (simp add: pop_events_def stream_pop_def Let_def abs_stream_def)
  qed
qed

section \<open>Properties\<close>

text \<open>
  C4. Data-race freedom. In no reachable state, whatever the interleaving of the producer with the readers
  and whatever stale values the loads return, has a slot access raced with another, and no overflow
  check has failed before \<open>u64::MAX\<close> messages were published.
\<close>

theorem concurrent_race_free:
  assumes "reachable n cap c" and "0 < n" and "0 < cap"
  shows "\<not> raced c \<and> (crashed c \<longrightarrow> length (published c) = U64_MAX)"
  using proto_invD(5,6) [OF reachable_inv [OF assms]] by blast

text \<open>Two readers and a producer with calls interleaved, and a load that returns a stale cursor.\<close>

definition sample_events :: "nat event list" where
  "sample_events =
     [PushCall 7, PopCall 0 0, Scan 0, Scan 0, Decide, Write, Cursor 0, Publish, PopCall 1 1, Count, Cursor 1,
      PushCall 9, Scan 0, Read 1, Store 1, Scan 0, Decide, Write, Publish, Count, PopCall 1 2]"

definition sample_proto :: "nat proto" where
  "sample_proto = the (run 2 2 sample_events (proto_init (\<lambda>_. 0)))"

lemma sample_proto_reachable: "reachable 2 2 sample_proto"
proof -
  have "case run 2 2 sample_events (proto_init (\<lambda>_. 0)) of None \<Rightarrow> False | Some c \<Rightarrow> True"
    by (simp add: sample_events_def proto_init_def step_def U64_MAX_def Let_def view_zero_def view_join_def)
  then have "run 2 2 sample_events (proto_init (\<lambda>_. 0)) = Some sample_proto"
    by (auto simp: sample_proto_def split: option.splits)
  then show ?thesis by (rule reachable_run [OF reachable.init])
qed

theorem concurrent_race_free_witness:
  "reachable 2 2 sample_proto \<and> \<not> raced sample_proto"
  using concurrent_race_free [OF sample_proto_reachable] sample_proto_reachable by simp

text \<open>
  C5. Concurrent broadcast FIFO. In every reachable state what each reader has popped is a prefix of
  what was published, and the producer is at most a capacity ahead of it.
\<close>

theorem concurrent_fifo:
  assumes "reachable n cap c" and "0 < n" and "0 < cap" and "i < n"
  shows "got c i = take (length (got c i)) (published c) \<and> length (got c i) \<le> length (published c)
    \<and> length (published c) \<le> length (got c i) + cap"
proof -
  note inv = reachable_inv [OF assms(1-3)]
  note r = proto_invD(2) [OF inv assms(4)] and pr = proto_invD(3) [OF inv assms(4)]
    and p = proto_invD(1) [OF inv] and cnt = inv_counts [OF inv]
  have g: "got c i = take (rcount c i) (published c)" "rcount c i \<le> length (published c)"
    using r_okD(5) [OF r] cnt(4) [OF assms(4)] by simp_all
  then have len: "length (got c i) = rcount c i" by simp
  have "length (published c) \<le> vw (p_view c)"
    using p_okD(5) [OF p] cnt(1) by (cases "p_pc c") simp_all
  then have "length (published c) \<le> rcount c i + cap" using pr_okD(3) [OF pr] by linarith
  then show ?thesis using g(2) by (simp only: len) (simp add: g(1))
qed

theorem concurrent_fifo_witness:
  "got sample_proto 1 = take (length (got sample_proto 1)) (published sample_proto)
   \<and> length (published sample_proto) \<le> length (got sample_proto 0) + 2"
  using concurrent_fifo [OF sample_proto_reachable, of 0] concurrent_fifo [OF sample_proto_reachable, of 1] by simp

text \<open>
  C14. The steps are the operations. From any reachable state in which the ring holds the same
  stream, a push or a pop whose accesses run without interruption returns what \<open>try_push\<close> or
  \<open>try_pop\<close> returns and leaves the same stream.
\<close>

theorem solo_calls_are_ring_calls:
  assumes "reachable n (cap_of r) c" and "0 < n" and "\<not> crashed c" and "length (published c) < U64_MAX"
    and "ring_rel T r (abs_stream n c)" and "p_pc c = PIdle"
    and "i < n" and "r_pc c i = RIdle" and "loan_depth r ! i = 0"
  shows "(\<exists>a r' c'. try_push b T v r = (Done a, r') \<and> run n (cap_of r) (push_events n (cap_of r) v c) c = Some c'
      \<and> answers c' = answers c @ [a] \<and> ring_rel T r' (abs_stream n c'))
    \<and> (\<exists>x r' c'. try_pop b T (of_nat i) r = (Done x, r') \<and> run n (cap_of r) (pop_events i c) c = Some c'
      \<and> got c' i = got c i @ (case x of None \<Rightarrow> [] | Some v \<Rightarrow> [v]) \<and> ring_rel T r' (abs_stream n c'))"
proof -
  have cap: "0 < cap_of r" using cap_pos [OF ring_rel_layout [OF assms(5)]] .
  note inv = reachable_inv [OF assms(1,2) cap]
  have "length (msgs (abs_stream n c)) < 2 ^ 64 - 1" using assms(4) by (simp add: abs_stream_def U64_MAX_def)
  note push = try_push_refines [OF assms(5) this, of b v]
  have i: "i < length (cursors (abs_stream n c))" using assms(7) by (simp add: abs_stream_def)
  then have uid: "unat (of_nat i :: usize) = i" using cursor_nth(2) [OF assms(5)] by (simp add: unat_reader_id)
  note pop = try_pop_refines [OF assms(5), of "of_nat i" b, unfolded uid, OF i assms(9)]
  obtain c1 where c1: "run n (cap_of r) (push_events n (cap_of r) v c) c = Some c1"
    "abs_stream n c1 = snd (stream_push (cap_of r) v (abs_stream n c))"
    "answers c1 = answers c @ [fst (stream_push (cap_of r) v (abs_stream n c))]"
    using solo_push [OF inv assms(2) cap assms(6,3,4), of v] by blast
  obtain c2 where c2: "run n (cap_of r) (pop_events i c) c = Some c2"
    "abs_stream n c2 = snd (stream_pop i (abs_stream n c))"
    "got c2 i = got c i @ (case fst (stream_pop i (abs_stream n c)) of None \<Rightarrow> [] | Some v \<Rightarrow> [v])"
    using solo_pop [OF inv assms(7,8,3)] by blast
  from push c1 have "\<exists>a r' c'. try_push b T v r = (Done a, r') \<and> run n (cap_of r) (push_events n (cap_of r) v c) c = Some c'
      \<and> answers c' = answers c @ [a] \<and> ring_rel T r' (abs_stream n c')" by metis
  moreover from pop c2 have "\<exists>x r' c'. try_pop b T (of_nat i) r = (Done x, r') \<and> run n (cap_of r) (pop_events i c) c = Some c'
      \<and> got c' i = got c i @ (case x of None \<Rightarrow> [] | Some v \<Rightarrow> [v]) \<and> ring_rel T r' (abs_stream n c')" by metis
  ultimately show ?thesis ..
qed

lemma proto_init_simps:
  "\<not> crashed (proto_init junk)" "published (proto_init junk) = []" "p_pc (proto_init junk) = PIdle"
  "r_pc (proto_init junk) i = RIdle" "answers (proto_init junk) = []" "got (proto_init junk) i = []"
  by (simp_all add: proto_init_def)

theorem solo_calls_are_ring_calls_witness:
  "\<exists>a r' c'. try_push Debug u64_pod 5 sample_ring = (Done a, r')
     \<and> run 2 2 (push_events 2 2 5 (proto_init (\<lambda>_. 0))) (proto_init (\<lambda>_. 0)) = Some c' \<and> answers c' = [a]
     \<and> ring_rel u64_pod r' (abs_stream 2 c')"
proof -
  have "abs_stream 2 (proto_init (\<lambda>_. 0) :: u64 proto) = stream_new 2"
    using upt_conv_Cons [of 0 2] upt_conv_Cons [of 1 2] by (simp add: abs_stream_def proto_init_def stream_new_2)
  then have rel: "ring_rel u64_pod sample_ring (abs_stream 2 (proto_init (\<lambda>_. 0)))" using sample_rel by simp
  have "reachable 2 (cap_of sample_ring) (proto_init (\<lambda>_. 0) :: u64 proto)" by (rule reachable.init)
  from solo_calls_are_ring_calls [OF this _ _ _ rel, of 0 Debug 5] show ?thesis
    by (simp add: proto_init_simps U64_MAX_def)
qed

end
