(* ===== verification/Notify.thy ===== *)
theory Notify
  imports Ring
begin

text \<open>
  Event notification (\<open>src/notify.rs\<close>): the \<open>EventNotify\<close> wrapper of a Linux
  eventfd, the notified push and the blocking pops. The kernel is a parameter: a record of the system
  calls the code makes, on a world that consists of the ring handle and whatever else there is, because
  while a thread is parked the other threads go on. The locale \<open>eventfd\<close> states what
  eventfd(2) and poll(2) document, and is interpreted on a simulated kernel that runs a script of other threads'
  actions. Loops that may wait forever are partial functions: \<open>None\<close> is a call that
  never returns.
\<close>

section \<open>System calls\<close>

text \<open>
  The five calls on the descriptor: \<open>eventfd\<close>, \<open>write\<close> of one unit,
  \<open>read\<close>, \<open>poll\<close> with a timeout in milliseconds (\<open>-1\<close> is none) that
  answers whether the descriptor is readable, and the monotonic clock in nanoseconds.
\<close>

record 'w kernel =
  k_eventfd :: "'w \<Rightarrow> IoErrorKind option \<times> 'w"
  k_write :: "u64 \<Rightarrow> 'w \<Rightarrow> IoErrorKind option \<times> 'w"
  k_read :: "'w \<Rightarrow> (IoErrorKind + u64) \<times> 'w"
  k_poll :: "int \<Rightarrow> 'w \<Rightarrow> (IoErrorKind + bool) \<times> 'w"
  k_now :: "'w \<Rightarrow> nat \<times> 'w"

section \<open>The notifier\<close>

definition event_new :: "'w kernel \<Rightarrow> ('w, IoErrorKind, unit) act" where
  "event_new K w =
     (case k_eventfd K w of (None, w') \<Rightarrow> (Done (), w') | (Some e, w') \<Rightarrow> (Fail e, w'))"

definition signal :: "'w kernel \<Rightarrow> ('w, IoErrorKind, unit) act" where
  "signal K w =
     (case k_write K 1 w of
        (None, w') \<Rightarrow> (Done (), w')
      | (Some e, w') \<Rightarrow> if e = IoWouldBlock then (Done (), w') else (Fail e, w'))"

definition try_wait :: "'w kernel \<Rightarrow> ('w, IoErrorKind, u64 option) act" where
  "try_wait K w =
     (case k_read K w of
        (Inr n, w') \<Rightarrow> (Done (Some n), w')
      | (Inl e, w') \<Rightarrow> if e = IoWouldBlock then (Done None, w') else (Fail e, w'))"

text \<open>\<open>Duration::as_millis\<close>, clipped to \<open>i32::MAX\<close>; no timeout is \<open>-1\<close>.\<close>

definition timeout_ms :: "nat option \<Rightarrow> int" where
  "timeout_ms t = (case t of None \<Rightarrow> - 1 | Some d \<Rightarrow> min (int (d div 1000000)) (2 ^ 31 - 1))"

partial_function (option) wait_timeout ::
  "'w kernel \<Rightarrow> nat option \<Rightarrow> 'w \<Rightarrow> ((IoErrorKind, u64 option) outcome \<times> 'w) option" where
  "wait_timeout K t w =
     (case try_wait K w of
        (Done (Some n), w1) \<Rightarrow> Some (Done (Some n), w1)
      | (Done None, w1) \<Rightarrow>
          (case k_poll K (timeout_ms t) w1 of
             (Inl e, w2) \<Rightarrow> if e = IoInterrupted then wait_timeout K t w2 else Some (Fail e, w2)
           | (Inr ready, w2) \<Rightarrow> if \<not> ready then Some (Done None, w2) else wait_timeout K t w2)
      | (Fail e, w1) \<Rightarrow> Some (Fail e, w1)
      | (Panic, w1) \<Rightarrow> Some (Panic, w1)
      | (Fault, w1) \<Rightarrow> Some (Fault, w1))"

text \<open>\<open>Ok(self.wait_timeout(None)?.unwrap_or(1))\<close>\<close>

definition wait :: "'w kernel \<Rightarrow> 'w \<Rightarrow> ((IoErrorKind, u64) outcome \<times> 'w) option" where
  "wait K w =
     map_option (\<lambda>(x, w'). (bind_out x (\<lambda>n. Done (case n of None \<Rightarrow> 1 | Some n \<Rightarrow> n)), w')) (wait_timeout K None w)"

section \<open>The ring's side\<close>

type_synonym 'k world = "SpmcRingBuffer \<times> 'k"

definition on_fst :: "'a ring_act \<Rightarrow> ('k world, ShmRingError, 'a) act" where
  "on_fst m w = (let (x, r') = m (fst w) in (x, (r', snd w)))"

text \<open>\<open>map_err(ShmRingError::Io)\<close>\<close>

definition io_act :: "('w, IoErrorKind, 'a) act \<Rightarrow> ('w, ShmRingError, 'a) act" where
  "io_act m w =
     (case m w of (x, w') \<Rightarrow>
       ((case x of Done a \<Rightarrow> Done a | Fail e \<Rightarrow> Fail (Io e) | Panic \<Rightarrow> Panic | Fault \<Rightarrow> Fault), w'))"

definition push_notified ::
  "build \<Rightarrow> 'a pod \<Rightarrow> 'k world kernel \<Rightarrow> 'a \<Rightarrow> ('k world, ShmRingError, bool) act" where
  "push_notified b T K v =
     bind_act (on_fst (try_push b T v)) (\<lambda>pushed.
       if pushed then bind_act (io_act (signal K)) (\<lambda>_. ret True) else ret False)"

partial_function (option) pop_blocking ::
  "build \<Rightarrow> 'a pod \<Rightarrow> 'k world kernel \<Rightarrow> usize \<Rightarrow> 'k world
     \<Rightarrow> ((ShmRingError, 'a option) outcome \<times> 'k world) option" where
  "pop_blocking b T K rid w =
     (case on_fst (try_pop b T rid) w of
        (Done (Some v), w1) \<Rightarrow> Some (Done (Some v), w1)
      | (Done None, w1) \<Rightarrow>
          (case wait K w1 of
             None \<Rightarrow> None
           | Some (x, w2) \<Rightarrow>
               (case x of
                  Done _ \<Rightarrow> pop_blocking b T K rid w2
                | Fail e \<Rightarrow> Some (Fail (Io e), w2)
                | Panic \<Rightarrow> Some (Panic, w2)
                | Fault \<Rightarrow> Some (Fault, w2)))
      | (Fail e, w1) \<Rightarrow> Some (Fail e, w1)
      | (Panic, w1) \<Rightarrow> Some (Panic, w1)
      | (Fault, w1) \<Rightarrow> Some (Fault, w1))"

partial_function (option) pop_until ::
  "build \<Rightarrow> 'a pod \<Rightarrow> 'k world kernel \<Rightarrow> usize \<Rightarrow> nat \<Rightarrow> 'k world
     \<Rightarrow> ((ShmRingError, 'a option) outcome \<times> 'k world) option" where
  "pop_until b T K rid deadline w =
     (case on_fst (try_pop b T rid) w of
        (Done (Some v), w1) \<Rightarrow> Some (Done (Some v), w1)
      | (Done None, w1) \<Rightarrow>
          (case k_now K w1 of (now, w2) \<Rightarrow>
             if deadline \<le> now then Some (Done None, w2)
             else
               (case wait_timeout K (Some (deadline - now)) w2 of
                  None \<Rightarrow> None
                | Some (x, w3) \<Rightarrow>
                    (case x of
                       Done (Some _) \<Rightarrow> pop_until b T K rid deadline w3
                     | Done None \<Rightarrow> Some (Done None, w3)
                     | Fail e \<Rightarrow> Some (Fail (Io e), w3)
                     | Panic \<Rightarrow> Some (Panic, w3)
                     | Fault \<Rightarrow> Some (Fault, w3))))
      | (Fail e, w1) \<Rightarrow> Some (Fail e, w1)
      | (Panic, w1) \<Rightarrow> Some (Panic, w1)
      | (Fault, w1) \<Rightarrow> Some (Fault, w1))"

text \<open>
  The end of the range of \<open>Instant\<close>, a signed 64-bit count of seconds on Linux; adding a duration
  past it panics in every build.
\<close>

definition INSTANT_LIMIT :: nat where "INSTANT_LIMIT = 2 ^ 63 * 1000000000"

definition pop_blocking_timeout ::
  "build \<Rightarrow> 'a pod \<Rightarrow> 'k world kernel \<Rightarrow> usize \<Rightarrow> nat \<Rightarrow> 'k world
     \<Rightarrow> ((ShmRingError, 'a option) outcome \<times> 'k world) option" where
  "pop_blocking_timeout b T K rid timeout w =
     (case k_now K w of (now, w1) \<Rightarrow>
       if INSTANT_LIMIT \<le> now + timeout then Some (Panic, w1) else pop_until b T K rid (now + timeout) w1)"

section \<open>What eventfd and poll promise\<close>

text \<open>The largest counter value of an eventfd.\<close>

definition EFD_MAX :: nat where "EFD_MAX = 2 ^ 64 - 2"

text \<open>
  \<open>pending\<close> is the counter, \<open>frame\<close> the part of the world that a call
  which does not block leaves alone. A read takes the whole counter: the descriptor is created
  without \<open>EFD_SEMAPHORE\<close>.
\<close>

locale eventfd =
  fixes K :: "'w kernel"
    and pending :: "'w \<Rightarrow> nat"
    and frame :: "'w \<Rightarrow> 'f"
  assumes pending_max: "pending w \<le> EFD_MAX"
    and write_unit: "pending w < EFD_MAX \<Longrightarrow>
      \<exists>w'. k_write K 1 w = (None, w') \<and> pending w' = Suc (pending w) \<and> frame w' = frame w"
    and write_full: "pending w = EFD_MAX \<Longrightarrow> k_write K 1 w = (Some IoWouldBlock, w)"
    and read_units: "0 < pending w \<Longrightarrow>
      \<exists>w'. k_read K w = (Inr (of_nat (pending w)), w') \<and> pending w' = 0 \<and> frame w' = frame w"
    and read_empty: "pending w = 0 \<Longrightarrow> k_read K w = (Inl IoWouldBlock, w)"
    and poll_level: "0 < pending w \<Longrightarrow> k_poll K t w = (Inr True, w)"
    and poll_ready: "k_poll K t w = (Inr True, w') \<Longrightarrow> 0 < pending w'"
    and poll_no_timeout: "k_poll K (- 1) w \<noteq> (Inr False, w')"
    and now_keeps: "k_now K w = (t', w') \<Longrightarrow> pending w' = pending w \<and> frame w' = frame w"

context eventfd begin

lemma signal_adds:
  obtains w' where "signal K w = (Done (), w')" and "pending w' = min (Suc (pending w)) EFD_MAX"
    and "frame w' = frame w"
proof (cases "pending w < EFD_MAX")
  case True
  with write_unit show ?thesis by (fastforce simp: signal_def intro: that)
next
  case False
  with pending_max [of w] have full: "pending w = EFD_MAX" by simp
  with write_full [OF this] show ?thesis by (intro that [of w]) (simp_all add: signal_def)
qed

lemma try_wait_drains:
  assumes "0 < pending w"
  obtains w' where "try_wait K w = (Done (Some (of_nat (pending w))), w')" and "pending w' = 0"
    and "frame w' = frame w"
  using read_units [OF assms] by (fastforce simp: try_wait_def intro: that)

lemma try_wait_empty: "pending w = 0 \<Longrightarrow> try_wait K w = (Done None, w)"
  by (simp add: try_wait_def read_empty)

text \<open>Units that are already there are taken without parking.\<close>

lemma wait_timeout_pending:
  assumes "0 < pending w"
  obtains w' where "wait_timeout K t w = Some (Done (Some (of_nat (pending w))), w')" and "pending w' = 0"
    and "frame w' = frame w"
proof -
  obtain w' where "try_wait K w = (Done (Some (of_nat (pending w))), w')" "pending w' = 0" "frame w' = frame w"
    by (rule try_wait_drains [OF assms])
  then show ?thesis by (intro that [of w']) (simp_all add: wait_timeout.simps [of K t w])
qed

text \<open>Otherwise the thread parks, and a wakeup delivers the units.\<close>

lemma wait_timeout_woken:
  assumes "pending w = 0" and "k_poll K (timeout_ms t) w = (Inr True, w1)"
  obtains w' where "wait_timeout K t w = Some (Done (Some (of_nat (pending w1))), w')" and "pending w' = 0"
    and "frame w' = frame w1"
proof -
  obtain w' where w': "wait_timeout K t w1 = Some (Done (Some (of_nat (pending w1))), w')" "pending w' = 0"
    "frame w' = frame w1"
    by (rule wait_timeout_pending [OF poll_ready [OF assms(2)]])
  have "wait_timeout K t w = wait_timeout K t w1"
    by (subst wait_timeout.simps) (simp add: try_wait_empty [OF assms(1)] assms(2))
  with w' show ?thesis by (intro that [of w']) simp_all
qed

lemma wait_timeout_expired:
  assumes "pending w = 0" and "k_poll K (timeout_ms t) w = (Inr False, w1)"
  shows "wait_timeout K t w = Some (Done None, w1)"
  by (subst wait_timeout.simps) (simp add: try_wait_empty [OF assms(1)] assms(2))

text \<open>An interrupted poll starts over with the same timeout, however much of it has passed.\<close>

lemma wait_timeout_interrupted:
  assumes "pending w = 0" and "k_poll K (timeout_ms t) w = (Inl IoInterrupted, w1)"
  shows "wait_timeout K t w = wait_timeout K t w1"
  by (subst wait_timeout.simps) (simp add: try_wait_empty [OF assms(1)] assms(2))

lemma wait_woken:
  assumes "pending w = 0" and "k_poll K (- 1) w = (Inr True, w1)"
  obtains n w' where "wait K w = Some (Done n, w')" and "pending w' = 0" and "frame w' = frame w1"
proof -
  have "k_poll K (timeout_ms None) w = (Inr True, w1)" using assms(2) by (simp add: timeout_ms_def)
  then obtain w' where "wait_timeout K None w = Some (Done (Some (of_nat (pending w1))), w')" "pending w' = 0"
    "frame w' = frame w1"
    by (rule wait_timeout_woken [OF assms(1)])
  then show ?thesis by (intro that [of "of_nat (pending w1)" w']) (simp_all add: wait_def)
qed

end

section \<open>A simulated kernel\<close>

text \<open>What other threads do while a thread is parked, one entry per wakeup.\<close>

datatype 'v other = OPush 'v | OIntr | OElapse nat

record 'v sim =
  s_count :: nat
  s_clock :: nat
  s_script :: "'v other list"

text \<open>
  With an empty script and no timeout the thread is parked forever, which the simulation renders as
  interruptions without end.
\<close>

definition sim_poll :: "build \<Rightarrow> 'v pod \<Rightarrow> int \<Rightarrow> 'v sim world \<Rightarrow> (IoErrorKind + bool) \<times> 'v sim world" where
  "sim_poll b T t w =
     (case w of (r, s) \<Rightarrow>
       if 0 < s_count s then (Inr True, w)
       else case s_script s of
         [] \<Rightarrow> if 0 \<le> t then (Inr False, (r, s\<lparr>s_clock := s_clock s + nat t * 1000000\<rparr>)) else (Inl IoInterrupted, w)
       | OPush v # es \<Rightarrow>
           (case try_push b T v r of
              (Done True, r') \<Rightarrow> (Inr True, (r', s\<lparr>s_count := 1, s_script := es\<rparr>))
            | (_, r') \<Rightarrow> (Inl IoInterrupted, (r', s\<lparr>s_script := es\<rparr>)))
       | OIntr # es \<Rightarrow> (Inl IoInterrupted, (r, s\<lparr>s_script := es\<rparr>))
       | OElapse d # es \<Rightarrow>
           if 0 \<le> t \<and> nat t * 1000000 \<le> d
           then (Inr False, (r, s\<lparr>s_clock := s_clock s + nat t * 1000000, s_script := es\<rparr>))
           else (Inl IoInterrupted, (r, s\<lparr>s_clock := s_clock s + d, s_script := es\<rparr>)))"

definition sim_kernel :: "build \<Rightarrow> 'v pod \<Rightarrow> 'v sim world kernel" where
  "sim_kernel b T =
     \<lparr> k_eventfd = (\<lambda>(r, s). (None, (r, s\<lparr>s_count := 0\<rparr>))),
       k_write = (\<lambda>_ (r, s). if s_count s < EFD_MAX then (None, (r, s\<lparr>s_count := Suc (s_count s)\<rparr>))
                               else (Some IoWouldBlock, (r, s))),
       k_read = (\<lambda>(r, s). if 0 < s_count s
                  then (Inr (of_nat (min (s_count s) EFD_MAX)), (r, s\<lparr>s_count := 0\<rparr>)) else (Inl IoWouldBlock, (r, s))),
       k_poll = sim_poll b T,
       k_now = (\<lambda>(r, s). (s_clock s, (r, s))) \<rparr>"

definition sim_pending :: "'v sim world \<Rightarrow> nat" where
  "sim_pending w = min (s_count (snd w)) EFD_MAX"

interpretation sim: eventfd "sim_kernel b T" sim_pending fst
proof unfold_locales
  fix w :: "'a sim world" and t w'
  have EFD: "0 < EFD_MAX" by (simp add: EFD_MAX_def)
  obtain r s where w: "w = (r, s)" by (cases w)
  show "sim_pending w \<le> EFD_MAX" by (simp add: sim_pending_def)
  show "\<exists>w'. k_write (sim_kernel b T) 1 w = (None, w') \<and> sim_pending w' = Suc (sim_pending w) \<and> fst w' = fst w"
    if "sim_pending w < EFD_MAX"
    using that by (auto simp: w sim_kernel_def sim_pending_def min_def split: if_splits)
  show "k_write (sim_kernel b T) 1 w = (Some IoWouldBlock, w)" if "sim_pending w = EFD_MAX"
    using that by (auto simp: w sim_kernel_def sim_pending_def min_def split: if_splits)
  show "\<exists>w'. k_read (sim_kernel b T) w = (Inr (of_nat (sim_pending w)), w') \<and> sim_pending w' = 0 \<and> fst w' = fst w"
    if "0 < sim_pending w"
    using that by (auto simp: w sim_kernel_def sim_pending_def)
  show "k_read (sim_kernel b T) w = (Inl IoWouldBlock, w)" if "sim_pending w = 0"
    using that EFD by (auto simp: w sim_kernel_def sim_pending_def min_def split: if_splits)
  show "k_poll (sim_kernel b T) t w = (Inr True, w)" if "0 < sim_pending w"
    using that by (auto simp: w sim_kernel_def sim_pending_def sim_poll_def)
  show "0 < sim_pending w'" if "k_poll (sim_kernel b T) t w = (Inr True, w')"
    using that EFD
    by (auto simp: w sim_kernel_def sim_pending_def sim_poll_def split: if_splits list.splits other.splits prod.splits
        outcome.splits bool.splits)
  show "k_poll (sim_kernel b T) (- 1) w \<noteq> (Inr False, w')"
    by (auto simp: w sim_kernel_def sim_poll_def split: if_splits list.splits other.splits prod.splits
        outcome.splits bool.splits)
  show "sim_pending w' = sim_pending w \<and> fst w' = fst w" if "k_now (sim_kernel b T) w = (t', w')" for t'
    using that by (auto simp: w sim_kernel_def)
qed

end
