(* ===== verification/Notify_Props.thy ===== *)
theory Notify_Props
  imports Notify Sample
begin

text \<open>
  The properties of the notification layer, call by call: what a notified push signals, when a
  blocking or a timed pop returns and with what, and how precise the timed wait is. (Schedules of several
  threads are the subject of \<open>Wakeup\<close>.)
\<close>

section \<open>Notified push, blocking pop\<close>

text \<open>
  C23. A notified push signals exactly when it published: an accepted push adds one unit to the counter
  (unless it is full, which is no error), after the message is in the ring; a refused one changes
  nothing and signals nothing.
\<close>

theorem push_notified_signals:
  assumes "eventfd K pending fst" and "ring_rel T (fst w) S" and "length (msgs S) < 2 ^ 64 - 1"
  shows "if length (msgs S) < slowest S + cap_of (fst w)
    then \<exists>w'. push_notified b T K v w = (Done True, w') \<and> ring_rel T (fst w') (S\<lparr>msgs := msgs S @ [v]\<rparr>)
      \<and> pending w' = min (Suc (pending (pushed_state T v (fst w), snd w))) EFD_MAX
    else push_notified b T K v w = (Done False, w)"
proof (cases "length (msgs S) < slowest S + cap_of (fst w)")
  case True
  let ?w = "(pushed_state T v (fst w), snd w)"
  have push: "try_push b T v (fst w) = (Done True, pushed_state T v (fst w))"
    using try_push_exec [OF assms(2,3), of b v] True by simp
  then have "ring_rel T (pushed_state T v (fst w)) (S\<lparr>msgs := msgs S @ [v]\<rparr>)"
    using try_push_refines [OF assms(2,3), of b v] True by (simp add: stream_push_def)
  moreover obtain w' where "signal K ?w = (Done (), w')" "pending w' = min (Suc (pending ?w)) EFD_MAX" "fst w' = fst ?w"
    by (rule eventfd.signal_adds [OF assms(1)])
  ultimately show ?thesis using True push
    by (auto simp: push_notified_def on_fst_def bind_act_def io_act_def act_simps)
next
  case False
  then show ?thesis using try_push_exec [OF assms(2,3), of b v]
    by (simp add: push_notified_def on_fst_def bind_act_def act_simps)
qed

lemma sim_eventfd: "eventfd (sim_kernel b T) sim_pending fst"
  by (rule sim.eventfd_axioms)

definition quiet_sim :: "'v other list \<Rightarrow> 'v sim" where
  "quiet_sim es = \<lparr>s_count = 0, s_clock = 0, s_script = es\<rparr>"

lemma quiet_sim_simps [simp]: "sim_pending (r, quiet_sim es) = 0" "s_script (quiet_sim es) = es"
  "s_count (quiet_sim es) = 0" "s_clock (quiet_sim es) = 0"
  by (simp_all add: sim_pending_def quiet_sim_def)

theorem push_notified_signals_witness:
  "(\<exists>w'. push_notified Debug u64_pod (sim_kernel Debug u64_pod) 5 (sample_ring, quiet_sim []) = (Done True, w')
      \<and> sim_pending w' = 1)
   \<and> push_notified Debug u64_pod (sim_kernel Debug u64_pod) 5 (sample_full, quiet_sim [])
     = (Done False, (sample_full, quiet_sim []))"
proof
  have one: "min (Suc 0) EFD_MAX = 1" by (simp add: EFD_MAX_def)
  show "\<exists>w'. push_notified Debug u64_pod (sim_kernel Debug u64_pod) 5 (sample_ring, quiet_sim []) = (Done True, w')
      \<and> sim_pending w' = 1"
    using push_notified_signals [OF sim_eventfd [of Debug u64_pod], where w = "(sample_ring, quiet_sim [])" and S = "stream_new 2"
        and T = u64_pod and b = Debug and v = 5] sample_rel one
    by (auto simp: stream_new_2 slowest_def)
  show "push_notified Debug u64_pod (sim_kernel Debug u64_pod) 5 (sample_full, quiet_sim [])
     = (Done False, (sample_full, quiet_sim []))"
    using push_notified_signals [OF sim_eventfd [of Debug u64_pod], where w = "(sample_full, quiet_sim [])" and S = full_stream
        and T = u64_pod and b = Debug and v = 5] sample_full_rel
    by simp
qed

lemma pop_blocking_ready:
  assumes "ring_rel T r S" and "unat rid < length (cursors S)" and "loan_depth r ! unat rid = 0"
    and "cursors S ! unat rid < length (msgs S)"
  shows "pop_blocking b T K rid (r, k) = Some (Done (Some (msgs S ! (cursors S ! unat rid))), (popped_state rid r, k))"
  using try_pop_exec [OF assms(1-3), of b] assms(4)
  by (subst pop_blocking.simps) (simp add: on_fst_def)

text \<open>An empty ring parks the thread; once woken, it looks again.\<close>

lemma pop_blocking_parks:
  assumes "ring_rel T r S" and "unat rid < length (cursors S)" and "loan_depth r ! unat rid = 0"
    and "cursors S ! unat rid = length (msgs S)" and "wait K (r, k) = Some (Done n, w')"
  shows "pop_blocking b T K rid (r, k) = pop_blocking b T K rid w'"
  using try_pop_exec [OF assms(1-3), of b] assms(4,5)
  by (subst pop_blocking.simps) (simp add: on_fst_def)

text \<open>
  Whatever a blocking pop returns as a message was returned by its last \<open>try_pop\<close>, in whatever
  state the other threads had left the ring by then; and it never returns \<open>Ok(None)\<close>, for any
  kernel.
\<close>

lemma pop_blocking_result:
  assumes "pop_blocking b T K rid w = Some y"
  shows "fst y \<noteq> Done None
    \<and> (\<forall>v. fst y = Done (Some v) \<longrightarrow> (\<exists>w1. on_fst (try_pop b T rid) w1 = (Done (Some v), snd y)))"
  using assms
proof (induction rule: pop_blocking.raw_induct [rotated, consumes 1, case_names step])
  case (step rec b T K rid w y)
  obtain x w1 where pop: "on_fst (try_pop b T rid) w = (x, w1)" by (cases "on_fst (try_pop b T rid) w")
  show ?case
  proof (cases "x = Done None")
    case True
    with step(2) pop obtain x2 w2 where wait: "wait K w1 = Some (x2, w2)"
      by (auto split: option.splits)
    with step(2) pop True consider n where "x2 = Done n" "rec b T K rid w2 = Some y" | "\<nexists>a. fst y = Done a"
      by (auto split: outcome.splits)
    then show ?thesis using step(1) by cases auto
  next
    case False
    with step(2) pop have "y = (x, w1)" by (auto split: outcome.splits option.splits)
    with False pop show ?thesis by (metis fst_conv snd_conv)
  qed
qed

text \<open>
  C22. A blocking pop with a message at hand returns it without a system call. With none, it first takes
  the units that are left over from messages it has already popped and looks again; with no unit either it parks,
  and when a push wakes it, it returns the message it was woken for and leaves no unit behind.
\<close>

theorem pop_blocking_delivers:
  assumes "eventfd K pending fst" and "ring_rel T (fst w) S" and "unat rid < length (cursors S)"
    and "loan_depth (fst w) ! unat rid = 0"
  shows "(cursors S ! unat rid < length (msgs S) \<longrightarrow>
      pop_blocking b T K rid w = Some (Done (Some (msgs S ! (cursors S ! unat rid))), (popped_state rid (fst w), snd w)))
    \<and> (cursors S ! unat rid = length (msgs S) \<and> 0 < pending w \<longrightarrow>
      (\<exists>w'. pop_blocking b T K rid w = pop_blocking b T K rid w' \<and> fst w' = fst w \<and> pending w' = 0))
    \<and> (\<forall>w1 S1. cursors S ! unat rid = length (msgs S) \<and> pending w = 0 \<and> k_poll K (- 1) w = (Inr True, w1)
        \<and> ring_rel T (fst w1) S1 \<and> cursors S1 = cursors S \<and> length (msgs S) < length (msgs S1)
        \<and> loan_depth (fst w1) ! unat rid = 0 \<longrightarrow>
      (\<exists>k'. pop_blocking b T K rid w = Some (Done (Some (msgs S1 ! length (msgs S))), (popped_state rid (fst w1), k'))
        \<and> pending (fst w1, k') = 0))"
proof (intro conjI impI allI)
  show "pop_blocking b T K rid w = Some (Done (Some (msgs S ! (cursors S ! unat rid))), (popped_state rid (fst w), snd w))"
    if "cursors S ! unat rid < length (msgs S)"
    using pop_blocking_ready [OF assms(2-4) that, of b K "snd w"] by simp
next
  assume *: "cursors S ! unat rid = length (msgs S) \<and> 0 < pending w"
  then obtain w' where w': "wait_timeout K None w = Some (Done (Some (of_nat (pending w))), w')" "pending w' = 0"
    "fst w' = fst w"
    using eventfd.wait_timeout_pending [OF assms(1)] by metis
  then have "wait K w = Some (Done (of_nat (pending w)), w')" by (simp add: wait_def)
  then have "pop_blocking b T K rid w = pop_blocking b T K rid w'"
    using pop_blocking_parks [OF assms(2-4), of K "snd w" "of_nat (pending w)" w' b] * by simp
  with w' show "\<exists>w'. pop_blocking b T K rid w = pop_blocking b T K rid w' \<and> fst w' = fst w \<and> pending w' = 0"
    by blast
next
  fix w1 S1
  assume *: "cursors S ! unat rid = length (msgs S) \<and> pending w = 0 \<and> k_poll K (- 1) w = (Inr True, w1)
        \<and> ring_rel T (fst w1) S1 \<and> cursors S1 = cursors S \<and> length (msgs S) < length (msgs S1)
        \<and> loan_depth (fst w1) ! unat rid = 0"
  then obtain n w' where w': "wait K w = Some (Done n, w')" "pending w' = 0" "fst w' = fst w1"
    using eventfd.wait_woken [OF assms(1)] by metis
  have "pop_blocking b T K rid w = pop_blocking b T K rid (fst w1, snd w')"
    using pop_blocking_parks [OF assms(2-4), of K "snd w" n w' b] w' * by (metis prod.collapse)
  also have "\<dots> = Some (Done (Some (msgs S1 ! length (msgs S))), (popped_state rid (fst w1), snd w'))"
    using pop_blocking_ready [of T "fst w1" S1 rid b K "snd w'"] * assms(3) by simp
  finally show "\<exists>k'. pop_blocking b T K rid w = Some (Done (Some (msgs S1 ! length (msgs S))), (popped_state rid (fst w1), k'))
        \<and> pending (fst w1, k') = 0"
    using w' by (metis prod.collapse)
qed

lemma sim_poll_push:
  assumes "ring_rel T r S" and "length (msgs S) < 2 ^ 64 - 1" and "length (msgs S) < slowest S + cap_of r"
  shows "k_poll (sim_kernel b T) t (r, \<lparr>s_count = 0, s_clock = c, s_script = OPush v # es\<rparr>)
    = (Inr True, (pushed_state T v r, \<lparr>s_count = 1, s_clock = c, s_script = es\<rparr>))"
  using try_push_exec [OF assms(1,2), of b v] assms(3) by (simp add: sim_kernel_def sim_poll_def)

theorem pop_blocking_delivers_witness:
  "(\<exists>k'. pop_blocking Debug u64_pod (sim_kernel Debug u64_pod) 0 (sample_ring, quiet_sim [OPush 5])
     = Some (Done (Some 5), (popped_state 0 (pushed_state u64_pod 5 sample_ring), k')))
   \<and> pop_blocking Debug u64_pod (sim_kernel Debug u64_pod) 0 (sample_full, quiet_sim [])
     = Some (Done (Some 7), (popped_state 0 sample_full, quiet_sim []))"
proof
  let ?K = "sim_kernel Debug u64_pod"
  have poll: "k_poll ?K (- 1) (sample_ring, quiet_sim [OPush 5])
    = (Inr True, (pushed_state u64_pod 5 sample_ring, \<lparr>s_count = 1, s_clock = 0, s_script = []\<rparr>))"
    using sim_poll_push [OF sample_rel] by (simp add: quiet_sim_def stream_new_2 slowest_def)
  have loans: "loan_depth (pushed_state u64_pod 5 sample_ring) ! 0 = 0" by (simp add: pushed_state_def)
  show "\<exists>k'. pop_blocking Debug u64_pod ?K 0 (sample_ring, quiet_sim [OPush 5])
     = Some (Done (Some 5), (popped_state 0 (pushed_state u64_pod 5 sample_ring), k'))"
    using pop_blocking_delivers [OF sim_eventfd [of Debug u64_pod], where w = "(sample_ring, quiet_sim [OPush 5])"
        and S = "stream_new 2" and T = u64_pod and rid = 0 and b = Debug] sample_rel poll sample_pushed_rel [of 5] loans
    by (fastforce simp: stream_new_2)
  show "pop_blocking Debug u64_pod ?K 0 (sample_full, quiet_sim []) = Some (Done (Some 7), (popped_state 0 sample_full, quiet_sim []))"
    using pop_blocking_delivers [OF sim_eventfd [of Debug u64_pod], where w = "(sample_full, quiet_sim [])"
        and S = full_stream and T = u64_pod and rid = 0 and b = Debug] sample_full_rel by simp
qed

section \<open>Timed pop\<close>

lemma pop_until_ready:
  assumes "ring_rel T (fst w) S" and "unat rid < length (cursors S)" and "loan_depth (fst w) ! unat rid = 0"
    and "cursors S ! unat rid < length (msgs S)"
  shows "pop_until b T K rid dl w = Some (Done (Some (msgs S ! (cursors S ! unat rid))), (popped_state rid (fst w), snd w))"
  using try_pop_exec [OF assms(1-3), of b] assms(4)
  by (subst pop_until.simps) (simp add: on_fst_def)

lemma pop_until_empty:
  assumes "ring_rel T (fst w) S" and "unat rid < length (cursors S)" and "loan_depth (fst w) ! unat rid = 0"
    and "cursors S ! unat rid = length (msgs S)" and "k_now K w = (now, w1)"
  shows "dl \<le> now \<Longrightarrow> pop_until b T K rid dl w = Some (Done None, w1)"
    and "now < dl \<Longrightarrow> wait_timeout K (Some (dl - now)) w1 = Some (Done None, w2)
      \<Longrightarrow> pop_until b T K rid dl w = Some (Done None, w2)"
    and "now < dl \<Longrightarrow> wait_timeout K (Some (dl - now)) w1 = Some (Done (Some n), w2)
      \<Longrightarrow> pop_until b T K rid dl w = pop_until b T K rid dl w2"
  using try_pop_exec [OF assms(1-3), of b] assms(4,5)
  by (subst pop_until.simps; simp add: on_fst_def)+

text \<open>
  The timed pop: a message at hand is returned whatever the timeout, zero included. With none, it
  returns \<open>Ok(None)\<close> at once when the deadline has come, and otherwise parks for the remaining
  time: it returns \<open>Ok(None)\<close> if that runs out, and the message if a push wakes it.
\<close>

lemma pop_timeout_cases:
  assumes "eventfd K pending fst" and "ring_rel T (fst w) S" and "unat rid < length (cursors S)"
    and "loan_depth (fst w) ! unat rid = 0" and "k_now K w = (t0, w1)" and "t0 + d < INSTANT_LIMIT"
  shows "(cursors S ! unat rid < length (msgs S) \<longrightarrow> pop_blocking_timeout b T K rid d w
      = Some (Done (Some (msgs S ! (cursors S ! unat rid))), (popped_state rid (fst w), snd w1)))
    \<and> (\<forall>now w2. cursors S ! unat rid = length (msgs S) \<and> k_now K w1 = (now, w2) \<longrightarrow>
        (t0 + d \<le> now \<longrightarrow> pop_blocking_timeout b T K rid d w = Some (Done None, w2))
      \<and> (\<forall>w3. now < t0 + d \<and> pending w = 0
            \<and> k_poll K (timeout_ms (Some (t0 + d - now))) w2 = (Inr False, w3) \<longrightarrow>
          pop_blocking_timeout b T K rid d w = Some (Done None, w3))
      \<and> (\<forall>w3 S1. now < t0 + d \<and> pending w = 0
            \<and> k_poll K (timeout_ms (Some (t0 + d - now))) w2 = (Inr True, w3)
            \<and> ring_rel T (fst w3) S1 \<and> cursors S1 = cursors S \<and> length (msgs S) < length (msgs S1)
            \<and> loan_depth (fst w3) ! unat rid = 0 \<longrightarrow>
          (\<exists>k'. pop_blocking_timeout b T K rid d w
             = Some (Done (Some (msgs S1 ! length (msgs S))), (popped_state rid (fst w3), k')))))"
proof -
  let ?wait = "\<lambda>now. wait_timeout K (Some (t0 + d - now))"
  have step: "pop_blocking_timeout b T K rid d w = pop_until b T K rid (t0 + d) w1"
    using assms(6) by (simp add: pop_blocking_timeout_def assms(5))
  have w1: "fst w1 = fst w" "pending w1 = pending w" using eventfd.now_keeps [OF assms(1,5)] by auto
  note at_w1 = assms(2-4) [folded w1(1)]
  have "pop_blocking_timeout b T K rid d w = Some (Done None, w2)"
    if "cursors S ! unat rid = length (msgs S)" "k_now K w1 = (now, w2)" "t0 + d \<le> now" for now w2
    using pop_until_empty(1) [OF at_w1 that(1,2)] that(3) step by simp
  moreover have "pop_blocking_timeout b T K rid d w = Some (Done None, w3)"
    if e: "cursors S ! unat rid = length (msgs S)" "k_now K w1 = (now, w2)" "now < t0 + d" "pending w = 0"
      "k_poll K (timeout_ms (Some (t0 + d - now))) w2 = (Inr False, w3)" for now w2 w3
  proof -
    have "pending w2 = 0" using eventfd.now_keeps [OF assms(1) e(2)] w1 e(4) by simp
    from eventfd.wait_timeout_expired [OF assms(1) this e(5)] have "?wait now w2 = Some (Done None, w3)" .
    from pop_until_empty(2) [OF at_w1 e(1,2,3) this] show ?thesis using step by simp
  qed
  moreover have "\<exists>k'. pop_blocking_timeout b T K rid d w
      = Some (Done (Some (msgs S1 ! length (msgs S))), (popped_state rid (fst w3), k'))"
    if e: "cursors S ! unat rid = length (msgs S)" "k_now K w1 = (now, w2)" "now < t0 + d" "pending w = 0"
      "k_poll K (timeout_ms (Some (t0 + d - now))) w2 = (Inr True, w3)" "ring_rel T (fst w3) S1"
      "cursors S1 = cursors S" "length (msgs S) < length (msgs S1)" "loan_depth (fst w3) ! unat rid = 0" for now w2 w3 S1
  proof -
    have "pending w2 = 0" using eventfd.now_keeps [OF assms(1) e(2)] w1 e(4) by simp
    then obtain n w4 where w4: "?wait now w2 = Some (Done (Some n), w4)" "fst w4 = fst w3"
      using eventfd.wait_timeout_woken [OF assms(1) _ e(5)] by metis
    have "pop_until b T K rid (t0 + d) w1 = pop_until b T K rid (t0 + d) w4"
      by (rule pop_until_empty(3) [OF at_w1 e(1,2,3) w4(1)])
    then show ?thesis using pop_until_ready [of T w4 S1 rid b K "t0 + d"] e assms(3) w4(2) step by simp
  qed
  moreover have "cursors S ! unat rid < length (msgs S) \<longrightarrow> pop_blocking_timeout b T K rid d w
      = Some (Done (Some (msgs S ! (cursors S ! unat rid))), (popped_state rid (fst w), snd w1))"
    using pop_until_ready [OF at_w1, of b K "t0 + d"] step w1 by simp
  ultimately show ?thesis by (intro conjI allI impI) blast+
qed

lemma sim_poll_elapse:
  "k_poll (sim_kernel b T) t (r, \<lparr>s_count = 0, s_clock = c, s_script = OElapse d # es\<rparr>)
    = (if 0 \<le> t \<and> nat t * 1000000 \<le> d
       then (Inr False, (r, \<lparr>s_count = 0, s_clock = c + nat t * 1000000, s_script = es\<rparr>))
       else (Inl IoInterrupted, (r, \<lparr>s_count = 0, s_clock = c + d, s_script = es\<rparr>)))"
  by (simp add: sim_kernel_def sim_poll_def)

lemma sim_poll_silent:
  assumes "0 \<le> t"
  shows "k_poll (sim_kernel b T) t (r, \<lparr>s_count = 0, s_clock = c, s_script = []\<rparr>)
    = (Inr False, (r, \<lparr>s_count = 0, s_clock = c + nat t * 1000000, s_script = []\<rparr>))"
  using assms by (simp add: sim_kernel_def sim_poll_def)

lemma sim_now: "k_now (sim_kernel b T) (r, s) = (s_clock s, (r, s))"
  by (simp add: sim_kernel_def)

text \<open>
  The wait is rounded down to milliseconds: with less than a millisecond left the thread does not
  park at all, and the timed pop returns \<open>Ok(None)\<close> before its deadline has come. An interrupted wait
  starts over with its whole timeout, so \<open>n\<close> interruptions, each short of the timeout, make it
  last as long as all of them and the timeout together. And a timeout that no \<open>Instant\<close> can hold is a
  panic, not a wait without end.
\<close>

lemma timed_wait_imprecise:
  "timeout_ms (Some (d mod 1000000)) = 0
   \<and> pop_until b u64_pod (sim_kernel b u64_pod) 0 (c + d mod 1000000)
        (sample_ring, \<lparr>s_count = 0, s_clock = c, s_script = []\<rparr>)
      = Some (Done None, (sample_ring, \<lparr>s_count = 0, s_clock = c, s_script = []\<rparr>))
   \<and> wait_timeout (sim_kernel b u64_pod) (Some 5000000)
        (r, \<lparr>s_count = 0, s_clock = c, s_script = replicate n (OElapse (d mod 5000000))\<rparr>)
      = Some (Done None, (r, \<lparr>s_count = 0, s_clock = c + n * (d mod 5000000) + 5000000, s_script = []\<rparr>))
   \<and> pop_blocking_timeout b T K rid (INSTANT_LIMIT + d) w = Some (Panic, snd (k_now K w))"
proof (intro conjI)
  show "pop_blocking_timeout b T K rid (INSTANT_LIMIT + d) w = Some (Panic, snd (k_now K w))"
    by (simp add: pop_blocking_timeout_def split: prod.split)
  let ?K = "sim_kernel b u64_pod"
  show ms: "timeout_ms (Some (d mod 1000000)) = 0" by (simp add: timeout_ms_def)
  let ?w = "(sample_ring, \<lparr>s_count = 0, s_clock = c, s_script = []\<rparr>)"
  have now: "k_now ?K ?w = (c, ?w)" by (simp add: sim_now)
  have "k_poll ?K (timeout_ms (Some (d mod 1000000))) ?w = (Inr False, ?w)"
    using sim_poll_silent [of 0 b u64_pod sample_ring c] ms by simp
  then have wait: "wait_timeout ?K (Some (d mod 1000000)) ?w = Some (Done None, ?w)"
    by (rule sim.wait_timeout_expired [rotated]) (simp add: sim_pending_def)
  have rel: "ring_rel u64_pod (fst ?w) (stream_new 2)" using sample_rel by simp
  show "pop_until b u64_pod ?K 0 (c + d mod 1000000) ?w = Some (Done None, ?w)"
    using pop_until_empty(1,2) [OF rel _ _ _ now, where rid = 0 and dl = "c + d mod 1000000" and b = b] wait
    by (cases "d mod 1000000 = 0") (simp_all add: stream_new_2)
  show "wait_timeout ?K (Some 5000000) (r, \<lparr>s_count = 0, s_clock = c, s_script = replicate n (OElapse (d mod 5000000))\<rparr>)
      = Some (Done None, (r, \<lparr>s_count = 0, s_clock = c + n * (d mod 5000000) + 5000000, s_script = []\<rparr>))"
  proof (induction n arbitrary: c)
    case 0
    have "k_poll ?K (timeout_ms (Some 5000000)) (r, \<lparr>s_count = 0, s_clock = c, s_script = []\<rparr>)
      = (Inr False, (r, \<lparr>s_count = 0, s_clock = c + 5000000, s_script = []\<rparr>))"
      using sim_poll_silent [of 5 b u64_pod r c] by (simp add: timeout_ms_def)
    from sim.wait_timeout_expired [OF _ this] show ?case by (simp add: sim_pending_def)
  next
    case (Suc n)
    have "k_poll ?K (timeout_ms (Some 5000000)) (r, \<lparr>s_count = 0, s_clock = c, s_script = replicate (Suc n) (OElapse (d mod 5000000))\<rparr>)
      = (Inl IoInterrupted, (r, \<lparr>s_count = 0, s_clock = c + d mod 5000000, s_script = replicate n (OElapse (d mod 5000000))\<rparr>))"
      using sim_poll_elapse [of b u64_pod 5 r c "d mod 5000000"] mod_less_divisor [of 5000000 d]
      by (simp add: timeout_ms_def)
    from sim.wait_timeout_interrupted [OF _ this] show ?case using Suc.IH [of "c + d mod 5000000"]
      by (simp add: sim_pending_def algebra_simps)
  qed
qed

end
