(* ===== verification/Wakeup.thy ===== *)
theory Wakeup
  imports Notify Sample
begin

text \<open>
  The handshake of \<open>src/notify.rs\<close> between threads: a producer in
  \<open>push_notified\<close> and consumers in \<open>pop_blocking\<close> on one eventfd, scheduled in any
  order. A step is one ring operation or one system call, so the schedules include a consumer that is
  preempted between its empty check and its wait, and a producer preempted between its publish and its signal.
  (That ring operations may be taken as single steps is the subject of the protocol model.)
\<close>

section \<open>Threads and steps\<close>

text \<open>
  Where \<open>pop_blocking\<close> stands: about to call \<open>try_pop\<close>, about to drain the counter in
  \<open>wait_timeout\<close>, or in \<open>poll\<close>. A consumer that got a message calls
  \<open>pop_blocking\<close> again. \<open>owes_signal\<close>: the producer has published and not signalled yet.
\<close>

datatype wphase = Checking | Draining | Parked

record wsys =
  w_ring :: SpmcRingBuffer
  w_units :: nat
  owes_signal :: bool
  w_phase :: "wphase list"

datatype 'v wstep = WPublish 'v | WSignal | WConsumer nat | WInterrupt nat

text \<open>\<open>push_notified\<close>: publish; on success, signal.\<close>

definition producer_publish :: "build \<Rightarrow> 'v pod \<Rightarrow> 'v \<Rightarrow> wsys \<Rightarrow> wsys" where
  "producer_publish b T v s =
     (if owes_signal s then s
      else case try_push b T v (w_ring s) of
          (Done True, r') \<Rightarrow> s\<lparr>w_ring := r', owes_signal := True\<rparr>
        | (_, r') \<Rightarrow> s\<lparr>w_ring := r'\<rparr>)"

definition producer_signal :: "wsys \<Rightarrow> wsys" where
  "producer_signal s =
     (if owes_signal s then s\<lparr>w_units := min (Suc (w_units s)) EFD_MAX, owes_signal := False\<rparr> else s)"

text \<open>\<open>pop_blocking\<close> and \<open>wait_timeout(None)\<close>: check, drain, park.\<close>

definition consumer_step :: "build \<Rightarrow> 'v pod \<Rightarrow> nat \<Rightarrow> wsys \<Rightarrow> wsys" where
  "consumer_step b T i s =
     (if length (w_phase s) \<le> i then s
      else case w_phase s ! i of
          Checking \<Rightarrow>
            (case try_pop b T (of_nat i) (w_ring s) of
               (Done None, r') \<Rightarrow> s\<lparr>w_ring := r', w_phase := (w_phase s)[i := Draining]\<rparr>
             | (_, r') \<Rightarrow> s\<lparr>w_ring := r'\<rparr>)
        | Draining \<Rightarrow>
            if 0 < w_units s then s\<lparr>w_units := 0, w_phase := (w_phase s)[i := Checking]\<rparr>
            else s\<lparr>w_phase := (w_phase s)[i := Parked]\<rparr>
        | Parked \<Rightarrow> if 0 < w_units s then s\<lparr>w_phase := (w_phase s)[i := Draining]\<rparr> else s)"

text \<open>A \<open>poll\<close> interrupted by a signal handler: back to the drain.\<close>

definition consumer_interrupt :: "nat \<Rightarrow> wsys \<Rightarrow> wsys" where
  "consumer_interrupt i s =
     (if i < length (w_phase s) \<and> w_phase s ! i = Parked then s\<lparr>w_phase := (w_phase s)[i := Draining]\<rparr> else s)"

fun wake_step :: "build \<Rightarrow> 'v pod \<Rightarrow> 'v wstep \<Rightarrow> wsys \<Rightarrow> wsys" where
  "wake_step b T (WPublish v) s = producer_publish b T v s"
| "wake_step b T WSignal s = producer_signal s"
| "wake_step b T (WConsumer i) s = consumer_step b T i s"
| "wake_step b T (WInterrupt i) s = consumer_interrupt i s"

primrec wake_run :: "build \<Rightarrow> 'v pod \<Rightarrow> 'v wstep list \<Rightarrow> wsys \<Rightarrow> wsys" where
  "wake_run b T [] s = s"
| "wake_run b T (e # es) s = wake_run b T es (wake_step b T e s)"

definition wake_init :: "SpmcRingBuffer \<Rightarrow> nat \<Rightarrow> wsys" where
  "wake_init r n = \<lparr>w_ring = r, w_units = 0, owes_signal = False, w_phase = replicate n Checking\<rparr>"

lemma wake_run_append: "wake_run b T (es @ fs) s = wake_run b T fs (wake_run b T es s)"
  by (induction es arbitrary: s) simp_all

section \<open>One consumer\<close>

text \<open>
  The invariant: a consumer that has found the ring empty and is on its way to sleep, or asleep, has
  nothing to take unless a unit is pending or the producer still owes its signal.
\<close>

definition behind :: "'v stream \<Rightarrow> bool" where
  "behind S \<longleftrightarrow> cursors S ! 0 < length (msgs S)"

definition wake_inv :: "'v pod \<Rightarrow> wsys \<Rightarrow> 'v stream \<Rightarrow> nat \<Rightarrow> bool" where
  "wake_inv T s S k \<longleftrightarrow>
     ring_rel T (w_ring s) S \<and> length (msgs S) \<le> k \<and> loan_depth (w_ring s) ! 0 = 0
     \<and> length (w_phase s) = 1
     \<and> (w_phase s ! 0 \<noteq> Checking \<and> behind S \<longrightarrow> 0 < w_units s \<or> owes_signal s)"

lemma EFD_MAX_pos [simp]: "0 < EFD_MAX"
  by (simp add: EFD_MAX_def)

lemma wake_inv_publish:
  assumes "wake_inv T s S k" and "k < 2 ^ 64 - 1"
  shows "\<exists>S'. wake_inv T (producer_publish b T v s) S' (Suc k)"
proof (cases "owes_signal s")
  case True
  with assms(1) have "wake_inv T (producer_publish b T v s) S (Suc k)"
    by (simp add: producer_publish_def wake_inv_def)
  then show ?thesis by blast
next
  case False
  have rel: "ring_rel T (w_ring s) S" and bound: "length (msgs S) < 2 ^ 64 - 1"
    using assms by (simp_all add: wake_inv_def)
  obtain r' where push: "try_push b T v (w_ring s) = (Done (fst (stream_push (cap_of (w_ring s)) v S)), r')"
    and rel': "ring_rel T r' (snd (stream_push (cap_of (w_ring s)) v S))" and ld: "loan_depth r' = loan_depth (w_ring s)"
    using try_push_refines [OF rel bound] by blast
  have "wake_inv T (producer_publish b T v s) (snd (stream_push (cap_of (w_ring s)) v S)) (Suc k)"
    using assms(1) push rel' ld False
    by (auto simp: wake_inv_def producer_publish_def stream_push_def split: if_splits)
  then show ?thesis by blast
qed

lemma wake_inv_signal: "wake_inv T s S k \<Longrightarrow> wake_inv T (producer_signal s) S k"
  by (auto simp: wake_inv_def producer_signal_def)

lemma wake_inv_consumer:
  assumes inv: "wake_inv T s S k"
  shows "\<exists>S'. wake_inv T (consumer_step b T i s) S' k"
proof (cases "i = 0 \<and> w_phase s ! 0 = Checking")
  case True
  have rel: "ring_rel T (w_ring s) S" and gate: "loan_depth (w_ring s) ! 0 = 0" and len: "length (w_phase s) = 1"
    using inv by (simp_all add: wake_inv_def)
  have i: "0 < length (cursors S)" using ring_relD(5) [OF rel] by (simp add: stream_ok_def)
  obtain r' where pop: "try_pop b T 0 (w_ring s) = (Done (fst (stream_pop 0 S)), r')"
    and rel': "ring_rel T r' (snd (stream_pop 0 S))" and ld: "loan_depth r' = loan_depth (w_ring s)"
    using try_pop_refines [OF rel, of 0 b] i gate by auto
  have "wake_inv T (consumer_step b T i s) (snd (stream_pop 0 S)) k"
    using inv pop rel' ld True len
    by (auto simp: wake_inv_def consumer_step_def behind_def stream_pop_def Let_def split: if_splits)
  then show ?thesis by blast
next
  case False
  moreover have "length (w_phase s) = 1" using inv by (simp add: wake_inv_def)
  ultimately have "length (w_phase s) \<le> i \<or> i = 0 \<and> (w_phase s ! 0 = Draining \<or> w_phase s ! 0 = Parked)"
    by (cases "w_phase s ! 0") auto
  with inv have "wake_inv T (consumer_step b T i s) S k"
    by (auto simp: wake_inv_def consumer_step_def)
  then show ?thesis by blast
qed

lemma wake_inv_interrupt: "wake_inv T s S k \<Longrightarrow> wake_inv T (consumer_interrupt i s) S k"
  by (cases "i = 0") (auto simp: wake_inv_def consumer_interrupt_def)

lemma wake_inv_step:
  assumes "wake_inv T s S k" and "k < 2 ^ 64 - 1"
  shows "\<exists>S'. wake_inv T (wake_step b T e s) S' (Suc k)"
proof -
  have mono: "wake_inv T s' S' k \<Longrightarrow> wake_inv T s' S' (Suc k)" for s' S' by (simp add: wake_inv_def)
  show ?thesis
    using wake_inv_publish [OF assms] wake_inv_signal [OF assms(1)] wake_inv_consumer [OF assms(1)]
      wake_inv_interrupt [OF assms(1)] mono
    by (cases e) (simp_all, blast+)
qed

lemma wake_inv_run:
  assumes "wake_inv T s S k" and "k + length es < 2 ^ 64"
  shows "\<exists>S'. wake_inv T (wake_run b T es s) S' (k + length es)"
  using assms
proof (induction es arbitrary: s S k)
  case Nil
  then show ?case by auto
next
  case (Cons e es)
  then have "k < 2 ^ 64 - 1" by simp
  then obtain S1 where "wake_inv T (wake_step b T e s) S1 (Suc k)" using wake_inv_step [OF Cons.prems(1)] by blast
  with Cons show ?case by fastforce
qed

lemma wake_inv_behind:
  assumes inv: "wake_inv T s S k" and pop: "try_pop b T 0 (w_ring s) = (Done (Some v), r')"
  shows "behind S"
proof -
  have rel: "ring_rel T (w_ring s) S" and gate: "loan_depth (w_ring s) ! 0 = 0" using inv by (simp_all add: wake_inv_def)
  have "0 < length (cursors S)" using ring_relD(5) [OF rel] by (simp add: stream_ok_def)
  with try_pop_exec [OF rel, of 0 b] gate pop show ?thesis by (auto simp: behind_def split: if_splits)
qed

text \<open>The steps of a consumer that has a message and a unit to find.\<close>

lemma consumer_catches_up:
  assumes len: "length (w_phase s) = 1" and pop: "try_pop b T 0 (w_ring s) = (Done (Some v), r')"
    and units: "w_phase s ! 0 = Checking \<or> 0 < w_units s"
  shows "\<exists>j \<le> 3. w_ring (wake_run b T (replicate j (WConsumer 0)) s) = r'"
proof -
  have check: "w_ring (consumer_step b T 0 s') = r'" if "w_ring s' = w_ring s" "w_phase s' = [Checking]" for s'
    using that pop by (simp add: consumer_step_def)
  have drain: "w_ring (consumer_step b T 0 (consumer_step b T 0 s')) = r'"
    if "w_ring s' = w_ring s" "w_phase s' = [Draining]" "0 < w_units s'" for s'
    using check [of "s'\<lparr>w_units := 0, w_phase := [Checking]\<rparr>"] that by (simp add: consumer_step_def [of b T 0 s'])
  obtain ph where ph: "w_phase s = [ph]" using len by (cases "w_phase s") auto
  show ?thesis
  proof (cases ph)
    case Checking
    then show ?thesis using check [of s] ph by (intro exI [of _ 1]) simp
  next
    case Draining
    then show ?thesis using drain [of s] ph units by (intro exI [of _ 2]) (simp add: numeral_2_eq_2)
  next
    case Parked
    then show ?thesis using drain [of "s\<lparr>w_phase := [Draining]\<rparr>"] ph units
      by (intro exI [of _ 3]) (simp add: numeral_3_eq_3 consumer_step_def [of b T 0 s])
  qed
qed

section \<open>Properties\<close>

text \<open>
  C11. One consumer on an eventfd loses no wakeup. After any schedule of the producer's and the consumer's steps,
  whenever the reader has a message to take and the producer is not between its publish and its signal, a
  unit is pending if the consumer is parked, and the consumer takes the message within three steps of its
  own.
\<close>

theorem no_lost_wakeup:
  assumes "ring_rel T r S" and "loan_depth r ! 0 = 0" and "length (msgs S) + length es < 2 ^ 64"
    and "\<not> owes_signal (wake_run b T es (wake_init r 1))"
    and "try_pop b T 0 (w_ring (wake_run b T es (wake_init r 1))) = (Done (Some v), r')"
  shows "(w_phase (wake_run b T es (wake_init r 1)) = [Parked] \<longrightarrow> 0 < w_units (wake_run b T es (wake_init r 1)))
    \<and> (\<exists>j \<le> 3. w_ring (wake_run b T (es @ replicate j (WConsumer 0)) (wake_init r 1)) = r')"
proof -
  let ?s = "wake_run b T es (wake_init r 1)"
  have "wake_inv T (wake_init r 1) S (length (msgs S))" using assms(1,2) by (simp add: wake_inv_def wake_init_def)
  from wake_inv_run [OF this assms(3)] obtain S' where inv: "wake_inv T ?s S' (length (msgs S) + length es)" by blast
  from wake_inv_behind [OF inv assms(5)] inv assms(4)
  have units: "w_phase ?s ! 0 = Checking \<or> 0 < w_units ?s" and len: "length (w_phase ?s) = 1"
    by (auto simp: wake_inv_def)
  then show ?thesis using consumer_catches_up [OF len assms(5) units] by (auto simp: wake_run_append)
qed

text \<open>The consumer finds the ring empty, is preempted by a publish and its signal, and goes on.\<close>

definition preempted :: "u64 wstep list" where
  "preempted = [WConsumer 0, WPublish 5, WSignal]"

lemma preempted_run:
  "wake_run b u64_pod preempted (wake_init sample_ring 1)
   = \<lparr>w_ring = pushed_state u64_pod 5 sample_ring, w_units = 1, owes_signal = False, w_phase = [Draining]\<rparr>"
proof -
  have pop: "try_pop b u64_pod 0 sample_ring = (Done None, sample_ring)"
    using try_pop_exec [OF sample_rel, of 0 b] by (simp add: stream_new_2)
  have push: "try_push b u64_pod 5 sample_ring = (Done True, pushed_state u64_pod 5 sample_ring)"
    using try_push_exec [OF sample_rel, of b 5] by (simp add: stream_new_2 slowest_def)
  have "min (Suc 0) EFD_MAX = 1" by (simp add: EFD_MAX_def)
  with pop push show ?thesis
    by (simp add: preempted_def wake_init_def consumer_step_def producer_publish_def producer_signal_def)
qed

theorem no_lost_wakeup_witness:
  "\<exists>j \<le> 3. w_ring (wake_run Debug u64_pod (preempted @ replicate j (WConsumer 0)) (wake_init sample_ring 1))
     = popped_state 0 (pushed_state u64_pod 5 sample_ring)"
proof -
  have pop: "try_pop Debug u64_pod 0 (pushed_state u64_pod 5 sample_ring)
    = (Done (Some 5), popped_state 0 (pushed_state u64_pod 5 sample_ring))"
    using try_pop_exec [OF sample_pushed_rel [of 5], of 0 Debug] by (simp add: pushed_state_def)
  show ?thesis
    using no_lost_wakeup [OF sample_rel, where es = preempted and b = Debug] pop
    by (simp only: preempted_run) (simp add: preempted_def stream_new_2)
qed

section \<open>Several consumers\<close>

text \<open>
  Two consumers, readers 0 and 1 of the same ring, find it empty and park on one eventfd. One message is
  published and signalled; consumer 0 wakes first and takes the units and its copy of the message.
\<close>

definition two_parked :: "u64 wstep list" where
  "two_parked = [WConsumer 0, WConsumer 1, WConsumer 0, WConsumer 1, WPublish 5, WSignal,
     WConsumer 0, WConsumer 0, WConsumer 0]"

text \<open>Without a unit a sleeping consumer goes in circles between the drain and the poll.\<close>

lemma sleeper_stays:
  assumes "i < length (w_phase s)" and "w_phase s ! i \<noteq> Checking" and "w_units s = 0"
  shows "w_ring (wake_run b T (map (\<lambda>x. if x then WConsumer i else WInterrupt i) xs) s) = w_ring s
    \<and> w_phase (wake_run b T (map (\<lambda>x. if x then WConsumer i else WInterrupt i) xs) s) ! i \<noteq> Checking"
  using assms
proof (induction xs arbitrary: s)
  case (Cons x xs)
  let ?s = "wake_step b T (if x then WConsumer i else WInterrupt i) s"
  have "w_ring ?s = w_ring s \<and> i < length (w_phase ?s) \<and> w_phase ?s ! i \<noteq> Checking \<and> w_units ?s = 0"
    using Cons.prems by (cases "w_phase s ! i") (auto simp: consumer_step_def consumer_interrupt_def)
  with Cons.IH [of ?s] show ?case by simp
qed simp

lemma two_parked_run:
  "wake_run b u64_pod two_parked (wake_init sample_ring 2)
   = \<lparr>w_ring = popped_state 0 (pushed_state u64_pod 5 sample_ring), w_units = 0, owes_signal = False,
      w_phase = [Checking, Parked]\<rparr>"
proof -
  have empty: "try_pop b u64_pod 0 sample_ring = (Done None, sample_ring)"
    "try_pop b u64_pod 1 sample_ring = (Done None, sample_ring)"
    using try_pop_exec [OF sample_rel, of 0 b] try_pop_exec [OF sample_rel, of 1 b] by (simp_all add: stream_new_2)
  have push: "try_push b u64_pod 5 sample_ring = (Done True, pushed_state u64_pod 5 sample_ring)"
    using try_push_exec [OF sample_rel, of b 5] by (simp add: stream_new_2 slowest_def)
  have pop: "try_pop b u64_pod 0 (pushed_state u64_pod 5 sample_ring)
    = (Done (Some 5), popped_state 0 (pushed_state u64_pod 5 sample_ring))"
    using try_pop_exec [OF sample_pushed_rel [of 5], of 0 b] by (simp add: pushed_state_def)
  have "replicate 2 Checking = [Checking, Checking]" by (simp add: numeral_2_eq_2)
  moreover have "min (Suc 0) EFD_MAX = 1" by (simp add: EFD_MAX_def)
  ultimately show ?thesis using empty push pop
    by (simp add: two_parked_def wake_init_def consumer_step_def producer_publish_def producer_signal_def)
qed

text \<open>
  C36. Two consumers on one eventfd do lose a wakeup: the schedule above leaves consumer 1 parked with a
  message of its own to take, no unit pending and no signal owed, and whatever steps it makes from there, interrupted
  or not, it does not look at the ring again. (A read takes the whole counter, and each reader of the ring
  needs the message.)
\<close>

theorem shared_eventfd_loses_wakeup:
  "let s = wake_run b u64_pod two_parked (wake_init sample_ring 2);
       s' = wake_run b u64_pod (map (\<lambda>x. if x then WConsumer 1 else WInterrupt 1) xs) s
   in w_phase s ! 1 = Parked \<and> \<not> owes_signal s \<and> w_units s = 0
     \<and> fst (try_pop b u64_pod 1 (w_ring s)) = Done (Some 5)
     \<and> w_ring s' = w_ring s \<and> w_phase s' ! 1 \<noteq> Checking"
proof -
  let ?r = "pushed_state u64_pod 5 sample_ring"
  have "ring_rel u64_pod (popped_state 0 ?r) \<lparr>msgs = [5], cursors = [1, 0]\<rparr>"
    using try_pop_refines [OF sample_pushed_rel [of 5], of 0 b] try_pop_exec [OF sample_pushed_rel [of 5], of 0 b]
    by (simp add: stream_pop_def pushed_state_def)
  moreover have "loan_depth (popped_state 0 ?r) ! 1 = 0"
    by (simp add: popped_state_def pushed_state_def)
  ultimately have "fst (try_pop b u64_pod 1 (popped_state 0 ?r)) = Done (Some 5)"
    using try_pop_exec [of u64_pod "popped_state 0 ?r" "\<lparr>msgs = [5], cursors = [1, 0]\<rparr>" 1 b] by simp
  then show ?thesis
    using sleeper_stays [where i = 1 and b = b and T = u64_pod and xs = xs
        and s = "wake_run b u64_pod two_parked (wake_init sample_ring 2)"]
    by (simp add: Let_def two_parked_run)
qed

end
