(* ===== verification/Loom_Ring.thy ===== *)
theory Loom_Ring
  imports Loan Sample
begin

text \<open>
  The in-memory double of the ring that the loom models run on (\<open>src/loom_ring.rs\<close>):
  \<open>u64\<close> messages in an array of two cells instead of a mapped file. The theory models its
  operations as the source has them and shows that each corresponds to the operation of the real ring it is a double
  of, step for step, from any pair of matching states and in both build modes; so the double is a second
  implementation of the broadcast stream. It is not a double of the loan gate of \<open>try_pop\<close>.
\<close>

section \<open>State\<close>

definition LOOM_CAPACITY :: u64 where "LOOM_CAPACITY = 2"

record LoomRing =
  lm_write_idx :: u64
  lm_read_indices :: "u64 list"
  lm_num_readers :: usize
  lm_total_written :: u64
  lm_claim_base :: "u64 list"
  lm_loan_depth :: "u64 list"
  lm_slots :: "u64 list"

record LoomLoan =
  ll_reader_id :: usize
  ll_index :: u64
  ll_resolved :: bool

type_synonym 'a loom_act = "(LoomRing, ShmRingError, 'a) act"

definition with_readers :: "usize \<Rightarrow> (ShmRingError, LoomRing) outcome" where
  "with_readers n =
     (if 1 \<le> n \<and> n \<le> MAX_READERS then
        Done \<lparr> lm_write_idx = 0, lm_read_indices = replicate (unat MAX_READERS) 0, lm_num_readers = n,
               lm_total_written = 0, lm_claim_base = replicate (unat MAX_READERS) 0,
               lm_loan_depth = replicate (unat MAX_READERS) 0, lm_slots = replicate (unat LOOM_CAPACITY) 0 \<rparr>
      else Panic)"

definition loom_new :: "(ShmRingError, LoomRing) outcome" where
  "loom_new = with_readers MAX_READERS"

section \<open>Operations\<close>

text \<open>\<open>assert!(reader_id < self.num_readers)\<close>\<close>

definition loom_check :: "usize \<Rightarrow> LoomRing \<Rightarrow> (ShmRingError, unit) outcome" where
  "loom_check rid L = (if rid < lm_num_readers L then Done () else Panic)"

definition loom_min_read :: "LoomRing \<Rightarrow> (ShmRingError, u64) outcome" where
  "loom_min_read L =
     (if unat (lm_num_readers L) \<le> length (lm_read_indices L)
      then Done (foldl min (- 1) (take (unat (lm_num_readers L)) (lm_read_indices L))) else Panic)"

definition loom_slot :: "u64 \<Rightarrow> LoomRing \<Rightarrow> (ShmRingError, u64) outcome" where
  "loom_slot idx L = array_get (lm_slots L) (idx AND (LOOM_CAPACITY - 1))"

definition loom_set_slot :: "u64 \<Rightarrow> u64 \<Rightarrow> unit loom_act" where
  "loom_set_slot idx v =
     bind_act (asks (loom_slot idx)) (\<lambda>_.
       modify (\<lambda>L. L\<lparr>lm_slots := (lm_slots L)[unat (idx AND (LOOM_CAPACITY - 1)) := v]\<rparr>))"

definition loom_store_cursor :: "usize \<Rightarrow> u64 \<Rightarrow> unit loom_act" where
  "loom_store_cursor rid v =
     bind_act (asks (\<lambda>L. array_get (lm_read_indices L) rid)) (\<lambda>_.
       modify (\<lambda>L. L\<lparr>lm_read_indices := (lm_read_indices L)[unat rid := v]\<rparr>))"

definition loom_upd_base :: "(u64 \<Rightarrow> u64) \<Rightarrow> usize \<Rightarrow> unit loom_act" where
  "loom_upd_base f rid =
     bind_act (asks (\<lambda>L. array_get (lm_claim_base L) rid)) (\<lambda>x.
       modify (\<lambda>L. L\<lparr>lm_claim_base := (lm_claim_base L)[unat rid := f x]\<rparr>))"

definition loom_upd_depth :: "(u64 \<Rightarrow> u64) \<Rightarrow> usize \<Rightarrow> unit loom_act" where
  "loom_upd_depth f rid =
     bind_act (asks (\<lambda>L. array_get (lm_loan_depth L) rid)) (\<lambda>x.
       modify (\<lambda>L. L\<lparr>lm_loan_depth := (lm_loan_depth L)[unat rid := f x]\<rparr>))"

definition loom_try_push :: "build \<Rightarrow> u64 \<Rightarrow> bool loom_act" where
  "loom_try_push b v =
     bind_act (gets lm_write_idx) (\<lambda>w.
     bind_act (asks loom_min_read) (\<lambda>min_read.
     bind_act (lift_out (sub_w b w min_read)) (\<lambda>lag.
     if LOOM_CAPACITY \<le> lag then ret False
     else
       bind_act (loom_set_slot w v) (\<lambda>_.
       bind_act (lift_out (add_w b w 1)) (\<lambda>w'.
       bind_act (modify (\<lambda>L. L\<lparr>lm_write_idx := w'\<rparr>)) (\<lambda>_.
       bind_act (modify (\<lambda>L. L\<lparr>lm_total_written := lm_total_written L + 1\<rparr>)) (\<lambda>_. ret True)))))))"

definition loom_try_pop :: "build \<Rightarrow> usize \<Rightarrow> u64 option loom_act" where
  "loom_try_pop b rid =
     bind_act (asks (loom_check rid)) (\<lambda>_.
     bind_act (gets lm_write_idx) (\<lambda>w.
     bind_act (asks (\<lambda>L. array_get (lm_read_indices L) rid)) (\<lambda>r.
     if r = w then ret None
     else
       bind_act (asks (loom_slot r)) (\<lambda>v.
       bind_act (lift_out (add_w b r 1)) (\<lambda>r'.
       bind_act (loom_store_cursor rid r') (\<lambda>_. ret (Some v)))))))"

text \<open>The compare-exchange is the strong one: it fails only when the value has changed.\<close>

definition loom_claim_pass ::
  "build \<Rightarrow> usize \<Rightarrow> (LoomRing \<Rightarrow> LoomRing) \<Rightarrow> u64 option option loom_act" where
  "loom_claim_pass b rid other =
     bind_act (gets lm_write_idx) (\<lambda>w.
     bind_act (asks (\<lambda>L. array_get (lm_read_indices L) rid)) (\<lambda>cursor.
     bind_act (asks (\<lambda>L. array_get (lm_claim_base L) rid)) (\<lambda>base.
     let idx = max base cursor in
     if w \<le> idx then ret (Some None)
     else
       bind_act (lift_out (add_w b idx 1)) (\<lambda>idx'.
       bind_act (modify other) (\<lambda>_.
       bind_act (asks (\<lambda>L. array_get (lm_claim_base L) rid)) (\<lambda>now.
       if now = base then bind_act (loom_upd_base (\<lambda>_. idx') rid) (\<lambda>_. ret (Some (Some idx)))
       else ret None))))))"

primrec loom_claim_loop :: "build \<Rightarrow> usize \<Rightarrow> (LoomRing \<Rightarrow> LoomRing) list \<Rightarrow> u64 option loom_act" where
  "loom_claim_loop b rid [] =
     bind_act (loom_claim_pass b rid id) (\<lambda>x. ret (case x of Some i \<Rightarrow> i | None \<Rightarrow> None))"
| "loom_claim_loop b rid (f # fs) =
     bind_act (loom_claim_pass b rid f) (\<lambda>x.
       case x of Some i \<Rightarrow> ret i | None \<Rightarrow> loom_claim_loop b rid fs)"

definition loom_claim :: "build \<Rightarrow> (LoomRing \<Rightarrow> LoomRing) list \<Rightarrow> usize \<Rightarrow> LoomLoan option loom_act" where
  "loom_claim b adv rid =
     bind_act (asks (loom_check rid)) (\<lambda>_.
     bind_act (loom_upd_depth (\<lambda>d. d + 1) rid) (\<lambda>_.
     bind_act (loom_claim_loop b rid adv) (\<lambda>index.
     bind_act (if index = None then loom_upd_depth (\<lambda>d. d - 1) rid else ret ()) (\<lambda>_.
     ret (map_option (\<lambda>i. \<lparr>ll_reader_id = rid, ll_index = i, ll_resolved = False\<rparr>) index)))))"

definition loom_value :: "LoomLoan \<Rightarrow> LoomRing \<Rightarrow> (ShmRingError, u64) outcome" where
  "loom_value l = loom_slot (ll_index l)"

definition loom_resolve :: "LoomLoan \<Rightarrow> LoomLoan loom_act" where
  "loom_resolve l = bind_act (loom_upd_depth (\<lambda>d. d - 1) (ll_reader_id l)) (\<lambda>_. ret (l\<lparr>ll_resolved := True\<rparr>))"

text \<open>The answer, and the loan as the caller holds it afterwards.\<close>

definition loom_commit :: "build \<Rightarrow> LoomLoan \<Rightarrow> (bool \<times> LoomLoan) loom_act" where
  "loom_commit b l =
     (if ll_resolved l then ret (True, l)
      else
        bind_act (asks (\<lambda>L. array_get (lm_read_indices L) (ll_reader_id l))) (\<lambda>cursor.
        if cursor \<noteq> ll_index l then ret (False, l)
        else
          bind_act (lift_out (add_w b (ll_index l) 1)) (\<lambda>idx'.
          bind_act (loom_store_cursor (ll_reader_id l) idx') (\<lambda>_.
          bind_act (loom_resolve l) (\<lambda>l'. ret (True, l'))))))"

definition loom_drop :: "build \<Rightarrow> LoomLoan \<Rightarrow> unit loom_act" where
  "loom_drop b l =
     (if ll_resolved l then ret ()
      else
        bind_act (asks (\<lambda>L. array_get (lm_read_indices L) (ll_reader_id l))) (\<lambda>cursor.
        bind_act
          (if cursor = ll_index l then
             bind_act (lift_out (add_w b (ll_index l) 1)) (\<lambda>idx'. loom_store_cursor (ll_reader_id l) idx')
           else ret ()) (\<lambda>_.
        bind_act (loom_resolve l) (\<lambda>_. ret ()))))"

definition loom_abort :: "build \<Rightarrow> LoomLoan \<Rightarrow> unit loom_act" where
  "loom_abort b l =
     bind_act
       (if \<not> ll_resolved l then
          bind_act (loom_upd_base (\<lambda>x. min x (ll_index l)) (ll_reader_id l)) (\<lambda>_. loom_resolve l)
        else ret l)
       (\<lambda>l. loom_drop b l)"

section \<open>Correspondence of actions\<close>

text \<open>
  Two outcomes correspond when both return, related values, or both panic; two actions when from
  related states they have corresponding outcomes and related states. Errors and faults correspond to
  nothing, so corresponding actions are free of both.
\<close>

fun out_rel :: "('a \<Rightarrow> 'b \<Rightarrow> bool) \<Rightarrow> ('e, 'a) outcome \<Rightarrow> ('f, 'b) outcome \<Rightarrow> bool" where
  "out_rel Q (Done x) (Done y) = Q x y"
| "out_rel Q Panic Panic = True"
| "out_rel Q _ _ = False"

definition act_rel ::
  "('s \<Rightarrow> 't \<Rightarrow> bool) \<Rightarrow> ('a \<Rightarrow> 'b \<Rightarrow> bool) \<Rightarrow> ('s, 'e, 'a) act \<Rightarrow> ('t, 'f, 'b) act \<Rightarrow> bool" where
  "act_rel R Q m n \<longleftrightarrow>
     (\<forall>s t. R s t \<longrightarrow> out_rel Q (fst (m s)) (fst (n t)) \<and> R (snd (m s)) (snd (n t)))"

named_theorems corr "correspondence of primitive actions"

lemma act_relD:
  assumes "act_rel R Q m n" and "R s t"
  shows "out_rel Q (fst (m s)) (fst (n t))" and "R (snd (m s)) (snd (n t))"
  using assms by (simp_all add: act_rel_def)

lemma act_rel_ret [corr]: "Q x y \<Longrightarrow> act_rel R Q (ret x) (ret y)"
  by (simp add: act_rel_def act_simps)

lemma act_rel_bind:
  assumes "act_rel R P m n" and "\<And>x y. P x y \<Longrightarrow> act_rel R Q (f x) (g y)"
  shows "act_rel R Q (bind_act m f) (bind_act n g)"
proof -
  have "out_rel Q (fst (bind_act m f s)) (fst (bind_act n g t)) \<and> R (snd (bind_act m f s)) (snd (bind_act n g t))"
    if R: "R s t" for s t
  proof -
    obtain x s' y t' where mn: "m s = (x, s')" "n t = (y, t')" by fastforce
    with act_relD [OF assms(1) R] have "out_rel P x y" "R s' t'" by simp_all
    then show ?thesis using assms(2)
      by (cases "(P, x, y)" rule: out_rel.cases) (auto simp: bind_act_def mn act_rel_def)
  qed
  then show ?thesis by (simp add: act_rel_def)
qed

text \<open>Steps that are the same function of the same values.\<close>

lemma act_rel_bind_eq:
  "act_rel R (=) m n \<Longrightarrow> (\<And>x. act_rel R Q (f x) (g x)) \<Longrightarrow> act_rel R Q (bind_act m f) (bind_act n g)"
  by (rule act_rel_bind [where P = "(=)"]) simp_all

lemma corr_lift [corr]: "act_rel R (=) (lift_out (add_w b x y)) (lift_out (add_w b x y))"
  "act_rel R (=) (lift_out (sub_w b x y)) (lift_out (sub_w b x y))"
  by (simp_all add: act_rel_def act_simps add_w_def sub_w_def)

lemma act_rel_gets: "(\<And>s t. R s t \<Longrightarrow> f s = g t) \<Longrightarrow> act_rel R (=) (gets f) (gets g)"
  by (simp add: act_rel_def act_simps)

lemma act_rel_asks:
  "(\<And>s t. R s t \<Longrightarrow> \<exists>x. f s = Done x \<and> g t = Done x) \<Longrightarrow> act_rel R (=) (asks f) (asks g)"
  by (fastforce simp: act_rel_def act_simps)

lemma act_rel_modify: "(\<And>s t. R s t \<Longrightarrow> R (f s) (g t)) \<Longrightarrow> act_rel R (=) (modify f) (modify g)"
  by (simp add: act_rel_def act_simps)

lemma act_rel_if:
  "(c \<Longrightarrow> act_rel R Q m n) \<Longrightarrow> (\<not> c \<Longrightarrow> act_rel R Q m' n') \<Longrightarrow> act_rel R Q (if c then m else m') (if c then n else n')"
  by simp

section \<open>The double and the ring\<close>

text \<open>Matching states: equal counters, and the cells hold what the slots decode to.\<close>

definition loom_rel :: "usize \<Rightarrow> LoomRing \<Rightarrow> SpmcRingBuffer \<Rightarrow> bool" where
  "loom_rel n L r \<longleftrightarrow>
     lm_write_idx L = write_idx (rhdr r) \<and> lm_read_indices L = read_indices (rhdr r)
     \<and> lm_num_readers L = n \<and> reader_count_of (rhdr r) = n \<and> n \<le> MAX_READERS
     \<and> lm_total_written L = total_written (rhdr r)
     \<and> lm_claim_base L = claim_base r \<and> lm_loan_depth L = loan_depth r
     \<and> length (read_indices (rhdr r)) = 8 \<and> length (claim_base r) = 8 \<and> length (loan_depth r) = 8
     \<and> capacity r = LOOM_CAPACITY \<and> layout_ok u64_pod r
     \<and> lm_slots L = [slot_read u64_pod (rdata r) 0, slot_read u64_pod (rdata r) 1]"

lemma loom_cap: "unat LOOM_CAPACITY = 2"
  by (simp add: LOOM_CAPACITY_def)

lemma loom_mask: "unat (idx AND (LOOM_CAPACITY - 1)) = unat idx mod 2"
  using unat_and_pow2_mask [OF power_of_two_2, of idx] by (simp add: LOOM_CAPACITY_def)

lemma loom_slot_Done:
  assumes "loom_rel n L r"
  shows "loom_slot idx L = Done (slot_read u64_pod (rdata r) (unat idx mod 2))"
  using assms mod_less_divisor [of 2 "unat idx"]
  by (cases "unat idx mod 2 = 0") (auto simp: loom_slot_def loom_rel_def array_get_def loom_mask)

lemma reader_in_range: "rid < n \<Longrightarrow> n \<le> MAX_READERS \<Longrightarrow> unat rid < 8"
  by (simp add: MAX_READERS_def word_less_nat_alt word_le_nat_alt)

lemma layout_ok_upd [simp]:
  "layout_ok T (r\<lparr>claim_base := cb\<rparr>) = layout_ok T r" "layout_ok T (r\<lparr>loan_depth := ld\<rparr>) = layout_ok T r"
  "layout_ok T (upd_hdr f r) = layout_ok T r"
  by (simp_all add: layout_ok_def)

lemma corr_check [corr]:
  "rid < n \<Longrightarrow> act_rel (loom_rel n) (=) (asks (loom_check rid)) (asks (check_reader b rid))"
  by (rule act_rel_asks) (auto simp: loom_rel_def loom_check_def check_reader_def)

lemma corr_write_idx [corr]: "act_rel (loom_rel n) (=) (gets lm_write_idx) (gets (\<lambda>r. write_idx (rhdr r)))"
  by (rule act_rel_gets) (simp add: loom_rel_def)

lemma corr_cursor [corr]:
  "rid < n \<Longrightarrow> act_rel (loom_rel n) (=) (asks (\<lambda>L. array_get (lm_read_indices L) rid)) (asks (\<lambda>r. read_idx rid (rhdr r)))"
  by (rule act_rel_asks) (auto simp: loom_rel_def array_get_def read_idx_def reader_in_range)

lemma corr_base [corr]:
  "rid < n \<Longrightarrow> act_rel (loom_rel n) (=) (asks (\<lambda>L. array_get (lm_claim_base L) rid)) (asks (\<lambda>r. array_get (claim_base r) rid))"
  by (rule act_rel_asks) (auto simp: loom_rel_def array_get_def reader_in_range)

lemma corr_depth [corr]:
  "rid < n \<Longrightarrow> act_rel (loom_rel n) (=) (asks (\<lambda>L. array_get (lm_loan_depth L) rid)) (asks (\<lambda>r. array_get (loan_depth r) rid))"
  by (rule act_rel_asks) (auto simp: loom_rel_def array_get_def reader_in_range)

lemma corr_upd_base [corr]: "rid < n \<Longrightarrow> act_rel (loom_rel n) (=) (loom_upd_base f rid) (upd_claim_base f rid)"
  unfolding loom_upd_base_def upd_claim_base_def
  by (rule act_rel_bind_eq [OF corr_base act_rel_modify]) (simp_all add: loom_rel_def)

lemma corr_upd_depth [corr]: "rid < n \<Longrightarrow> act_rel (loom_rel n) (=) (loom_upd_depth f rid) (upd_loan_depth f rid)"
  unfolding loom_upd_depth_def upd_loan_depth_def
  by (rule act_rel_bind_eq [OF corr_depth act_rel_modify]) (simp_all add: loom_rel_def)

lemma loom_rel_upd_hdr:
  assumes "loom_rel n L r"
  shows "loom_rel n (L\<lparr>lm_write_idx := w\<rparr>) (upd_hdr (set_write_idx w) r)"
    and "loom_rel n (L\<lparr>lm_total_written := lm_total_written L + 1\<rparr>) (upd_hdr bump_total_written r)"
    and "loom_rel n (L\<lparr>lm_read_indices := (lm_read_indices L)[unat rid := v]\<rparr>)
          (upd_hdr (\<lambda>h. h\<lparr>read_indices := (read_indices h)[unat rid := v]\<rparr>) r)"
  using assms
  by (simp_all add: loom_rel_def set_write_idx_def bump_total_written_def reader_count_of_def)

lemma corr_store_write_idx [corr]:
  "act_rel (loom_rel n) (=) (modify (\<lambda>L. L\<lparr>lm_write_idx := w\<rparr>)) (modify (upd_hdr (set_write_idx w)))"
  by (rule act_rel_modify) (rule loom_rel_upd_hdr)

lemma corr_bump [corr]:
  "act_rel (loom_rel n) (=) (modify (\<lambda>L. L\<lparr>lm_total_written := lm_total_written L + 1\<rparr>)) (modify (upd_hdr bump_total_written))"
  by (rule act_rel_modify) (rule loom_rel_upd_hdr)

lemma corr_store_cursor [corr]:
  assumes "rid < n"
  shows "act_rel (loom_rel n) (=) (loom_store_cursor rid v) (store_read_idx rid v)"
proof -
  have "loom_store_cursor rid v L = (Done (), L\<lparr>lm_read_indices := (lm_read_indices L)[unat rid := v]\<rparr>)
      \<and> store_read_idx rid v r = (Done (), upd_hdr (\<lambda>h. h\<lparr>read_indices := (read_indices h)[unat rid := v]\<rparr>) r)"
    if "loom_rel n L r" for L r
    using that assms
    by (auto simp: loom_store_cursor_def act_simps array_get_def loom_rel_def reader_in_range store_read_idx_Done)
  with loom_rel_upd_hdr(3) [of n _ _ rid v] show ?thesis by (auto simp: act_rel_def)
qed

lemma corr_min_read [corr]:
  "act_rel (loom_rel n) (=) (asks loom_min_read) (asks (\<lambda>r. slowest_read_idx (reader_count_of (rhdr r)) (rhdr r)))"
  by (rule act_rel_asks)
    (auto simp: loom_rel_def loom_min_read_def slowest_read_idx_def MAX_READERS_def word_le_nat_alt)

lemma corr_bind_min_read:
  assumes "\<And>x. act_rel (loom_rel n) Q (f x) (g x)"
  shows "act_rel (loom_rel n) Q (bind_act (asks loom_min_read) f)
    (bind_act (gets (\<lambda>r. reader_count_of (rhdr r))) (\<lambda>c. bind_act (asks (\<lambda>r. slowest_read_idx c (rhdr r))) g))"
proof -
  have "bind_act (gets (\<lambda>r. reader_count_of (rhdr r))) (\<lambda>c. bind_act (asks (\<lambda>r. slowest_read_idx c (rhdr r))) g)
    = bind_act (asks (\<lambda>r. slowest_read_idx (reader_count_of (rhdr r)) (rhdr r))) g"
    by (rule ext) (simp add: act_simps)
  then show ?thesis using act_rel_bind_eq [OF corr_min_read assms] by simp
qed

lemma loom_capacity: "loom_rel n L r \<Longrightarrow> capacity r = LOOM_CAPACITY"
  by (simp add: loom_rel_def)

lemma corr_capacity:
  "act_rel (loom_rel n) Q m (k LOOM_CAPACITY) \<Longrightarrow> act_rel (loom_rel n) Q m (bind_act (gets capacity) k)"
  using loom_capacity [of n] by (simp add: act_rel_def act_simps)

text \<open>One cell access of the double is a pointer computation and a volatile access of the ring.\<close>

lemma corr_read_slot:
  assumes "\<And>v. act_rel (loom_rel n) Q (f v) (g v)"
  shows "act_rel (loom_rel n) Q (bind_act (asks (loom_slot idx)) f)
    (bind_act (asks (slot_ptr b u64_pod idx)) (\<lambda>p. bind_act (asks (read_volatile u64_pod p)) g))"
proof -
  have "loom_slot idx L = Done v \<and> slot_ptr b u64_pod idx r = Done p \<and> read_volatile u64_pod p r = Done v
      \<Longrightarrow> out_rel Q (fst (bind_act (asks (loom_slot idx)) f L))
         (fst (bind_act (asks (slot_ptr b u64_pod idx)) (\<lambda>p. bind_act (asks (read_volatile u64_pod p)) g) r))
       \<and> loom_rel n (snd (bind_act (asks (loom_slot idx)) f L))
         (snd (bind_act (asks (slot_ptr b u64_pod idx)) (\<lambda>p. bind_act (asks (read_volatile u64_pod p)) g) r))"
    if "loom_rel n L r" for L r v p
    using that assms by (simp add: act_simps act_rel_def)
  moreover have "\<exists>v p. loom_slot idx L = Done v \<and> slot_ptr b u64_pod idx r = Done p \<and> read_volatile u64_pod p r = Done v"
    if R: "loom_rel n L r" for L r
  proof -
    have lay: "layout_ok u64_pod r" and cap: "cap_of r = 2" using R by (simp_all add: loom_rel_def loom_cap)
    obtain p where p: "slot_ptr b u64_pod idx r = Done p" using slot_ptr_Done [OF lay] by blast
    then show ?thesis using loom_slot_Done [OF R] read_slot_Done [OF lay p] cap by simp
  qed
  ultimately show ?thesis unfolding act_rel_def by blast
qed

lemma corr_write_slot [corr]:
  "act_rel (loom_rel n) (=) (loom_set_slot idx v)
    (bind_act (asks (slot_ptr b u64_pod idx)) (\<lambda>p. write_volatile u64_pod p v))"
proof -
  have "loom_set_slot idx v L = (Done (), L\<lparr>lm_slots := (lm_slots L)[unat idx mod 2 := v]\<rparr>)
      \<and> bind_act (asks (slot_ptr b u64_pod idx)) (\<lambda>p. write_volatile u64_pod p v) r
        = (Done (), upd_data (slot_write u64_pod (unat idx mod 2) v) r)
      \<and> loom_rel n (L\<lparr>lm_slots := (lm_slots L)[unat idx mod 2 := v]\<rparr>) (upd_data (slot_write u64_pod (unat idx mod 2) v) r)"
    if R: "loom_rel n L r" for L r
  proof -
    have lay: "layout_ok u64_pod r" and cap: "cap_of r = 2" using R by (simp_all add: loom_rel_def loom_cap)
    have ok: "slots_ok u64_pod 2 (rdata r)" using layout_okD(2) [OF lay] cap by simp
    obtain p where p: "slot_ptr b u64_pod idx r = Done p" using slot_ptr_Done [OF lay] by blast
    have "layout_ok u64_pod (upd_data (slot_write u64_pod (unat idx mod 2) v) r)"
      using lay cap mapped.ok_wr [OF ok, of "unat idx mod 2" v] by (simp add: layout_ok_def)
    moreover have "[slot_read u64_pod (slot_write u64_pod (unat idx mod 2) v (rdata r)) 0,
        slot_read u64_pod (slot_write u64_pod (unat idx mod 2) v (rdata r)) 1]
      = [slot_read u64_pod (rdata r) 0, slot_read u64_pod (rdata r) 1][unat idx mod 2 := v]"
      using mapped.rd_wr [OF ok, of "unat idx mod 2" _ v] mod_less_divisor [of 2 "unat idx"]
      by (cases "unat idx mod 2 = 0") auto
    ultimately show ?thesis using R loom_slot_Done [OF R] write_slot_Done [OF lay p] cap
      by (auto simp: loom_set_slot_def act_simps loom_mask p loom_rel_def)
  qed
  then show ?thesis by (simp add: act_rel_def)
qed

lemma corr_bind_write_slot:
  assumes "\<And>x. act_rel (loom_rel n) Q (f x) (g x)"
  shows "act_rel (loom_rel n) Q (bind_act (loom_set_slot idx v) f)
    (bind_act (asks (slot_ptr b u64_pod idx)) (\<lambda>p. bind_act (write_volatile u64_pod p v) g))"
proof -
  have "bind_act (asks (slot_ptr b u64_pod idx)) (\<lambda>p. bind_act (write_volatile u64_pod p v) g)
    = bind_act (bind_act (asks (slot_ptr b u64_pod idx)) (\<lambda>p. write_volatile u64_pod p v)) g"
    by (rule ext) (simp add: act_simps)
  then show ?thesis using act_rel_bind_eq [OF corr_write_slot assms] by simp
qed

lemmas corr_bind = corr [THEN act_rel_bind_eq]

section \<open>Push, pop and claim correspond\<close>

lemma corr_try_push: "act_rel (loom_rel n) (=) (loom_try_push b v) (try_push b u64_pod v)"
  unfolding loom_try_push_def try_push_def
  by (intro corr_bind_min_read corr_capacity corr_bind_write_slot corr_bind act_rel_if act_rel_ret refl)

text \<open>\<open>try_pop\<close> after its loan gate.\<close>

definition pop_ungated :: "build \<Rightarrow> usize \<Rightarrow> u64 option ring_act" where
  "pop_ungated b rid =
     bind_act (asks (check_reader b rid)) (\<lambda>_.
     bind_act (gets (\<lambda>r. write_idx (rhdr r))) (\<lambda>w.
     bind_act (asks (\<lambda>r. read_idx rid (rhdr r))) (\<lambda>ri.
     if ri = w then ret None
     else
       bind_act (asks (slot_ptr b u64_pod ri)) (\<lambda>slot.
       bind_act (asks (read_volatile u64_pod slot)) (\<lambda>value.
       bind_act (lift_out (add_w b ri 1)) (\<lambda>ri'.
       bind_act (store_read_idx rid ri') (\<lambda>_. ret (Some value))))))))"

lemma corr_pop_ungated: "rid < n \<Longrightarrow> act_rel (loom_rel n) (=) (loom_try_pop b rid) (pop_ungated b rid)"
  unfolding loom_try_pop_def pop_ungated_def
  by (intro corr_read_slot corr_bind act_rel_if act_rel_ret refl)

lemma try_pop_ungated:
  assumes "unat rid < length (loan_depth r)" and "loan_depth r ! unat rid = 0"
  shows "try_pop b u64_pod rid r = pop_ungated b rid r"
  using assms by (simp add: try_pop_def pop_ungated_def act_simps array_get_def split: outcome.split)

text \<open>A loan of the double matches a loan of the ring at the same index, whose pointer is that of the index's slot.\<close>

definition loan_rel :: "LoomLoan \<Rightarrow> Loan \<Rightarrow> bool" where
  "loan_rel ll l \<longleftrightarrow>
     ll = \<lparr>ll_reader_id = ln_reader l, ll_index = ln_index l, ll_resolved = ln_resolved l\<rparr>
     \<and> unat (ln_ptr l) = 256 + (unat (ln_index l) mod 2) * 8"

lemma corr_slot_ptr:
  assumes "\<And>p. unat p = 256 + (unat idx mod 2) * 8 \<Longrightarrow> act_rel (loom_rel n) Q m (g p)"
  shows "act_rel (loom_rel n) Q m (bind_act (asks (slot_ptr b u64_pod idx)) g)"
proof -
  have "\<exists>p. slot_ptr b u64_pod idx r = Done p \<and> unat p = 256 + (unat idx mod 2) * 8" if R: "loom_rel n L r" for L r
  proof -
    have "layout_ok u64_pod r" "cap_of r = 2" using R by (simp_all add: loom_rel_def loom_cap)
    then show ?thesis using slot_ptr_Done [of u64_pod r b idx] by fastforce
  qed
  then show ?thesis using assms by (fastforce simp: act_rel_def act_simps)
qed

text \<open>Interference that keeps the states matching, without spurious failures.\<close>

definition adv_rel :: "usize \<Rightarrow> (LoomRing \<Rightarrow> LoomRing) \<Rightarrow> bool \<times> (SpmcRingBuffer \<Rightarrow> SpmcRingBuffer) \<Rightarrow> bool" where
  "adv_rel n f a \<longleftrightarrow> \<not> fst a \<and> (\<forall>L r. loom_rel n L r \<longrightarrow> loom_rel n (f L) (snd a r))"

abbreviation claimed :: "usize \<Rightarrow> u64 option \<Rightarrow> Loan option \<Rightarrow> bool" where
  "claimed rid \<equiv> rel_option (\<lambda>i l. loan_rel \<lparr>ll_reader_id = rid, ll_index = i, ll_resolved = False\<rparr> l)"

lemma corr_claim_pass:
  assumes "rid < n" and "adv_rel n f (sp, g)"
  shows "act_rel (loom_rel n) (rel_option (claimed rid)) (loom_claim_pass b rid f) (claim_pass b u64_pod rid sp g)"
proof -
  have other: "act_rel (loom_rel n) (=) (modify f) (modify g)" and sp: "\<not> sp"
    using assms(2) by (simp_all add: adv_rel_def act_rel_def act_simps)
  show ?thesis
    unfolding loom_claim_pass_def claim_pass_def Let_def
    using assms(1) sp
    by (intro corr_bind corr_slot_ptr act_rel_bind_eq [OF other] act_rel_if)
       (auto intro!: corr_bind corr_slot_ptr act_rel_ret simp: loan_rel_def)
qed

lemma corr_claim_loop:
  assumes "rid < n" and "list_all2 (adv_rel n) fs as"
  shows "act_rel (loom_rel n) (claimed rid) (loom_claim_loop b rid fs) (claim_loop b u64_pod rid as)"
  using assms(2)
proof (induction fs as rule: list_all2_induct)
  case Nil
  have "adv_rel n id (False, id)" by (simp add: adv_rel_def)
  from corr_claim_pass [OF assms(1) this] show ?case
    by (auto intro!: act_rel_bind act_rel_ret split: option.split elim!: option.rel_cases)
next
  case (Cons f fs a as)
  have "adv_rel n f (fst a, snd a)" using Cons(1) by simp
  from corr_claim_pass [OF assms(1) this, of b] show ?case
    using Cons.IH by (auto intro!: act_rel_bind act_rel_ret split: option.split elim!: option.rel_cases)
qed

lemma corr_claim:
  assumes "rid < n" and "list_all2 (adv_rel n) fs as"
  shows "act_rel (loom_rel n) (rel_option loan_rel) (loom_claim b fs rid) (claim b u64_pod as rid)"
  unfolding loom_claim_def claim_def
proof (intro corr_bind assms(1) act_rel_bind [OF corr_claim_loop [OF assms]])
  fix i l
  assume i: "claimed rid i l"
  have "act_rel (loom_rel n) (=) (if i = None then loom_upd_depth (\<lambda>d. d - 1) rid else ret ())
    (if l = None then upd_loan_depth (\<lambda>d. d - 1) rid else ret ())"
    using i assms(1) by (cases i; cases l) (auto intro: corr act_rel_ret)
  then show "act_rel (loom_rel n) (rel_option loan_rel)
      (bind_act (if i = None then loom_upd_depth (\<lambda>d. d - 1) rid else ret ())
        (\<lambda>_. ret (map_option (\<lambda>i. \<lparr>ll_reader_id = rid, ll_index = i, ll_resolved = False\<rparr>) i)))
      (bind_act (if l = None then upd_loan_depth (\<lambda>d. d - 1) rid else ret ()) (\<lambda>_. ret l))"
    by (rule act_rel_bind_eq) (use i in \<open>auto intro!: act_rel_ret simp: option.rel_map elim!: option.rel_mono_strong\<close>)
qed

section \<open>Loans correspond\<close>

lemma corr_value:
  assumes "loom_rel n L r" and "loan_rel ll l"
  shows "loom_value ll L = Done (slot_read u64_pod (rdata r) (unat (ln_index l) mod 2))"
    and "loan_deref u64_pod l r = Done (slot_read u64_pod (rdata r) (unat (ln_index l) mod 2))"
proof -
  show "loom_value ll L = Done (slot_read u64_pod (rdata r) (unat (ln_index l) mod 2))"
    using loom_slot_Done [OF assms(1)] assms(2) by (simp add: loom_value_def loan_rel_def)
  have lay: "layout_ok u64_pod r" and cap: "cap_of r = 2" using assms(1) by (simp_all add: loom_rel_def loom_cap)
  obtain p where p: "slot_ptr Release u64_pod (ln_index l) r = Done p"
    "unat p = 256 + (unat (ln_index l) mod cap_of r) * unat (pod_size u64_pod)"
    by (rule slot_ptr_Done [OF lay])
  then have "p = ln_ptr l" using assms(2) cap by (simp add: loan_rel_def word_unat_eq_iff)
  then show "loan_deref u64_pod l r = Done (slot_read u64_pod (rdata r) (unat (ln_index l) mod 2))"
    using read_slot_Done [OF lay p(1)] cap by (simp add: loan_deref_def)
qed

lemma corr_resolve:
  assumes "ln_reader l < n" and "loan_rel ll l"
  shows "act_rel (loom_rel n) loan_rel (loom_resolve ll) (loan_resolve l)"
proof -
  have "ll_reader_id ll = ln_reader l" using assms(2) by (simp add: loan_rel_def)
  then show ?thesis unfolding loom_resolve_def loan_resolve_def
    using assms by (auto intro!: corr_bind act_rel_ret simp: loan_rel_def)
qed

lemma corr_drop:
  assumes "ln_reader l < n" and "loan_rel ll l"
  shows "act_rel (loom_rel n) (=) (loom_drop b ll) (loan_drop b l)"
proof -
  have ll: "ll_reader_id ll = ln_reader l" "ll_index ll = ln_index l" "ll_resolved ll = ln_resolved l"
    using assms(2) by (simp_all add: loan_rel_def)
  show ?thesis unfolding loom_drop_def loan_drop_def ll
    by (intro act_rel_if act_rel_ret refl corr_bind assms(1) act_rel_bind_eq [OF act_rel_if] corr
        act_rel_bind [OF corr_resolve [OF assms]])
qed

lemma corr_abort:
  assumes "ln_reader l < n" and "loan_rel ll l"
  shows "act_rel (loom_rel n) (=) (loom_abort b ll) (loan_abort b l)"
proof -
  have ll: "ll_reader_id ll = ln_reader l" "ll_index ll = ln_index l" "ll_resolved ll = ln_resolved l"
    using assms(2) by (simp_all add: loan_rel_def)
  let ?P = "\<lambda>ll' l'. loan_rel ll' l' \<and> ln_reader l' = ln_reader l"
  have "act_rel (loom_rel n) ?P (loom_resolve ll) (loan_resolve l)"
    unfolding loom_resolve_def loan_resolve_def ll
    using assms by (auto intro!: corr_bind act_rel_ret simp: loan_rel_def)
  then have "act_rel (loom_rel n) ?P
     (if \<not> ln_resolved l then bind_act (loom_upd_base (\<lambda>x. min x (ln_index l)) (ln_reader l)) (\<lambda>_. loom_resolve ll) else ret ll)
     (if \<not> ln_resolved l then bind_act (upd_claim_base (\<lambda>x. min x (ln_index l)) (ln_reader l)) (\<lambda>_. loan_resolve l) else ret l)"
    using assms by (intro act_rel_if corr_bind act_rel_ret) auto
  then show ?thesis unfolding loom_abort_def loan_abort_def ll
    by (rule act_rel_bind) (use corr_drop assms(1) in auto)
qed

lemma bind_act_ret: "bind_act m ret = m"
  by (rule ext) (simp add: bind_act_def ret_def split: prod.split outcome.split)

text \<open>A commit that the ring refuses with \<open>LoanNotAtCursor\<close> is \<open>false\<close> in the double.\<close>

definition committed :: "Loan \<Rightarrow> (ShmRingError, bool \<times> LoomLoan) outcome \<Rightarrow> (ShmRingError, Loan) outcome \<Rightarrow> bool" where
  "committed l x y \<longleftrightarrow>
     (case y of
        Done l' \<Rightarrow> (case x of Done (ok, ll') \<Rightarrow> ok \<and> loan_rel ll' l' | _ \<Rightarrow> False)
      | Fail e \<Rightarrow> (\<exists>c. e = LoanNotAtCursor (ln_index l) c) \<and> (case x of Done (ok, ll') \<Rightarrow> \<not> ok \<and> loan_rel ll' l | _ \<Rightarrow> False)
      | _ \<Rightarrow> x = Panic \<and> y = Panic)"

lemma corr_commit:
  assumes R: "loom_rel n L r" and "ln_reader l < n" and "loan_rel ll l"
  shows "committed l (fst (loom_commit b ll L)) (fst (loan_commit b l r))
    \<and> loom_rel n (snd (loom_commit b ll L)) (snd (loan_commit b l r))"
proof -
  have ll: "ll_reader_id ll = ln_reader l" "ll_index ll = ln_index l" "ll_resolved ll = ln_resolved l"
    using assms(3) by (simp_all add: loan_rel_def)
  obtain c where c: "array_get (lm_read_indices L) (ln_reader l) = (Done c :: (ShmRingError, u64) outcome)"
    "read_idx (ln_reader l) (rhdr r) = (Done c :: (ShmRingError, u64) outcome)"
    using R assms(2) by (auto simp: loom_rel_def array_get_def read_idx_def reader_in_range)
  let ?tail = "bind_act (lift_out (add_w b (ln_index l) 1)) (\<lambda>i. bind_act (loom_store_cursor (ln_reader l) i)
    (\<lambda>_. bind_act (loom_resolve ll) (\<lambda>l'. ret (True, l'))))"
  let ?tail' = "bind_act (lift_out (add_w b (ln_index l) 1)) (\<lambda>i. bind_act (store_read_idx (ln_reader l) i)
    (\<lambda>_. bind_act (loan_resolve l) ret))"
  have "act_rel (loom_rel n) (\<lambda>x l'. fst x \<and> loan_rel (snd x) l') ?tail ?tail'"
    by (intro corr_bind act_rel_bind [OF corr_resolve] act_rel_ret assms(2,3)) simp
  note tail = act_relD [OF this R]
  consider "ln_resolved l" | "\<not> ln_resolved l" "c \<noteq> ln_index l" | "\<not> ln_resolved l" "c = ln_index l" by blast
  then show ?thesis
  proof cases
    case 1
    then show ?thesis using R assms(3) by (simp add: loom_commit_def loan_commit_def ll act_simps committed_def)
  next
    case 2
    then show ?thesis using R assms(3) by (simp add: loom_commit_def loan_commit_def ll act_simps committed_def c)
  next
    case 3
    then have "loom_commit b ll L = ?tail L" "loan_commit b l r = ?tail' r"
      by (simp_all add: loom_commit_def loan_commit_def ll bind_act_ret)
        (simp_all add: bind_act_def act_simps c ll)
    with tail show ?thesis
      by (cases "fst (?tail L)"; cases "fst (?tail' r)") (auto simp: committed_def)
  qed
qed

section \<open>The double as a queue\<close>

lemma loom_push_step:
  assumes "loom_rel n L r"
  shows "out_rel (=) (fst (loom_try_push b v L)) (fst (try_push b u64_pod v r))"
    and "loom_rel n (snd (loom_try_push b v L)) (snd (try_push b u64_pod v r))"
  using act_relD [OF corr_try_push assms] by blast+

lemma loom_pop_step:
  assumes "loom_rel n L r" and "rid < n" and "loan_depth r ! unat rid = 0"
  shows "out_rel (=) (fst (loom_try_pop b rid L)) (fst (try_pop b u64_pod rid r))"
    and "loom_rel n (snd (loom_try_pop b rid L)) (snd (try_pop b u64_pod rid r))"
proof -
  have "unat rid < length (loan_depth r)" using assms(1,2) by (auto simp: loom_rel_def reader_in_range)
  note ungated = try_pop_ungated [OF this assms(3), of b]
  show "out_rel (=) (fst (loom_try_pop b rid L)) (fst (try_pop b u64_pod rid r))"
    and "loom_rel n (snd (loom_try_pop b rid L)) (snd (try_pop b u64_pod rid r))"
    using act_relD [OF corr_pop_ungated [OF assms(2)] assms(1), of b] ungated by simp_all
qed

lemma out_rel_Done: "out_rel (=) x (Done y) \<Longrightarrow> x = Done y"
  by (cases x) simp_all

definition loom_queue :: "usize \<Rightarrow> LoomRing \<Rightarrow> u64 stream \<Rightarrow> bool" where
  "loom_queue n L S \<longleftrightarrow> (\<exists>r. loom_rel n L r \<and> queue_rel u64_pod 2 r S)"

interpretation loom: spmc_queue "loom_try_push b" "\<lambda>i. loom_try_pop b (of_nat i)" "loom_queue n" 2 "2 ^ 64 - 1"
proof unfold_locales
  fix L S
  assume "loom_queue n L S"
  then show "stream_ok 2 S" using ring.rel_ok by (auto simp: loom_queue_def)
next
  fix L S v
  assume "loom_queue n L S" and bound: "length (msgs S) < 2 ^ 64 - 1"
  then obtain r where r: "loom_rel n L r" "queue_rel u64_pod 2 r S" by (auto simp: loom_queue_def)
  obtain r' where r': "try_push b u64_pod v r = (Done (fst (stream_push 2 v S)), r')"
    "queue_rel u64_pod 2 r' (snd (stream_push 2 v S))"
    using ring.push_refines [OF r(2) bound] by blast
  with loom_push_step [OF r(1), of b v]
  show "\<exists>L'. loom_try_push b v L = (Done (fst (stream_push 2 v S)), L') \<and> loom_queue n L' (snd (stream_push 2 v S))"
    by (auto simp: loom_queue_def intro!: exI [of _ "snd (loom_try_push b v L)"] prod_eqI dest: out_rel_Done)
next
  fix L S i
  assume "loom_queue n L S" and i: "i < length (cursors S)"
  then obtain r where r: "loom_rel n L r" "queue_rel u64_pod 2 r S" by (auto simp: loom_queue_def)
  then have rel: "ring_rel u64_pod r S" by (simp add: queue_rel_def)
  have i8: "i < 8" and uid: "unat (of_nat i :: usize) = i"
    using cursor_nth(2) [OF rel i] by (simp_all add: unat_reader_id)
  have "of_nat i < n"
    using length_cursors [OF rel] i r(1) uid by (simp add: word_less_nat_alt loom_rel_def flip: unat_reader_count)
  moreover have "loan_depth r ! unat (of_nat i :: usize) = 0"
    using r i8 uid by (simp add: queue_rel_def no_loans_def loom_rel_def)
  moreover obtain r' where r': "try_pop b u64_pod (of_nat i) r = (Done (fst (stream_pop i S)), r')"
    "queue_rel u64_pod 2 r' (snd (stream_pop i S))"
    using ring.pop_refines [OF r(2) i] by blast
  ultimately show "\<exists>L'. loom_try_pop b (of_nat i) L = (Done (fst (stream_pop i S)), L') \<and> loom_queue n L' (snd (stream_pop i S))"
    using loom_pop_step [OF r(1), of "of_nat i" b]
    by (auto simp: loom_queue_def intro!: exI [of _ "snd (loom_try_pop b (of_nat i) L)"] prod_eqI dest: out_rel_Done)
qed

lemma loom_rel_new:
  assumes "1 \<le> n" and "n \<le> MAX_READERS"
  obtains L r where "with_readers n = Done L" and "loom_rel n L r" and "queue_rel u64_pod 2 r (stream_new (unat n))"
proof -
  let ?h = "sample_header\<lparr>num_readers := ucast n\<rparr>"
  let ?r = "new_handle \<lparr>hdr = ?h, data = replicate 16 0\<rparr> 2 ''ring''"
  have n: "1 \<le> unat n" "unat n \<le> 8" using assms by (simp_all add: MAX_READERS_def word_le_nat_alt)
  then have "unat n < 2 ^ LENGTH(32)" by simp
  then have un: "unat (ucast n :: u32) = unat n" by (simp add: unsigned_ucast_eq take_bit_nat_eq_self)
  then have cnt: "reader_count_of ?h = n"
    using unat_reader_count [of ?h] by (simp add: word_unat_eq_iff)
  have rel: "ring_rel u64_pod ?r (stream_new (unat n))"
    using ring_rel_new [OF u64_pod.pod_type_axioms power_of_two_2, of "replicate 16 0" ?h "''ring''"] n un
    by (simp add: sample_header_def header_wf_def)
  have zero: "slot_read u64_pod (replicate 16 0) i = 0" if "i < 2" for i
    using that by (auto simp: slot_read_def load_def less_2_cases_iff)
  let ?L = "\<lparr> lm_write_idx = 0, lm_read_indices = replicate 8 0, lm_num_readers = n, lm_total_written = 0,
    lm_claim_base = replicate 8 0, lm_loan_depth = replicate 8 0, lm_slots = [0, 0] \<rparr>"
  have "replicate 2 (0 :: u64) = [0, 0]" by (simp add: numeral_2_eq_2)
  then have "with_readers n = Done ?L" using assms by (simp add: with_readers_def MAX_READERS_def LOOM_CAPACITY_def)
  moreover have "loom_rel n ?L ?r"
    using cnt assms zero [of 0] zero [of 1] ring_rel_layout [OF rel]
    by (simp add: loom_rel_def new_handle_def MAX_READERS_def LOOM_CAPACITY_def sample_header_def)
  moreover have "queue_rel u64_pod 2 ?r (stream_new (unat n))"
    using rel by (simp add: queue_rel_def no_loans_def new_handle_def)
  ultimately show ?thesis by (rule that)
qed

section \<open>Properties\<close>

text \<open>
  The double is an implementation of the broadcast stream: from \<open>with_readers n\<close>, every
  sequence of pushes and pops is answered as the abstract stream of two slots answers it, in both builds, with no
  panic. (A created ring of two slots answers it the same way.)
\<close>

lemma loom_double_is_stream:
  assumes "1 \<le> n" and "n \<le> MAX_READERS" and "list_all (op_valid (unat n)) ops" and "push_count ops \<le> 2 ^ 64 - 1"
  shows "\<exists>L L'. with_readers n = Done L \<and> run_ops (loom_try_push b) (\<lambda>i. loom_try_pop b (of_nat i)) ops L
    = (Done (fst (stream_run 2 ops (stream_new (unat n)))), L')"
proof -
  obtain L r where L: "with_readers n = Done L" "loom_rel n L r" "queue_rel u64_pod 2 r (stream_new (unat n))"
    by (rule loom_rel_new [OF assms(1,2)])
  then have "loom_queue n L (stream_new (unat n))" by (auto simp: loom_queue_def)
  from loom.run_refines [OF this, of ops b] assms(3,4) L(1) show ?thesis by (auto simp: stream_new_def)
qed

text \<open>
  C24. From matching states, the loan operations of the double and of the ring have corresponding
  outcomes and lead to matching states: a claim (under interference that keeps the states matching) hands out
  the loan at the same index, the loans read the same value, a commit answers \<open>false\<close> exactly when
  the ring's is refused with \<open>LoanNotAtCursor\<close>, and drop and abort do the same.
\<close>

theorem loom_loans_match:
  assumes "loom_rel n L r" and "rid < n" and "list_all2 (adv_rel n) fs as" and "loan_rel ll l" and "ln_reader l < n"
  shows "out_rel (rel_option loan_rel) (fst (loom_claim b fs rid L)) (fst (claim b u64_pod as rid r))
    \<and> loom_rel n (snd (loom_claim b fs rid L)) (snd (claim b u64_pod as rid r))
    \<and> loom_value ll L = loan_deref u64_pod l r
    \<and> committed l (fst (loom_commit b ll L)) (fst (loan_commit b l r))
    \<and> loom_rel n (snd (loom_commit b ll L)) (snd (loan_commit b l r))
    \<and> out_rel (=) (fst (loom_drop b ll L)) (fst (loan_drop b l r))
    \<and> loom_rel n (snd (loom_drop b ll L)) (snd (loan_drop b l r))
    \<and> out_rel (=) (fst (loom_abort b ll L)) (fst (loan_abort b l r))
    \<and> loom_rel n (snd (loom_abort b ll L)) (snd (loan_abort b l r))"
  using act_relD [OF corr_claim [OF assms(2,3)] assms(1), of b] corr_value [OF assms(1,4)]
    corr_commit [OF assms(1,5,4), of b] act_relD [OF corr_drop [OF assms(5,4)] assms(1), of b]
    act_relD [OF corr_abort [OF assms(5,4)] assms(1), of b]
  by simp

text \<open>The double of \<open>sample_loaned\<close>: two messages, a loan on the first.\<close>

definition loom_loaned :: LoomRing where
  "loom_loaned = \<lparr> lm_write_idx = 2, lm_read_indices = replicate 8 0, lm_num_readers = 2, lm_total_written = 2,
     lm_claim_base = 1 # replicate 7 0, lm_loan_depth = 1 # replicate 7 0, lm_slots = [7, 9] \<rparr>"

lemma loom_loaned_rel: "loom_rel 2 loom_loaned sample_loaned"
proof -
  note rel = sample_loaned_rel
  have cnt: "reader_count_of (rhdr sample_loaned) = 2" by (simp add: reader_count_of_def)
  have slots: "slot_read u64_pod (rdata sample_loaned) 0 = 7" "slot_read u64_pod (rdata sample_loaned) 1 = 9"
    using live_windowD [OF ring_relD(6) [OF rel], of 0] live_windowD [OF ring_relD(6) [OF rel], of 1] by simp_all
  have "total_written (rhdr sample_loaned) = 2" using ring_relD(3) [OF rel] by simp
  then show ?thesis using cnt slots ring_rel_layout [OF rel]
    by (simp add: loom_rel_def loom_loaned_def LOOM_CAPACITY_def MAX_READERS_def)
qed

theorem loom_loans_match_witness:
  "loom_value \<lparr>ll_reader_id = 0, ll_index = 0, ll_resolved = False\<rparr> loom_loaned = loan_deref u64_pod sample_loan sample_loaned
   \<and> out_rel (rel_option loan_rel) (fst (loom_claim Debug [] 0 loom_loaned)) (fst (claim Debug u64_pod [] 0 sample_loaned))"
  using loom_loans_match [OF loom_loaned_rel, of 0 "[]" "[]" _ sample_loan Debug] by (simp add: loan_rel_def)

text \<open>
  The loan gate has no double: with a loan open, \<open>try_pop\<close> of the ring is refused with
  \<open>LoanOutstanding\<close>, while the double's, from the matching state, pops the message under the loan and
  moves the cursor past it.
\<close>

lemma loom_pop_ignores_gate:
  "loom_rel 2 loom_loaned sample_loaned
   \<and> fst (try_pop b u64_pod 0 sample_loaned) = Fail (LoanOutstanding 0)
   \<and> fst (loom_try_pop b 0 loom_loaned) = Done (Some 7)
   \<and> lm_read_indices (snd (loom_try_pop b 0 loom_loaned)) ! 0 = 1"
proof (intro conjI loom_loaned_rel)
  have "check_reader b 0 sample_loaned = Done ()"
    using check_reader_Done [OF sample_loaned_rel, of 0] by simp
  then show "fst (try_pop b u64_pod 0 sample_loaned) = Fail (LoanOutstanding 0)"
    by (simp add: try_pop_def act_simps array_get_def)
  show "fst (loom_try_pop b 0 loom_loaned) = Done (Some 7)"
    and "lm_read_indices (snd (loom_try_pop b 0 loom_loaned)) ! 0 = 1"
    by (induction b) code_simp+
qed

end
