(* ===== verification/Loan_Protocol.thy ===== *)
theory Loan_Protocol
  imports Protocol
begin

text \<open>
  Zero-copy loans under concurrent memory accesses (\<open>src/loan.rs\<close> with \<open>try_push\<close> and
  \<open>try_pop\<close> of \<open>src/ring.rs\<close>): a producer, one consuming thread per reader, which claims and
  pops, and loans that may be dereferenced and resolved on other threads, as \<open>Loan\<close> is
  \<open>Send\<close>. One atomic or slot access per step, with the orderings of the code: the indices are
  acquire/release, \<open>claim_base\<close> and \<open>loan_depth\<close> are \<open>Relaxed\<close>.

  The memory model is that of \<open>Protocol\<close>, with sets of read events instead of read counters,
  because the reads for one reader are no longer made by one thread. A \<open>Relaxed\<close> load returns any
  value not older than the last one its thread knows and synchronises with nothing; a
  read-modify-write reads the last value.
\<close>

section \<open>Clocks\<close>

text \<open>What happens before: the number of slot writes, and the slot reads by their number.\<close>

datatype clock = Clock (wr: nat) (rds: "nat set")

instantiation clock :: "{semilattice_sup, order_bot}"
begin

definition less_eq_clock :: "clock \<Rightarrow> clock \<Rightarrow> bool" where
  "less_eq_clock a b \<longleftrightarrow> wr a \<le> wr b \<and> rds a \<subseteq> rds b"

definition less_clock :: "clock \<Rightarrow> clock \<Rightarrow> bool" where
  "less_clock a b \<longleftrightarrow> a \<le> b \<and> \<not> b \<le> a"

definition sup_clock :: "clock \<Rightarrow> clock \<Rightarrow> clock" where
  "sup_clock a b = Clock (max (wr a) (wr b)) (rds a \<union> rds b)"

definition bot_clock :: clock where
  "bot_clock = Clock 0 {}"

instance
  by standard (auto simp: less_eq_clock_def less_clock_def sup_clock_def bot_clock_def intro: clock.expand)

end

lemma clock_sup_simps [simp]:
  "wr (sup a b) = max (wr a) (wr b)" "rds (sup a b) = rds a \<union> rds b"
  by (simp_all add: sup_clock_def)

lemma clock_bot_simps [simp]: "wr bot = 0" "rds bot = {}"
  by (simp_all add: bot_clock_def)

definition wrote :: "nat \<Rightarrow> clock \<Rightarrow> clock" where
  "wrote k v = Clock k (rds v)"

definition has_read :: "nat \<Rightarrow> clock \<Rightarrow> clock" where
  "has_read e v = Clock (wr v) (insert e (rds v))"

lemma clock_access_simps [simp]:
  "wr (wrote k v) = k" "rds (wrote k v) = rds v" "wr (has_read e v) = wr v" "rds (has_read e v) = insert e (rds v)"
  by (simp_all add: wrote_def has_read_def)

section \<open>State\<close>

text \<open>
  Where a reader's consuming thread stands in \<open>try_pop\<close> (after the gate) or \<open>claim\<close>
  (after the gate is raised).
\<close>

datatype 'v c_pc =
    CIdle | CPopW | CPopCursor nat | CPopRead nat | CPopStore nat 'v
  | CClaimW | CClaimCursor nat | CClaimBase nat nat | CClaimCas nat nat nat | CClaimNone

text \<open>
  A loan and the thread that holds it: held, about to store the cursor (commit, or drop at the
  cursor), or about to lower the gate (\<open>True\<close>: after an abort).
\<close>

datatype h_pc = Held | Storing | Leaving bool

record holder =
  h_index :: nat
  h_clock :: clock
  h_seen :: nat
  h_pc :: h_pc

record 'v lsys =
  wmsgs :: "(nat \<times> clock) list"            \<comment> \<open>messages of \<open>write_idx\<close>\<close>
  cmsgs :: "nat \<Rightarrow> (nat \<times> clock) list"  \<comment> \<open>messages of each cursor\<close>
  dvals :: "nat \<Rightarrow> nat list"               \<comment> \<open>values of each \<open>loan_depth\<close>\<close>
  bvals :: "nat \<Rightarrow> nat list"               \<comment> \<open>values of each \<open>claim_base\<close>\<close>
  lslots :: "nat \<Rightarrow> 'v"
  slot_w :: "nat \<Rightarrow> nat"                   \<comment> \<open>last write of a slot, by number, from 1\<close>
  rlog :: "(nat \<times> nat \<times> 'v) list"    \<comment> \<open>slot reads: reader, stream index, value\<close>
  lp_pc :: "'v p_pc"
  lp_clock :: clock
  lp_seen :: "nat \<Rightarrow> nat"
  lc_pc :: "nat \<Rightarrow> 'v c_pc"
  lc_clock :: "nat \<Rightarrow> clock"
  w_seen :: "nat \<Rightarrow> nat"
  c_seen :: "nat \<Rightarrow> nat"
  d_seen :: "nat \<Rightarrow> nat"
  b_seen :: "nat \<Rightarrow> nat"
  loans :: "nat \<Rightarrow> holder list"
  gone :: "nat \<Rightarrow> holder list"             \<comment> \<open>resolved, and the consuming thread has not synchronised with it\<close>
  lraced :: bool
  lcrashed :: bool
  lpub :: "'v list"

definition lsys_init :: "(nat \<Rightarrow> 'v) \<Rightarrow> 'v lsys" where
  "lsys_init junk =
     \<lparr> wmsgs = [(0, bot)], cmsgs = (\<lambda>_. [(0, bot)]), dvals = (\<lambda>_. [0]), bvals = (\<lambda>_. [0]), lslots = junk,
       slot_w = (\<lambda>_. 0), rlog = [], lp_pc = PIdle, lp_clock = bot, lp_seen = (\<lambda>_. 0), lc_pc = (\<lambda>_. CIdle),
       lc_clock = (\<lambda>_. bot), w_seen = (\<lambda>_. 0), c_seen = (\<lambda>_. 0), d_seen = (\<lambda>_. 0), b_seen = (\<lambda>_. 0),
       loans = (\<lambda>_. []), gone = (\<lambda>_. []), lraced = False, lcrashed = False, lpub = [] \<rparr>"

section \<open>Steps\<close>

text \<open>
  The producer's accesses, the consuming thread's, and the holders'. A number after the reader (and the
  position of the loan) is the message a load returns. \<open>HCursor\<close> is the load of commit and of drop
  (\<open>True\<close>); \<open>CSync\<close> is the consuming thread joining the threads whose loans are resolved.
\<close>

datatype 'v levent =
    LPush 'v | LScan nat | LDecide | LWrite | LPublish | LCount
  | CPop nat nat | CLoadW nat nat | CLoadCursor nat nat | CRead nat | CStore nat
  | CClaim nat | CLoadBase nat nat | CCas nat bool | CNone nat | CSync nat
  | HDeref nat nat | HCursor nat nat nat bool | HStore nat nat | HAbort nat nat | HResolve nat nat

definition read_races :: "nat \<Rightarrow> nat \<Rightarrow> clock \<Rightarrow> 'v lsys \<Rightarrow> bool" where
  "read_races cap idx v c \<longleftrightarrow> wr v < slot_w c (idx mod cap)"

definition write_races :: "nat \<Rightarrow> nat \<Rightarrow> clock \<Rightarrow> 'v lsys \<Rightarrow> bool" where
  "write_races cap w v c \<longleftrightarrow>
     wr v < slot_w c (w mod cap)
     \<or> list_ex (\<lambda>e. fst (snd (rlog c ! e)) mod cap = w mod cap \<and> e \<notin> rds v) [0..<length (rlog c)]"

fun lp_step :: "nat \<Rightarrow> nat \<Rightarrow> 'v levent \<Rightarrow> 'v lsys \<Rightarrow> 'v lsys option" where
  "lp_step n cap (LPush v) c =
     (if lp_pc c = PIdle then Some (c\<lparr>lp_pc := PScan v (fst (last (wmsgs c))) 0 U64_MAX\<rparr>) else None)"
| "lp_step n cap (LScan t) c =
     (case lp_pc c of
        PScan v w j m \<Rightarrow>
          if j < n \<and> lp_seen c j \<le> t \<and> t < length (cmsgs c j) then
            (let (r, vv) = cmsgs c j ! t in
             Some (c\<lparr>lp_pc := PScan v w (Suc j) (min m r), lp_clock := sup (lp_clock c) vv,
                     lp_seen := (lp_seen c)(j := t)\<rparr>))
          else None
      | _ \<Rightarrow> None)"
| "lp_step n cap LDecide c =
     (case lp_pc c of
        PScan v w j m \<Rightarrow>
          if j \<noteq> n then None
          else if w < m then Some (c\<lparr>lcrashed := True\<rparr>)
          else if cap \<le> w - m then Some (c\<lparr>lp_pc := PIdle\<rparr>)
          else Some (c\<lparr>lp_pc := PWrite v w\<rparr>)
      | _ \<Rightarrow> None)"
| "lp_step n cap LWrite c =
     (case lp_pc c of
        PWrite v w \<Rightarrow>
          (let s = w mod cap; k = Suc (wr (lp_clock c)) in
           Some (c\<lparr>lp_pc := PPublish v w, lslots := (lslots c)(s := v), slot_w := (slot_w c)(s := k),
                   lp_clock := wrote k (lp_clock c), lraced := (lraced c \<or> write_races cap w (lp_clock c) c)\<rparr>))
      | _ \<Rightarrow> None)"
| "lp_step n cap LPublish c =
     (case lp_pc c of
        PPublish v w \<Rightarrow>
          if U64_MAX \<le> w then Some (c\<lparr>lcrashed := True\<rparr>)
          else Some (c\<lparr>lp_pc := PCount, wmsgs := wmsgs c @ [(Suc w, lp_clock c)], lpub := lpub c @ [v]\<rparr>)
      | _ \<Rightarrow> None)"
| "lp_step n cap LCount c = (case lp_pc c of PCount \<Rightarrow> Some (c\<lparr>lp_pc := PIdle\<rparr>) | _ \<Rightarrow> None)"
| "lp_step n cap _ c = None"

text \<open>
  \<open>try_pop\<close> and \<open>claim\<close>. A compare-exchange that fails on another value than the expected has read a
  message after the one that was loaded; one that fails spuriously may have read that one again.
\<close>

fun lc_step :: "nat \<Rightarrow> nat \<Rightarrow> 'v levent \<Rightarrow> 'v lsys \<Rightarrow> 'v lsys option" where
  "lc_step n cap (CPop i t) c =
     (if i < n \<and> lc_pc c i = CIdle \<and> d_seen c i \<le> t \<and> t < length (dvals c i) then
        Some (c\<lparr>lc_pc := (lc_pc c)(i := if dvals c i ! t \<noteq> 0 then CIdle else CPopW),
                d_seen := (d_seen c)(i := t)\<rparr>)
      else None)"
| "lc_step n cap (CLoadW i t) c =
     (if i < n \<and> (lc_pc c i = CPopW \<or> lc_pc c i = CClaimW) \<and> w_seen c i \<le> t \<and> t < length (wmsgs c) then
        (let (w, vv) = wmsgs c ! t in
         Some (c\<lparr>lc_pc := (lc_pc c)(i := if lc_pc c i = CPopW then CPopCursor w else CClaimCursor w),
                 lc_clock := (lc_clock c)(i := sup (lc_clock c i) vv), w_seen := (w_seen c)(i := t)\<rparr>))
      else None)"
| "lc_step n cap (CLoadCursor i t) c =
     (if i < n \<and> c_seen c i \<le> t \<and> t < length (cmsgs c i) then
        (let (r, vv) = cmsgs c i ! t;
             c' = c\<lparr>lc_clock := (lc_clock c)(i := sup (lc_clock c i) vv), c_seen := (c_seen c)(i := t)\<rparr> in
         case lc_pc c i of
           CPopCursor w \<Rightarrow> Some (c'\<lparr>lc_pc := (lc_pc c)(i := if r = w then CIdle else CPopRead r)\<rparr>)
         | CClaimCursor w \<Rightarrow> Some (c'\<lparr>lc_pc := (lc_pc c)(i := CClaimBase w r)\<rparr>)
         | _ \<Rightarrow> None)
      else None)"
| "lc_step n cap (CRead i) c =
     (case lc_pc c i of
        CPopRead r \<Rightarrow>
          if \<not> i < n then None
          else Some (c\<lparr>lc_pc := (lc_pc c)(i := CPopStore r (lslots c (r mod cap))),
                       lc_clock := (lc_clock c)(i := has_read (length (rlog c)) (lc_clock c i)),
                       rlog := rlog c @ [(i, r, lslots c (r mod cap))],
                       lraced := (lraced c \<or> read_races cap r (lc_clock c i) c)\<rparr>)
      | _ \<Rightarrow> None)"
| "lc_step n cap (CStore i) c =
     (case lc_pc c i of
        CPopStore r v \<Rightarrow>
          if \<not> i < n then None
          else Some (c\<lparr>lc_pc := (lc_pc c)(i := CIdle),
                       cmsgs := (cmsgs c)(i := cmsgs c i @ [(Suc r, lc_clock c i)]),
                       c_seen := (c_seen c)(i := length (cmsgs c i))\<rparr>)
      | _ \<Rightarrow> None)"
| "lc_step n cap (CClaim i) c =
     (if i < n \<and> lc_pc c i = CIdle then
        Some (c\<lparr>lc_pc := (lc_pc c)(i := CClaimW), dvals := (dvals c)(i := dvals c i @ [Suc (last (dvals c i))]),
                d_seen := (d_seen c)(i := length (dvals c i))\<rparr>)
      else None)"
| "lc_step n cap (CLoadBase i t) c =
     (case lc_pc c i of
        CClaimBase w r \<Rightarrow>
          if i < n \<and> b_seen c i \<le> t \<and> t < length (bvals c i) then
            (let b = bvals c i ! t in
             Some (c\<lparr>lc_pc := (lc_pc c)(i := if w \<le> max b r then CClaimNone else CClaimCas w r b),
                     b_seen := (b_seen c)(i := t)\<rparr>))
          else None
      | _ \<Rightarrow> None)"
| "lc_step n cap (CCas i spurious) c =
     (case lc_pc c i of
        CClaimCas w r b \<Rightarrow>
          if \<not> i < n then None
          else if spurious then Some (c\<lparr>lc_pc := (lc_pc c)(i := CClaimW)\<rparr>)
          else if last (bvals c i) \<noteq> b then
            Some (c\<lparr>lc_pc := (lc_pc c)(i := CClaimW), b_seen := (b_seen c)(i := Suc (b_seen c i))\<rparr>)
          else Some (c\<lparr>lc_pc := (lc_pc c)(i := CIdle), bvals := (bvals c)(i := bvals c i @ [Suc (max b r)]),
                       b_seen := (b_seen c)(i := length (bvals c i)),
                       loans := (loans c)(i := loans c i @
                         [\<lparr>h_index = max b r, h_clock = lc_clock c i, h_seen = c_seen c i, h_pc = Held\<rparr>])\<rparr>)
      | _ \<Rightarrow> None)"
| "lc_step n cap (CNone i) c =
     (if i < n \<and> lc_pc c i = CClaimNone then
        Some (c\<lparr>lc_pc := (lc_pc c)(i := CIdle), dvals := (dvals c)(i := dvals c i @ [last (dvals c i) - 1]),
                d_seen := (d_seen c)(i := length (dvals c i))\<rparr>)
      else None)"
| "lc_step n cap (CSync i) c =
     (if i < n \<and> lc_pc c i = CIdle then
        Some (c\<lparr>lc_clock := (lc_clock c)(i := fold sup (map h_clock (gone c i)) (lc_clock c i)),
                c_seen := (c_seen c)(i := fold max (map h_seen (gone c i)) (c_seen c i)), gone := (gone c)(i := [])\<rparr>)
      else None)"
| "lc_step n cap _ c = None"

text \<open>The holder of loan \<open>k\<close>: deref, commit, drop, abort.\<close>

fun lh_step :: "nat \<Rightarrow> nat \<Rightarrow> 'v levent \<Rightarrow> 'v lsys \<Rightarrow> 'v lsys option" where
  "lh_step n cap (HDeref i k) c =
     (if i < n \<and> k < length (loans c i) \<and> h_pc (loans c i ! k) = Held then
        (let h = loans c i ! k; v = lslots c (h_index h mod cap) in
         Some (c\<lparr>loans := (loans c)(i := (loans c i)[k := h\<lparr>h_clock := has_read (length (rlog c)) (h_clock h)\<rparr>]),
                 rlog := rlog c @ [(i, h_index h, v)],
                 lraced := (lraced c \<or> read_races cap (h_index h) (h_clock h) c)\<rparr>))
      else None)"
| "lh_step n cap (HCursor i k t dropping) c =
     (if i < n \<and> k < length (loans c i) \<and> h_pc (loans c i ! k) = Held
         \<and> h_seen (loans c i ! k) \<le> t \<and> t < length (cmsgs c i) then
        (let h = loans c i ! k; (r, vv) = cmsgs c i ! t;
             pc = (if r = h_index h then Storing else if dropping then Leaving False else Held) in
         Some (c\<lparr>loans := (loans c)(i := (loans c i)[k := h\<lparr>h_clock := sup (h_clock h) vv, h_seen := t, h_pc := pc\<rparr>])\<rparr>))
      else None)"
| "lh_step n cap (HStore i k) c =
     (if i < n \<and> k < length (loans c i) \<and> h_pc (loans c i ! k) = Storing then
        (let h = loans c i ! k in
         Some (c\<lparr>cmsgs := (cmsgs c)(i := cmsgs c i @ [(Suc (h_index h), h_clock h)]),
                 loans := (loans c)(i := (loans c i)[k := h\<lparr>h_seen := length (cmsgs c i), h_pc := Leaving False\<rparr>])\<rparr>))
      else None)"
| "lh_step n cap (HAbort i k) c =
     (if i < n \<and> k < length (loans c i) \<and> h_pc (loans c i ! k) = Held then
        (let h = loans c i ! k in
         Some (c\<lparr>bvals := (bvals c)(i := bvals c i @ [min (last (bvals c i)) (h_index h)]),
                 loans := (loans c)(i := (loans c i)[k := h\<lparr>h_pc := Leaving True\<rparr>])\<rparr>))
      else None)"
| "lh_step n cap (HResolve i k) c =
     (if i < n \<and> k < length (loans c i) \<and> (h_pc (loans c i ! k) = Leaving True \<or> h_pc (loans c i ! k) = Leaving False) then
        Some (c\<lparr>dvals := (dvals c)(i := dvals c i @ [last (dvals c i) - 1]),
                loans := (loans c)(i := take k (loans c i) @ drop (Suc k) (loans c i)),
                gone := (gone c)(i := gone c i @ [loans c i ! k])\<rparr>)
      else None)"
| "lh_step n cap _ c = None"

definition lstep :: "nat \<Rightarrow> nat \<Rightarrow> 'v levent \<Rightarrow> 'v lsys \<Rightarrow> 'v lsys option" where
  "lstep n cap e c =
     (if lcrashed c then None
      else case lp_step n cap e c of
          Some c' \<Rightarrow> Some c'
        | None \<Rightarrow> (case lc_step n cap e c of Some c' \<Rightarrow> Some c' | None \<Rightarrow> lh_step n cap e c))"

fun lrun :: "nat \<Rightarrow> nat \<Rightarrow> 'v levent list \<Rightarrow> 'v lsys \<Rightarrow> 'v lsys option" where
  "lrun n cap [] c = Some c"
| "lrun n cap (e # es) c = (case lstep n cap e c of Some c' \<Rightarrow> lrun n cap es c' | None \<Rightarrow> None)"

section \<open>The discipline\<close>

text \<open>
  A pop comes after the consuming thread has synchronised with the threads that resolved its loans (as it
  has when the loans never left it); only the newest loan is aborted, and no claim is
  made while an aborted loan has not been synchronised with.
\<close>

fun aborted :: "h_pc \<Rightarrow> bool" where
  "aborted (Leaving a) = a"
| "aborted _ = False"

fun orderly :: "'v levent \<Rightarrow> 'v lsys \<Rightarrow> bool" where
  "orderly (CPop i t) c = (gone c i = [])"
| "orderly (CCas i spurious) c = (\<forall>h \<in> set (loans c i @ gone c i). \<not> aborted (h_pc h))"
| "orderly (HAbort i k) c = (Suc (h_index (loans c i ! k)) = last (bvals c i))"
| "orderly _ c = True"

inductive loan_reachable :: "nat \<Rightarrow> nat \<Rightarrow> 'v lsys \<Rightarrow> bool" for n cap where
  init: "loan_reachable n cap (lsys_init junk)"
| step: "loan_reachable n cap c \<Longrightarrow> orderly e c \<Longrightarrow> lstep n cap e c = Some c' \<Longrightarrow> loan_reachable n cap c'"

end
