(* ===== verification/Loan_Protocol_Inv.thy ===== *)
theory Loan_Protocol_Inv
  imports Loan_Protocol Protocol_Inv
begin

text \<open>
  The invariant of the loan protocol and its preservation by every disciplined access. Who knows of a
  slot read: before the cursor has passed the index, the thread that holds the loan, or the
  consuming thread, or a resolved loan it still has to synchronise with; afterwards every cursor message
  beyond the index, and so the producer before it writes the slot again.
\<close>

section \<open>Reads and who knows of them\<close>

definition reads_below :: "nat \<Rightarrow> nat \<Rightarrow> (nat \<times> nat \<times> 'v) list \<Rightarrow> clock \<Rightarrow> bool" where
  "reads_below i k rl v \<longleftrightarrow> (\<forall>e < length rl. fst (rl ! e) = i \<and> fst (snd (rl ! e)) < k \<longrightarrow> e \<in> rds v)"

definition reads_at :: "nat \<Rightarrow> nat \<Rightarrow> (nat \<times> nat \<times> 'v) list \<Rightarrow> clock \<Rightarrow> bool" where
  "reads_at i x rl v \<longleftrightarrow> (\<forall>e < length rl. fst (rl ! e) = i \<and> fst (snd (rl ! e)) = x \<longrightarrow> e \<in> rds v)"

lemma clock_leD: "a \<le> b \<Longrightarrow> wr a \<le> wr b" "a \<le> b \<Longrightarrow> e \<in> rds a \<Longrightarrow> e \<in> rds b"
  by (auto simp: less_eq_clock_def)

lemma reads_mono:
  "reads_below i k rl a \<Longrightarrow> a \<le> b \<Longrightarrow> reads_below i k rl b"
  "reads_at i k rl a \<Longrightarrow> a \<le> b \<Longrightarrow> reads_at i k rl b"
  by (auto simp: reads_below_def reads_at_def less_eq_clock_def)

lemma reads_below_less: "reads_below i k rl v \<Longrightarrow> j \<le> k \<Longrightarrow> reads_below i j rl v"
  by (auto simp: reads_below_def)

lemma reads_below_Suc: "reads_below i (Suc k) rl v \<longleftrightarrow> reads_below i k rl v \<and> reads_at i k rl v"
  by (auto simp: reads_below_def reads_at_def less_Suc_eq)

lemma reads_append [simp]:
  "reads_below i k (rl @ [(j, x, w)]) v \<longleftrightarrow> reads_below i k rl v \<and> (j = i \<and> x < k \<longrightarrow> length rl \<in> rds v)"
  "reads_at i k (rl @ [(j, x, w)]) v \<longleftrightarrow> reads_at i k rl v \<and> (j = i \<and> x = k \<longrightarrow> length rl \<in> rds v)"
  by (auto simp: reads_below_def reads_at_def nth_append less_Suc_eq)

lemma reads_Nil [simp]: "reads_below i k [] v" "reads_at i k [] v"
  by (simp_all add: reads_below_def reads_at_def)

lemma reads_has_read [simp]:
  "reads_below i k rl v \<Longrightarrow> reads_below i k rl (has_read e v)"
  "reads_at i k rl v \<Longrightarrow> reads_at i k rl (has_read e v)"
  by (auto simp: reads_below_def reads_at_def)

lemma reads_wrote [simp]:
  "reads_below i k rl (wrote m v) = reads_below i k rl v"
  by (simp add: reads_below_def)

lemma reads_sup [simp]:
  "reads_below i k rl a \<Longrightarrow> reads_below i k rl (sup a b)" "reads_below i k rl b \<Longrightarrow> reads_below i k rl (sup a b)"
  "reads_at i k rl a \<Longrightarrow> reads_at i k rl (sup a b)" "reads_at i k rl b \<Longrightarrow> reads_at i k rl (sup a b)"
  by (auto simp: reads_below_def reads_at_def)

section \<open>The invariant\<close>

definition wmsgs_ok :: "(nat \<times> clock) list \<Rightarrow> bool" where
  "wmsgs_ok h \<longleftrightarrow> h \<noteq> [] \<and> (\<forall>t < length h. fst (h ! t) = t \<and> t \<le> wr (snd (h ! t)))"

definition cmsgs_ok :: "nat \<Rightarrow> (nat \<times> nat \<times> 'v) list \<Rightarrow> (nat \<times> clock) list \<Rightarrow> bool" where
  "cmsgs_ok i rl h \<longleftrightarrow> h \<noteq> [] \<and> (\<forall>t < length h. fst (h ! t) = t \<and> reads_below i t rl (snd (h ! t)))"

abbreviation cursor :: "(nat \<times> clock) list \<Rightarrow> nat" where
  "cursor h \<equiv> length h - 1"

definition window_ok :: "nat \<Rightarrow> nat \<Rightarrow> 'v list \<Rightarrow> (nat \<Rightarrow> 'v) \<Rightarrow> (nat \<Rightarrow> nat) \<Rightarrow> bool" where
  "window_ok cap N pub sl sw \<longleftrightarrow>
     (\<forall>s. sw s \<le> N) \<and> (\<forall>y < N. N \<le> y + cap \<longrightarrow> sw (y mod cap) = Suc y)
     \<and> (\<forall>y < length pub. N \<le> y + cap \<longrightarrow> sl (y mod cap) = pub ! y)"

definition msgs_le :: "nat \<Rightarrow> (nat \<times> clock) list \<Rightarrow> bool" where
  "msgs_le N h \<longleftrightarrow> (\<forall>m \<in> set h. wr (snd m) \<le> N)"

lemma msgs_le_simps [simp]:
  "msgs_le N []" "msgs_le N (m # h) \<longleftrightarrow> wr (snd m) \<le> N \<and> msgs_le N h"
  "msgs_le N (h @ h') \<longleftrightarrow> msgs_le N h \<and> msgs_le N h'"
  by (auto simp: msgs_le_def)

lemma msgs_le_mono: "msgs_le N h \<Longrightarrow> N \<le> N' \<Longrightarrow> msgs_le N' h"
  by (auto simp: msgs_le_def)

definition prod_ok :: "nat \<Rightarrow> nat \<Rightarrow> (nat \<times> nat \<times> 'v) list \<Rightarrow> (nat \<times> clock) list \<Rightarrow> 'v list \<Rightarrow> 'v p_pc \<Rightarrow> clock
    \<Rightarrow> (nat \<Rightarrow> nat) \<Rightarrow> (nat \<Rightarrow> (nat \<times> clock) list) \<Rightarrow> (nat \<Rightarrow> 'v) \<Rightarrow> (nat \<Rightarrow> nat) \<Rightarrow> bool" where
  "prod_ok n cap rl wm pub pc v seen cms sl sw \<longleftrightarrow>
     wmsgs_ok wm \<and> length wm = Suc (length pub) \<and> length pub \<le> U64_MAX \<and> msgs_le (wr v) wm
     \<and> (\<forall>i < n. seen i < length (cms i) \<and> reads_below i (seen i) rl v \<and> wr v \<le> cursor (cms i) + cap)
     \<and> window_ok cap (wr v) pub sl sw \<and> p_pc_ok n cap (length pub) (wr v) seen sl pc"

definition is_open :: "holder \<Rightarrow> bool" where
  "is_open h \<longleftrightarrow> h_pc h = Held \<or> h_pc h = Storing"

definition holder_ok :: "nat \<Rightarrow> (nat \<times> nat \<times> 'v) list \<Rightarrow> nat \<Rightarrow> nat \<Rightarrow> nat \<Rightarrow> holder \<Rightarrow> bool" where
  "holder_ok i rl ws C B h \<longleftrightarrow>
     h_seen h \<le> C \<and> (\<not> aborted (h_pc h) \<longrightarrow> h_index h < B)
     \<and> (is_open h \<longrightarrow> C \<le> h_index h \<and> h_index h < ws \<and> h_index h < wr (h_clock h) \<and> reads_at i (h_index h) rl (h_clock h))
     \<and> (h_pc h = Storing \<longrightarrow> C = h_index h \<and> reads_below i C rl (h_clock h))"

text \<open>A read that the cursor has not passed and whose index is under no open loan.\<close>

definition owned :: "nat \<Rightarrow> (nat \<times> nat \<times> 'v) list \<Rightarrow> nat \<Rightarrow> nat \<Rightarrow> clock \<Rightarrow> holder list \<Rightarrow> bool" where
  "owned i rl C B v hs \<longleftrightarrow>
     (\<forall>e < length rl. fst (rl ! e) = i \<and> C \<le> fst (snd (rl ! e))
         \<and> (\<forall>h \<in> set hs. is_open h \<longrightarrow> h_index h \<noteq> fst (snd (rl ! e))) \<longrightarrow>
       e \<in> rds v \<or> (\<exists>h \<in> set hs. \<not> is_open h \<and> e \<in> rds (h_clock h) \<and> (B \<le> fst (snd (rl ! e)) \<longrightarrow> aborted (h_pc h))))"

definition depth_ok :: "nat \<Rightarrow> nat \<Rightarrow> nat list \<Rightarrow> bool" where
  "depth_ok m ds dv \<longleftrightarrow> ds < length dv \<and> last dv = m \<and> (\<forall>t < length dv. ds \<le> t \<longrightarrow> m \<le> dv ! t)"

fun claiming :: "'v c_pc \<Rightarrow> nat" where
  "claiming CClaimW = 1" | "claiming (CClaimCursor _) = 1" | "claiming (CClaimBase _ _) = 1"
| "claiming (CClaimCas _ _ _) = 1" | "claiming CClaimNone = 1" | "claiming _ = 0"

fun c_pc_ok :: "nat \<Rightarrow> (nat \<times> nat \<times> 'v) list \<Rightarrow> nat \<Rightarrow> nat \<Rightarrow> nat \<Rightarrow> clock \<Rightarrow> bool \<Rightarrow> 'v c_pc \<Rightarrow> bool" where
  "c_pc_ok i rl ws cs C v none CPopW = (none \<and> cs = C)"
| "c_pc_ok i rl ws cs C v none (CPopCursor w) = (none \<and> cs = C \<and> w = ws)"
| "c_pc_ok i rl ws cs C v none (CPopRead r) = (none \<and> cs = C \<and> r = C \<and> r < ws \<and> reads_below i r rl v)"
| "c_pc_ok i rl ws cs C v none (CPopStore r x) = (none \<and> cs = C \<and> r = C \<and> r < ws \<and> reads_below i (Suc r) rl v)"
| "c_pc_ok i rl ws cs C v none (CClaimCursor w) = (w = ws)"
| "c_pc_ok i rl ws cs C v none (CClaimBase w r) = (w = ws \<and> r = cs)"
| "c_pc_ok i rl ws cs C v none (CClaimCas w r b) = (w = ws \<and> r = cs \<and> max b r < w)"
| "c_pc_ok i rl ws cs C v none _ = True"

definition reader_ok :: "nat \<Rightarrow> (nat \<times> nat \<times> 'v) list \<Rightarrow> nat \<Rightarrow> (nat \<times> clock) list \<Rightarrow> 'v c_pc \<Rightarrow> clock \<Rightarrow> nat \<Rightarrow> nat
    \<Rightarrow> nat list \<Rightarrow> nat \<Rightarrow> nat list \<Rightarrow> holder list \<Rightarrow> holder list \<Rightarrow> bool" where
  "reader_ok i rl W cm pc v ws cs dv ds bv lo go \<longleftrightarrow>
     cmsgs_ok i rl cm \<and> cs \<le> cursor cm \<and> cursor cm \<le> ws \<and> ws \<le> W \<and> ws \<le> wr v \<and> cursor cm \<le> max (last bv) cs
     \<and> depth_ok (length lo + claiming pc) ds dv
     \<and> (\<forall>h \<in> set (lo @ go). holder_ok i rl ws (cursor cm) (last bv) h) \<and> (\<forall>h \<in> set go. \<not> is_open h)
     \<and> distinct (map h_index (filter (\<lambda>h. \<not> aborted (h_pc h)) (lo @ go)))
     \<and> (cs = cursor cm \<or> (\<exists>h \<in> set (lo @ go). h_seen h = cursor cm))
     \<and> owned i rl (cursor cm) (last bv) v (lo @ go)
     \<and> c_pc_ok i rl ws cs (cursor cm) v (lo = [] \<and> go = []) pc"

text \<open>Nobody knows of slot writes that were not made.\<close>

definition writes_le :: "nat \<Rightarrow> (nat \<times> clock) list \<Rightarrow> clock \<Rightarrow> holder list \<Rightarrow> bool" where
  "writes_le N cm v hs \<longleftrightarrow>
     msgs_le N cm \<and> wr v \<le> N \<and> (\<forall>h \<in> set hs. wr (h_clock h) \<le> N)"

definition log_ok :: "nat \<Rightarrow> 'v list \<Rightarrow> (nat \<times> nat \<times> 'v) list \<Rightarrow> bool" where
  "log_ok n pub rl \<longleftrightarrow>
     (\<forall>r \<in> set rl. fst r < n \<and> fst (snd r) < length pub \<and> snd (snd r) = pub ! fst (snd r))"

definition linv :: "nat \<Rightarrow> nat \<Rightarrow> 'v lsys \<Rightarrow> bool" where
  "linv n cap c \<longleftrightarrow>
     prod_ok n cap (rlog c) (wmsgs c) (lpub c) (lp_pc c) (lp_clock c) (lp_seen c) (cmsgs c) (lslots c) (slot_w c)
     \<and> (\<forall>i < n. reader_ok i (rlog c) (length (lpub c)) (cmsgs c i) (lc_pc c i) (lc_clock c i) (w_seen c i) (c_seen c i)
                  (dvals c i) (d_seen c i) (bvals c i) (loans c i) (gone c i)
              \<and> writes_le (wr (lp_clock c)) (cmsgs c i) (lc_clock c i) (loans c i @ gone c i))
     \<and> log_ok n (lpub c) (rlog c) \<and> \<not> lraced c \<and> (lcrashed c \<longrightarrow> length (lpub c) = U64_MAX)"

lemma linv_init:
  assumes "0 < cap"
  shows "linv n cap (lsys_init junk)"
  using assms
  by (simp add: linv_def lsys_init_def prod_ok_def wmsgs_ok_def window_ok_def reader_ok_def cmsgs_ok_def depth_ok_def
      owned_def log_ok_def writes_le_def)

lemma linvD:
  assumes "linv n cap c"
  shows "prod_ok n cap (rlog c) (wmsgs c) (lpub c) (lp_pc c) (lp_clock c) (lp_seen c) (cmsgs c) (lslots c) (slot_w c)"
    "i < n \<Longrightarrow> reader_ok i (rlog c) (length (lpub c)) (cmsgs c i) (lc_pc c i) (lc_clock c i) (w_seen c i) (c_seen c i)
                  (dvals c i) (d_seen c i) (bvals c i) (loans c i) (gone c i)"
    "log_ok n (lpub c) (rlog c)" "\<not> lraced c" "lcrashed c \<Longrightarrow> length (lpub c) = U64_MAX"
    "i < n \<Longrightarrow> writes_le (wr (lp_clock c)) (cmsgs c i) (lc_clock c i) (loans c i @ gone c i)"
  using assms by (simp_all add: linv_def)

lemma reader_okD:
  assumes "reader_ok i rl W cm pc v ws cs dv ds bv lo go"
  shows "cmsgs_ok i rl cm" "cs \<le> cursor cm" "cursor cm \<le> ws" "ws \<le> W" "ws \<le> wr v" "cursor cm \<le> max (last bv) cs"
    "depth_ok (length lo + claiming pc) ds dv"
    "h \<in> set lo \<or> h \<in> set go \<Longrightarrow> holder_ok i rl ws (cursor cm) (last bv) h" "h \<in> set go \<Longrightarrow> \<not> is_open h"
    "distinct (map h_index (filter (\<lambda>h. \<not> aborted (h_pc h)) (lo @ go)))"
    "cs = cursor cm \<or> (\<exists>h \<in> set (lo @ go). h_seen h = cursor cm)"
    "owned i rl (cursor cm) (last bv) v (lo @ go)"
    "c_pc_ok i rl ws cs (cursor cm) v (lo = [] \<and> go = []) pc"
  using assms by (auto simp: reader_ok_def)

lemma prod_okD:
  assumes "prod_ok n cap rl wm pub pc v seen cms sl sw"
  shows "wmsgs_ok wm" "length wm = Suc (length pub)" "length pub \<le> U64_MAX"
    "i < n \<Longrightarrow> seen i < length (cms i)" "i < n \<Longrightarrow> reads_below i (seen i) rl v"
    "i < n \<Longrightarrow> wr v \<le> cursor (cms i) + cap" "window_ok cap (wr v) pub sl sw"
    "p_pc_ok n cap (length pub) (wr v) seen sl pc" "m \<in> set wm \<Longrightarrow> wr (snd m) \<le> wr v"
  using assms by (auto simp: prod_ok_def msgs_le_def)

lemma writes_leD:
  assumes "writes_le N cm v hs"
  shows "m \<in> set cm \<Longrightarrow> wr (snd m) \<le> N" "wr v \<le> N" "h \<in> set hs \<Longrightarrow> wr (h_clock h) \<le> N"
  using assms by (auto simp: writes_le_def msgs_le_def)

lemma writes_le_mono: "writes_le N cm v hs \<Longrightarrow> N \<le> N' \<Longrightarrow> writes_le N' cm v hs"
  by (fastforce simp: writes_le_def dest: msgs_le_mono)

lemma wmsgs_okD:
  assumes "wmsgs_ok h"
  shows "h \<noteq> []" "t < length h \<Longrightarrow> fst (h ! t) = t" "t < length h \<Longrightarrow> t \<le> wr (snd (h ! t))" "fst (last h) = length h - 1"
  using assms by (auto simp: wmsgs_ok_def last_conv_nth)

lemma cmsgs_okD:
  assumes "cmsgs_ok i rl h"
  shows "h \<noteq> []" "t < length h \<Longrightarrow> fst (h ! t) = t" "t < length h \<Longrightarrow> reads_below i t rl (snd (h ! t))"
  using assms by (auto simp: cmsgs_ok_def)

section \<open>Stability\<close>

text \<open>What the steps of others leave alone.\<close>

lemma reader_ok_publish:
  "reader_ok i rl W cm pc v ws cs dv ds bv lo go \<Longrightarrow> W \<le> W' \<Longrightarrow> reader_ok i rl W' cm pc v ws cs dv ds bv lo go"
  by (simp add: reader_ok_def)

lemma owned_append_other [simp]: "j \<noteq> i \<Longrightarrow> owned i (rl @ [(j, x, w)]) C B v hs = owned i rl C B v hs"
  by (auto simp: owned_def nth_append less_Suc_eq)

lemma holder_ok_append_other [simp]: "j \<noteq> i \<Longrightarrow> holder_ok i (rl @ [(j, x, w)]) ws C B h = holder_ok i rl ws C B h"
  by (simp add: holder_ok_def)

lemma c_pc_ok_append_other [simp]: "j \<noteq> i \<Longrightarrow> c_pc_ok i (rl @ [(j, x, w)]) ws cs C v none pc = c_pc_ok i rl ws cs C v none pc"
  by (cases pc) simp_all

lemma reader_ok_append_other:
  "j \<noteq> i \<Longrightarrow> reader_ok i rl W cm pc v ws cs dv ds bv lo go \<Longrightarrow> reader_ok i (rl @ [(j, x, w)]) W cm pc v ws cs dv ds bv lo go"
  by (simp add: reader_ok_def cmsgs_ok_def)

lemma prod_ok_cursor:
  assumes "prod_ok n cap rl wm pub pc v seen cms sl sw"
  shows "prod_ok n cap rl wm pub pc v seen (cms(i := cms i @ [m])) sl sw"
  using assms by (fastforce simp: prod_ok_def)

lemma prod_ok_read:
  assumes "prod_ok n cap rl wm pub pc v seen cms sl sw" and "i < n" and "cursor (cms i) \<le> x"
  shows "prod_ok n cap (rl @ [(i, x, w)]) wm pub pc v seen cms sl sw"
proof -
  have "seen i \<le> x" using prod_okD(4) [OF assms(1,2)] assms(3) by linarith
  then show ?thesis using assms(1) by (auto simp: prod_ok_def)
qed

text \<open>A slot at or above the cursor that is published holds its message, and its writer is the last one.\<close>

lemma slot_pinned:
  assumes "prod_ok n cap rl wm pub pc v seen cms sl sw" and "i < n" and "0 < cap"
    and "cursor (cms i) \<le> x" and "x < length pub"
  shows "sl (x mod cap) = pub ! x" and "sw (x mod cap) = Suc x"
proof -
  have N: "wr v \<le> x + cap" using prod_okD(6) [OF assms(1,2)] assms(4) by linarith
  have "length pub \<le> wr v" using prod_okD(8) [OF assms(1)] by (cases pc) simp_all
  with N prod_okD(7) [OF assms(1)] assms(5) show "sl (x mod cap) = pub ! x" "sw (x mod cap) = Suc x"
    by (simp_all add: window_ok_def)
qed

end
