(* ===== verification/Loan_Protocol_Steps.thy ===== *)
theory Loan_Protocol_Steps
  imports Loan_Protocol_Inv
begin

text \<open>Every disciplined access of the loan protocol preserves its invariant, thread by thread.\<close>

section \<open>The producer\<close>

lemma linv_prod:
  assumes "linv n cap c"
    and "prod_ok n cap (rlog c) (wmsgs c') (lpub c') (lp_pc c') (lp_clock c') (lp_seen c') (cmsgs c) (lslots c') (slot_w c')"
    and "\<exists>ys. lpub c' = lpub c @ ys" and "wr (lp_clock c) \<le> wr (lp_clock c')"
    and "\<not> lraced c'" and "lcrashed c' \<Longrightarrow> length (lpub c') = U64_MAX"
    and "rlog c' = rlog c" "cmsgs c' = cmsgs c" "lc_pc c' = lc_pc c" "lc_clock c' = lc_clock c" "w_seen c' = w_seen c"
    "c_seen c' = c_seen c" "dvals c' = dvals c" "d_seen c' = d_seen c" "bvals c' = bvals c" "loans c' = loans c"
    "gone c' = gone c"
  shows "linv n cap c'"
proof -
  have "log_ok n (lpub c') (rlog c)"
    using linvD(3) [OF assms(1)] assms(3) by (auto simp: log_ok_def nth_append)
  moreover have "length (lpub c) \<le> length (lpub c')" using assms(3) by auto
  then have "reader_ok i (rlog c) (length (lpub c')) (cmsgs c i) (lc_pc c i) (lc_clock c i) (w_seen c i) (c_seen c i)
      (dvals c i) (d_seen c i) (bvals c i) (loans c i) (gone c i)" if "i < n" for i
    using linvD(2) [OF assms(1) that] reader_ok_publish by blast
  moreover have "writes_le (wr (lp_clock c')) (cmsgs c i) (lc_clock c i) (loans c i @ gone c i)" if "i < n" for i
    by (rule writes_le_mono [OF linvD(6) [OF assms(1) that] assms(4)])
  ultimately show ?thesis using assms(2,5-) by (simp add: linv_def)
qed

lemma inv_LPush:
  assumes "linv n cap c" and "lp_step n cap (LPush v) c = Some c'"
  shows "linv n cap c'"
proof -
  note p = linvD(1) [OF assms(1)]
  have "fst (last (wmsgs c)) = length (lpub c)"
    using wmsgs_okD(4) [OF prod_okD(1) [OF p]] prod_okD(2) [OF p] by simp
  with p assms(2) have "prod_ok n cap (rlog c) (wmsgs c') (lpub c') (lp_pc c') (lp_clock c') (lp_seen c') (cmsgs c) (lslots c') (slot_w c')"
    by (auto simp: prod_ok_def split: if_splits)
  then show ?thesis
    using assms linvD(4,5) [OF assms(1)] by (intro linv_prod [OF assms(1)]) (auto split: if_splits)
qed

lemma inv_LScan:
  assumes "linv n cap c" and "lp_step n cap (LScan t) c = Some c'"
  shows "linv n cap c'"
proof -
  note p = linvD(1) [OF assms(1)]
  obtain v w j m where pc: "lp_pc c = PScan v w j m" and j: "j < n" "lp_seen c j \<le> t" "t < length (cmsgs c j)"
    and c': "c' = c\<lparr>lp_pc := PScan v w (Suc j) (min m (fst (cmsgs c j ! t))),
      lp_clock := sup (lp_clock c) (snd (cmsgs c j ! t)), lp_seen := (lp_seen c)(j := t)\<rparr>"
    using assms(2) by (auto split: p_pc.splits if_splits simp: Let_def case_prod_beta)
  note cm = reader_okD(1) [OF linvD(2) [OF assms(1) j(1)]]
  note val = cmsgs_okD(2,3) [OF cm j(3)]
  have wr: "wr (snd (cmsgs c j ! t)) \<le> wr (lp_clock c)"
    using writes_leD(1) [OF linvD(6) [OF assms(1) j(1)]] j(3) by simp
  have "prod_ok n cap (rlog c) (wmsgs c') (lpub c') (lp_pc c') (lp_clock c') (lp_seen c') (cmsgs c) (lslots c') (slot_w c')"
    using p pc val wr j by (auto simp: c' prod_ok_def max_def less_Suc_eq)
  then show ?thesis
    using linvD(4,5) [OF assms(1)] by (intro linv_prod [OF assms(1)]) (auto simp: c')
qed

lemma inv_LDecide:
  assumes "linv n cap c" and "0 < n" and "0 < cap" and "lp_step n cap LDecide c = Some c'"
  shows "linv n cap c'"
proof -
  note p = linvD(1) [OF assms(1)]
  obtain v w m where pc: "lp_pc c = PScan v w n m" using assms(4) by (auto split: p_pc.splits if_splits)
  have W: "w = length (lpub c)" "wr (lp_clock c) = w" and m: "m \<le> lp_seen c i" if "i < n" for i
    using prod_okD(8) [OF p] pc that assms(2) by auto
  have le: "lp_seen c 0 \<le> w"
    using prod_okD(4) [OF p, of 0] reader_okD(3,4) [OF linvD(2) [OF assms(1,2)]] assms(2) W(1) by fastforce
  then have mw: "m \<le> w" using m [OF assms(2)] by simp
  have guard: "w < lp_seen c i + cap" if "\<not> cap \<le> w - m" "i < n" for i using m [OF that(2)] that(1) by linarith
  have "prod_ok n cap (rlog c) (wmsgs c') (lpub c') (lp_pc c') (lp_clock c') (lp_seen c') (cmsgs c) (lslots c') (slot_w c')"
    using assms(4) p pc mw W guard assms(2) by (auto simp: prod_ok_def split: if_splits)
  then show ?thesis
    using assms(4) mw pc linvD(4,5) [OF assms(1)] by (intro linv_prod [OF assms(1)]) (auto split: if_splits)
qed

lemma inv_LPublish:
  assumes "linv n cap c" and "lp_step n cap LPublish c = Some c'"
  shows "linv n cap c'"
proof -
  note p = linvD(1) [OF assms(1)]
  obtain v w where pc: "lp_pc c = PPublish v w" using assms(2) by (auto split: p_pc.splits)
  have W: "w = length (lpub c)" "wr (lp_clock c) = Suc w" "lslots c (w mod cap) = v"
    using prod_okD(8) [OF p] pc by auto
  show ?thesis
  proof (cases "U64_MAX \<le> w")
    case True
    then have "c' = c\<lparr>lcrashed := True\<rparr>" using assms(2) pc by simp
    moreover have "length (lpub c) = U64_MAX" using True W(1) prod_okD(3) [OF p] by simp
    ultimately show ?thesis using assms(1) by (simp add: linv_def)
  next
    case False
    then have c': "c' = c\<lparr>lp_pc := PCount, wmsgs := wmsgs c @ [(Suc w, lp_clock c)], lpub := lpub c @ [v]\<rparr>"
      using assms(2) pc by simp
    have "wmsgs_ok (wmsgs c @ [(Suc w, lp_clock c)])"
      using prod_okD(1,2) [OF p] W by (auto simp: wmsgs_ok_def nth_append less_Suc_eq)
    then have "prod_ok n cap (rlog c) (wmsgs c') (lpub c') (lp_pc c') (lp_clock c') (lp_seen c') (cmsgs c) (lslots c') (slot_w c')"
      using p W False by (auto simp: c' prod_ok_def window_ok_def nth_append less_Suc_eq)
    then show ?thesis
      using linvD(4,5) [OF assms(1)] False W prod_okD(3) [OF p] by (intro linv_prod [OF assms(1)]) (auto simp: c')
  qed
qed

lemma inv_LCount:
  assumes "linv n cap c" and "lp_step n cap LCount c = Some c'"
  shows "linv n cap c'"
proof -
  have "prod_ok n cap (rlog c) (wmsgs c') (lpub c') (lp_pc c') (lp_clock c') (lp_seen c') (cmsgs c) (lslots c') (slot_w c')"
    using linvD(1) [OF assms(1)] assms(2) by (auto simp: prod_ok_def split: p_pc.splits)
  then show ?thesis
    using assms(2) linvD(4,5) [OF assms(1)] by (intro linv_prod [OF assms(1)]) (auto split: p_pc.splits)
qed

text \<open>The write: no read of the slot is unknown, because the index it was for is below every cursor seen.\<close>

lemma inv_LWrite:
  assumes "linv n cap c" and "0 < cap" and "lp_step n cap LWrite c = Some c'"
  shows "linv n cap c'"
proof -
  note p = linvD(1) [OF assms(1)]
  obtain v w where pc: "lp_pc c = PWrite v w" using assms(3) by (auto split: p_pc.splits)
  have W: "w = length (lpub c)" "wr (lp_clock c) = w" and seen: "w < lp_seen c i + cap" if "i < n" for i
    using prod_okD(8) [OF p] pc that by auto
  have W: "w = length (lpub c)" "wr (lp_clock c) = w" using prod_okD(8) [OF p] pc by auto
  let ?k = "Suc (wr (lp_clock c))"
  have c': "c' = c\<lparr>lp_pc := PPublish v w, lslots := (lslots c)(w mod cap := v), slot_w := (slot_w c)(w mod cap := ?k),
      lp_clock := wrote ?k (lp_clock c), lraced := (lraced c \<or> write_races cap w (lp_clock c) c)\<rparr>"
    using assms(3) pc by (simp add: Let_def)
  have "\<not> write_races cap w (lp_clock c) c"
  proof -
    have "e \<in> rds (lp_clock c)" if e: "e < length (rlog c)" "fst (snd (rlog c ! e)) mod cap = w mod cap" for e
    proof -
      let ?i = "fst (rlog c ! e)" and ?x = "fst (snd (rlog c ! e))"
      have i: "?i < n" and x: "?x < w"
        using linvD(3) [OF assms(1)] nth_mem [OF e(1)] W(1) by (auto simp: log_ok_def)
      have "?x < lp_seen c ?i" using mod_eq_less_gap [OF e(2) x] seen [OF i] by linarith
      with prod_okD(5) [OF p i] e(1) show ?thesis by (auto simp: reads_below_def)
    qed
    moreover have "slot_w c (w mod cap) \<le> wr (lp_clock c)" using prod_okD(7) [OF p] by (simp add: window_ok_def)
    ultimately show ?thesis by (auto simp: write_races_def list_ex_iff)
  qed
  moreover have "window_ok cap (Suc w) (lpub c) ((lslots c)(w mod cap := v)) ((slot_w c)(w mod cap := Suc w))"
  proof -
    have ne: "y mod cap \<noteq> w mod cap" if "y < w" "Suc w \<le> y + cap" for y
      using mod_eq_less_gap [of y cap w] that by auto
    have "window_ok cap w (lpub c) (lslots c) (slot_w c)" using prod_okD(7) [OF p] W(2) by simp
    then show ?thesis using ne W(1) by (auto simp: window_ok_def less_Suc_eq le_Suc_eq)
  qed
  moreover have "Suc w \<le> cursor (cmsgs c i) + cap" if "i < n" for i
    using seen [OF that] prod_okD(4) [OF p that] by linarith
  ultimately have "prod_ok n cap (rlog c) (wmsgs c') (lpub c') (lp_pc c') (lp_clock c') (lp_seen c') (cmsgs c) (lslots c') (slot_w c')"
    using p W pc seen by (auto simp: c' prod_ok_def le_Suc_eq intro: msgs_le_mono)
  then show ?thesis
    using linvD(4,5) [OF assms(1)] \<open>\<not> write_races cap w (lp_clock c) c\<close>
    by (intro linv_prod [OF assms(1)]) (auto simp: c')
qed

section \<open>The consuming thread\<close>

text \<open>Two states agree but for the accesses of one reader's threads.\<close>

definition only_reader :: "nat \<Rightarrow> 'v lsys \<Rightarrow> 'v lsys \<Rightarrow> bool" where
  "only_reader i c c' \<longleftrightarrow>
     (\<forall>j. j \<noteq> i \<longrightarrow> cmsgs c' j = cmsgs c j \<and> lc_pc c' j = lc_pc c j \<and> lc_clock c' j = lc_clock c j
        \<and> w_seen c' j = w_seen c j \<and> c_seen c' j = c_seen c j \<and> dvals c' j = dvals c j \<and> d_seen c' j = d_seen c j
        \<and> bvals c' j = bvals c j \<and> loans c' j = loans c j \<and> gone c' j = gone c j)
     \<and> wmsgs c' = wmsgs c \<and> lpub c' = lpub c \<and> lp_pc c' = lp_pc c \<and> lp_clock c' = lp_clock c \<and> lp_seen c' = lp_seen c
     \<and> lslots c' = lslots c \<and> slot_w c' = slot_w c \<and> lcrashed c' = lcrashed c"

abbreviation reader_inv :: "nat \<Rightarrow> 'v lsys \<Rightarrow> bool" where
  "reader_inv i c \<equiv> reader_ok i (rlog c) (length (lpub c)) (cmsgs c i) (lc_pc c i) (lc_clock c i) (w_seen c i)
     (c_seen c i) (dvals c i) (d_seen c i) (bvals c i) (loans c i) (gone c i)"

abbreviation writes_inv :: "nat \<Rightarrow> 'v lsys \<Rightarrow> bool" where
  "writes_inv i c \<equiv> writes_le (wr (lp_clock c)) (cmsgs c i) (lc_clock c i) (loans c i @ gone c i)"

lemma linv_reader:
  assumes "linv n cap c" and "i < n" and "only_reader i c c'"
    and "rlog c' = rlog c" and "lraced c' = lraced c"
    and "cmsgs c' i = cmsgs c i \<or> (\<exists>m. cmsgs c' i = cmsgs c i @ [m])"
    and "reader_inv i c'" and "writes_inv i c'"
  shows "linv n cap c'"
proof -
  note only = assms(3) [unfolded only_reader_def]
  have "cmsgs c' = cmsgs c \<or> (\<exists>m. cmsgs c' = (cmsgs c)(i := cmsgs c i @ [m]))"
    using assms(6) only by (auto simp: fun_eq_iff)
  then have "prod_ok n cap (rlog c') (wmsgs c') (lpub c') (lp_pc c') (lp_clock c') (lp_seen c') (cmsgs c') (lslots c') (slot_w c')"
    using linvD(1) [OF assms(1)] prod_ok_cursor only assms(4) by fastforce
  moreover have "reader_inv j c' \<and> writes_inv j c'" if "j < n" for j
    using linvD(2,6) [OF assms(1) that] assms(4,7,8) only by (cases "j = i") simp_all
  ultimately show ?thesis using linvD(3-5) [OF assms(1)] only assms(4,5) by (simp add: linv_def)
qed

lemma linv_read:
  assumes "linv n cap c" and "i < n" and "0 < cap" and "only_reader i c c'"
    and "cursor (cmsgs c i) \<le> x" and "x < length (lpub c)"
    and "rlog c' = rlog c @ [(i, x, lslots c (x mod cap))]" and "lraced c' = (lraced c \<or> read_races cap x v c)"
    and "x < wr v" and "cmsgs c' i = cmsgs c i" and "reader_inv i c'" and "writes_inv i c'"
  shows "linv n cap c'"
proof -
  note only = assms(4) [unfolded only_reader_def]
  have cms: "cmsgs c' = cmsgs c" using assms(10) only by (auto simp: fun_eq_iff)
  note pinned = slot_pinned [OF linvD(1) [OF assms(1)] assms(2,3,5,6)]
  have "\<not> read_races cap x v c" using assms(9) by (simp add: read_races_def pinned(2))
  moreover have "prod_ok n cap (rlog c') (wmsgs c') (lpub c') (lp_pc c') (lp_clock c') (lp_seen c') (cmsgs c') (lslots c') (slot_w c')"
    using prod_ok_read [OF linvD(1) [OF assms(1)] assms(2,5)] only assms(7) cms by simp
  moreover have "reader_inv j c' \<and> writes_inv j c'" if "j < n" for j
    using linvD(2,6) [OF assms(1) that] assms(7,11,12) only
      reader_ok_append_other [of i j "rlog c" "length (lpub c)" "cmsgs c j"] by (cases "j = i") auto
  moreover have "log_ok n (lpub c') (rlog c')"
    using linvD(3) [OF assms(1)] assms(2,6,7) pinned(1) only by (auto simp: log_ok_def)
  ultimately show ?thesis using linvD(4,5) [OF assms(1)] only assms(8) by (simp add: linv_def)
qed

lemma depth_ok_seen: "depth_ok m ds dv \<Longrightarrow> ds \<le> t \<Longrightarrow> t < length dv \<Longrightarrow> depth_ok m t dv"
  by (auto simp: depth_ok_def)

lemma depth_ok_zero: "depth_ok m ds dv \<Longrightarrow> ds \<le> t \<Longrightarrow> t < length dv \<Longrightarrow> dv ! t = 0 \<Longrightarrow> m = 0"
  by (fastforce simp: depth_ok_def)

lemma depth_ok_rmw: "depth_ok k (length dv) (dv @ [k])"
  by (auto simp: depth_ok_def nth_append less_Suc_eq)

lemma depth_ok_dec: "depth_ok (Suc m) ds dv \<Longrightarrow> depth_ok m ds (dv @ [m])"
  by (fastforce simp: depth_ok_def nth_append less_Suc_eq)

lemma inv_CPop:
  assumes "linv n cap c" and "orderly (CPop i t) c" and "lc_step n cap (CPop i t) c = Some c'"
  shows "linv n cap c'"
proof -
  have i: "i < n" and pc: "lc_pc c i = CIdle" and t: "d_seen c i \<le> t" "t < length (dvals c i)"
    and c': "c' = c\<lparr>lc_pc := (lc_pc c)(i := if dvals c i ! t \<noteq> 0 then CIdle else CPopW), d_seen := (d_seen c)(i := t)\<rparr>"
    using assms(3) by (auto split: if_splits)
  note r = linvD(2) [OF assms(1) i]
  note d = reader_okD(7) [OF r]
  have empty: "loans c i = [] \<and> gone c i = [] \<and> c_seen c i = cursor (cmsgs c i)" if "dvals c i ! t = 0"
    using depth_ok_zero [OF d t that] assms(2) reader_okD(11) [OF r] by auto
  show ?thesis
    using r linvD(6) [OF assms(1) i] empty depth_ok_seen [OF d t] pc
    by (intro linv_reader [OF assms(1) i]) (auto simp: c' only_reader_def reader_ok_def)
qed

lemma owned_clock: "owned i rl C B v hs \<Longrightarrow> v \<le> v' \<Longrightarrow> owned i rl C B v' hs"
  unfolding owned_def by (blast dest: clock_leD)

lemma inv_CLoadW:
  assumes "linv n cap c" and "lc_step n cap (CLoadW i t) c = Some c'"
  shows "linv n cap c'"
proof -
  let ?w = "fst (wmsgs c ! t)" and ?vv = "snd (wmsgs c ! t)"
  have i: "i < n" and pc: "lc_pc c i = CPopW \<or> lc_pc c i = CClaimW" and t: "w_seen c i \<le> t" "t < length (wmsgs c)"
    and c': "c' = c\<lparr>lc_pc := (lc_pc c)(i := if lc_pc c i = CPopW then CPopCursor ?w else CClaimCursor ?w),
                 lc_clock := (lc_clock c)(i := sup (lc_clock c i) ?vv), w_seen := (w_seen c)(i := t)\<rparr>"
    using assms(2) by (auto split: if_splits simp: Let_def case_prod_beta)
  note p = linvD(1) [OF assms(1)]
  note w = wmsgs_okD(2,3) [OF prod_okD(1) [OF p] t(2)]
  note r = linvD(2) [OF assms(1) i]
  have W: "t \<le> length (lpub c)" using t(2) prod_okD(2) [OF p] by simp
  have le: "wr ?vv \<le> wr (lp_clock c)" using prod_okD(9) [OF p] t(2) by simp
  have own: "owned i (rlog c) (cursor (cmsgs c i)) (last (bvals c i)) (sup (lc_clock c i) ?vv) (loans c i @ gone c i)"
    by (rule owned_clock [OF reader_okD(12) [OF r]]) simp
  have hold: "\<forall>h\<in>set (loans c i @ gone c i). holder_ok i (rlog c) t (cursor (cmsgs c i)) (last (bvals c i)) h"
    using reader_okD(8) [OF r] t(1) by (fastforce simp: holder_ok_def)
  show ?thesis
    using r linvD(6) [OF assms(1) i] pc w W le t(1) own hold
    by (intro linv_reader [OF assms(1) i]) (auto simp: c' only_reader_def reader_ok_def writes_le_def le_max_iff_disj)
qed

lemma owned_none: "owned i rl C B v [] \<Longrightarrow> C \<le> x \<Longrightarrow> reads_at i x rl v"
  by (auto simp: owned_def reads_at_def)

lemma inv_CLoadCursor:
  assumes "linv n cap c" and "lc_step n cap (CLoadCursor i t) c = Some c'"
  shows "linv n cap c'"
proof -
  let ?r = "fst (cmsgs c i ! t)" and ?vv = "snd (cmsgs c i ! t)"
  have i: "i < n" and t: "c_seen c i \<le> t" "t < length (cmsgs c i)"
    using assms(2) by (auto split: if_splits)
  let ?c = "c\<lparr>lc_clock := (lc_clock c)(i := sup (lc_clock c i) ?vv), c_seen := (c_seen c)(i := t)\<rparr>"
  note r = linvD(2) [OF assms(1) i] and wl = linvD(6) [OF assms(1) i]
  note m = cmsgs_okD(2,3) [OF reader_okD(1) [OF r] t(2)]
  have le: "wr ?vv \<le> wr (lp_clock c)" using writes_leD(1) [OF wl] t(2) by simp
  have own: "owned i (rlog c) (cursor (cmsgs c i)) (last (bvals c i)) (sup (lc_clock c i) ?vv) (loans c i @ gone c i)"
    by (rule owned_clock [OF reader_okD(12) [OF r]]) simp
  have tC: "t = cursor (cmsgs c i)" if "c_seen c i = cursor (cmsgs c i)" using that t by simp
  consider w where "lc_pc c i = CPopCursor w" "c' = ?c\<lparr>lc_pc := (lc_pc c)(i := if ?r = w then CIdle else CPopRead ?r)\<rparr>"
    | w where "lc_pc c i = CClaimCursor w" "c' = ?c\<lparr>lc_pc := (lc_pc c)(i := CClaimBase w ?r)\<rparr>"
    using assms(2) i t by (auto split: c_pc.splits simp: Let_def case_prod_beta)
  then show ?thesis
  proof cases
    case 1
    with reader_okD(13) [OF r] have pop: "loans c i = []" "gone c i = []" "c_seen c i = cursor (cmsgs c i)" "w = w_seen c i"
      by auto
    show ?thesis using r wl own m le t 1(1) pop tC
      by (intro linv_reader [OF assms(1) i]) (auto simp: 1(2) only_reader_def reader_ok_def writes_le_def le_max_iff_disj)
  next
    case 2
    show ?thesis using r wl own m le t 2(1) tC
      by (intro linv_reader [OF assms(1) i]) (auto simp: 2(2) only_reader_def reader_ok_def writes_le_def le_max_iff_disj)
  qed
qed

lemma inv_CRead:
  assumes "linv n cap c" and "0 < cap" and "lc_step n cap (CRead i) c = Some c'"
  shows "linv n cap c'"
proof -
  obtain r where pc: "lc_pc c i = CPopRead r" and i: "i < n"
    and c': "c' = c\<lparr>lc_pc := (lc_pc c)(i := CPopStore r (lslots c (r mod cap))),
       lc_clock := (lc_clock c)(i := has_read (length (rlog c)) (lc_clock c i)),
       rlog := rlog c @ [(i, r, lslots c (r mod cap))], lraced := (lraced c \<or> read_races cap r (lc_clock c i) c)\<rparr>"
    using assms(3) by (auto split: c_pc.splits if_splits)
  note ok = linvD(2) [OF assms(1) i] and wl = linvD(6) [OF assms(1) i]
  have pop: "loans c i = []" "gone c i = []" "c_seen c i = r" "cursor (cmsgs c i) = r" "r < w_seen c i"
    "reads_below i r (rlog c) (lc_clock c i)"
    using reader_okD(13) [OF ok] pc by auto
  then have at: "reads_at i r (rlog c) (lc_clock c i)" using owned_none reader_okD(12) [OF ok] by fastforce
  have own: "owned i (rlog c @ [(i, r, x)]) r B (has_read (length (rlog c)) (lc_clock c i)) []" for x B
    using reader_okD(12) [OF ok] pop by (auto simp: owned_def nth_append less_Suc_eq)
  have W: "r < length (lpub c)" "r < wr (lc_clock c i)" using pop(5) reader_okD(4,5) [OF ok] by simp_all
  have cm: "cmsgs_ok i (rlog c @ [(i, r, x)]) (cmsgs c i)" for x
    using reader_okD(1) [OF ok] pop(4) by (auto simp: cmsgs_ok_def)
  show ?thesis
    using ok wl pop own W at cm pc
    by (intro linv_read [OF assms(1) i assms(2), where x = r and v = "lc_clock c i"])
      (auto simp: c' only_reader_def reader_ok_def writes_le_def reads_below_Suc)
qed

lemma inv_CStore:
  assumes "linv n cap c" and "lc_step n cap (CStore i) c = Some c'"
  shows "linv n cap c'"
proof -
  obtain r v where pc: "lc_pc c i = CPopStore r v" and i: "i < n"
    and c': "c' = c\<lparr>lc_pc := (lc_pc c)(i := CIdle), cmsgs := (cmsgs c)(i := cmsgs c i @ [(Suc r, lc_clock c i)]),
       c_seen := (c_seen c)(i := length (cmsgs c i))\<rparr>"
    using assms(2) by (auto split: c_pc.splits if_splits)
  note ok = linvD(2) [OF assms(1) i] and wl = linvD(6) [OF assms(1) i]
  have pop: "loans c i = []" "gone c i = []" "c_seen c i = r" "cursor (cmsgs c i) = r" "r < w_seen c i"
    "reads_below i (Suc r) (rlog c) (lc_clock c i)"
    using reader_okD(13) [OF ok] pc by auto
  have len: "length (cmsgs c i) = Suc r" using pop(4) cmsgs_okD(1) [OF reader_okD(1) [OF ok]] by (cases "cmsgs c i") simp_all
  have cm: "cmsgs_ok i (rlog c) (cmsgs c i @ [(Suc r, lc_clock c i)])"
    using reader_okD(1) [OF ok] pop(6) len by (auto simp: cmsgs_ok_def nth_append less_Suc_eq)
  have own: "owned i (rlog c) (Suc r) B (lc_clock c i) []" for B
    using reader_okD(12) [OF ok] pop by (auto simp: owned_def)
  show ?thesis
    using ok wl pop cm own len pc
    by (intro linv_reader [OF assms(1) i]) (auto simp: c' only_reader_def reader_ok_def writes_le_def)
qed

lemma inv_CClaim:
  assumes "linv n cap c" and "lc_step n cap (CClaim i) c = Some c'"
  shows "linv n cap c'"
proof -
  have i: "i < n" and pc: "lc_pc c i = CIdle"
    and c': "c' = c\<lparr>lc_pc := (lc_pc c)(i := CClaimW), dvals := (dvals c)(i := dvals c i @ [Suc (last (dvals c i))]),
                d_seen := (d_seen c)(i := length (dvals c i))\<rparr>"
    using assms(2) by (auto split: if_splits)
  note ok = linvD(2) [OF assms(1) i]
  have "last (dvals c i) = length (loans c i)" using reader_okD(7) [OF ok] pc by (simp add: depth_ok_def)
  then have "depth_ok (Suc (length (loans c i))) (length (dvals c i)) (dvals c i @ [Suc (last (dvals c i))])"
    using depth_ok_rmw by simp
  then show ?thesis
    using ok linvD(6) [OF assms(1) i]
    by (intro linv_reader [OF assms(1) i]) (simp_all add: c' only_reader_def reader_ok_def)
qed

lemma inv_CLoadBase:
  assumes "linv n cap c" and "lc_step n cap (CLoadBase i t) c = Some c'"
  shows "linv n cap c'"
proof -
  obtain w r where i: "i < n" and pc: "lc_pc c i = CClaimBase w r"
    and c': "c' = c\<lparr>lc_pc := (lc_pc c)(i := if w \<le> max (bvals c i ! t) r then CClaimNone else CClaimCas w r (bvals c i ! t)),
                     b_seen := (b_seen c)(i := t)\<rparr>"
    using assms(2) by (auto split: c_pc.splits if_splits simp: Let_def)
  show ?thesis
    using linvD(2,6) [OF assms(1) i] pc
    by (intro linv_reader [OF assms(1) i]) (auto simp: c' only_reader_def reader_ok_def)
qed

lemma inv_CNone:
  assumes "linv n cap c" and "lc_step n cap (CNone i) c = Some c'"
  shows "linv n cap c'"
proof -
  have i: "i < n" and pc: "lc_pc c i = CClaimNone"
    and c': "c' = c\<lparr>lc_pc := (lc_pc c)(i := CIdle), dvals := (dvals c)(i := dvals c i @ [last (dvals c i) - 1]),
                d_seen := (d_seen c)(i := length (dvals c i))\<rparr>"
    using assms(2) by (auto split: if_splits)
  note ok = linvD(2) [OF assms(1) i]
  have "last (dvals c i) = Suc (length (loans c i))" using reader_okD(7) [OF ok] pc by (simp add: depth_ok_def)
  then have "depth_ok (length (loans c i)) (length (dvals c i)) (dvals c i @ [last (dvals c i) - 1])"
    using depth_ok_rmw by simp
  then show ?thesis
    using ok linvD(6) [OF assms(1) i]
    by (intro linv_reader [OF assms(1) i]) (simp_all add: c' only_reader_def reader_ok_def)
qed

text \<open>The claim: at an index no open loan has, and whose earlier reads the claiming thread knows.\<close>

lemma ownedD:
  assumes "owned i rl C B v hs" and "e < length rl" "fst (rl ! e) = i" "C \<le> fst (snd (rl ! e))"
    and "\<And>h. h \<in> set hs \<Longrightarrow> is_open h \<Longrightarrow> h_index h \<noteq> fst (snd (rl ! e))"
  shows "e \<in> rds v \<or> (\<exists>h\<in>set hs. \<not> is_open h \<and> e \<in> rds (h_clock h) \<and> (B \<le> fst (snd (rl ! e)) \<longrightarrow> aborted (h_pc h)))"
  using assms unfolding owned_def by blast

lemma owned_more:
  assumes "owned i rl C B v hs" and "set hs \<subseteq> set hs'" and "B \<le> B'"
  shows "owned i rl C B' v hs'"
  unfolding owned_def
proof (intro allI impI, elim conjE)
  fix e assume e: "e < length rl" "fst (rl ! e) = i" "C \<le> fst (snd (rl ! e))"
    and "\<forall>h\<in>set hs'. is_open h \<longrightarrow> h_index h \<noteq> fst (snd (rl ! e))"
  then have "\<And>h. h \<in> set hs \<Longrightarrow> is_open h \<Longrightarrow> h_index h \<noteq> fst (snd (rl ! e))" using assms(2) by blast
  from ownedD [OF assms(1) e this] have "e \<in> rds v \<or> (\<exists>h\<in>set hs. \<not> is_open h \<and> e \<in> rds (h_clock h) \<and> (B \<le> fst (snd (rl ! e)) \<longrightarrow> aborted (h_pc h)))"
    by blast
  then show "e \<in> rds v \<or> (\<exists>h\<in>set hs'. \<not> is_open h \<and> e \<in> rds (h_clock h) \<and> (B' \<le> fst (snd (rl ! e)) \<longrightarrow> aborted (h_pc h)))"
    using assms(2,3) by (meson order_trans subsetD)
qed

lemma owned_at:
  assumes "owned i rl C B v hs" and "C \<le> x" and "B \<le> x"
    and "\<And>h. h \<in> set hs \<Longrightarrow> \<not> aborted (h_pc h) \<and> (is_open h \<longrightarrow> h_index h \<noteq> x)"
  shows "reads_at i x rl v"
  unfolding reads_at_def
proof (intro allI impI, elim conjE)
  fix e assume e: "e < length rl" "fst (rl ! e) = i" "fst (snd (rl ! e)) = x"
  have "e \<in> rds v \<or> (\<exists>h\<in>set hs. \<not> is_open h \<and> e \<in> rds (h_clock h) \<and> (B \<le> fst (snd (rl ! e)) \<longrightarrow> aborted (h_pc h)))"
    by (rule ownedD [OF assms(1) e(1,2)]) (use assms(2,4) e(3) in auto)
  then show "e \<in> rds v" using assms(3,4) e(3) by blast
qed

lemma holder_ok_mono: "holder_ok i rl ws C B h \<Longrightarrow> B \<le> B' \<Longrightarrow> holder_ok i rl ws C B' h"
  by (auto simp: holder_ok_def)

lemma inv_CCas:
  assumes "linv n cap c" and "orderly (CCas i sp) c" and "lc_step n cap (CCas i sp) c = Some c'"
  shows "linv n cap c'"
proof -
  obtain w r b where pc: "lc_pc c i = CClaimCas w r b" and i: "i < n" using assms(3) by (auto split: c_pc.splits if_splits)
  note ok = linvD(2) [OF assms(1) i] and wl = linvD(6) [OF assms(1) i]
  show ?thesis
  proof (cases "sp \<or> last (bvals c i) \<noteq> b")
    case True
    then obtain x where "c' = c\<lparr>lc_pc := (lc_pc c)(i := CClaimW), b_seen := x\<rparr>"
    proof (cases sp)
      case True
      then have "c' = c\<lparr>lc_pc := (lc_pc c)(i := CClaimW)\<rparr>" using assms(3) pc i by simp
      then show ?thesis by (intro that [of "b_seen c"] lsys.equality) simp_all
    next
      case False
      then show ?thesis
        using that [of "(b_seen c)(i := Suc (b_seen c i))"] True assms(3) pc i by simp
    qed
    then show ?thesis
      using ok wl pc by (intro linv_reader [OF assms(1) i]) (auto simp: only_reader_def reader_ok_def)
  next
    case False
    let ?x = "max b r" and ?C = "cursor (cmsgs c i)" and ?hs = "loans c i @ gone c i"
    let ?h = "\<lparr>h_index = ?x, h_clock = lc_clock c i, h_seen = c_seen c i, h_pc = Held\<rparr>"
    have c': "c' = c\<lparr>lc_pc := (lc_pc c)(i := CIdle), bvals := (bvals c)(i := bvals c i @ [Suc ?x]),
        b_seen := (b_seen c)(i := length (bvals c i)), loans := (loans c)(i := loans c i @ [?h])\<rparr>"
      using assms(3) pc i False by simp
    have b: "last (bvals c i) = b" and x: "w = w_seen c i" "r = c_seen c i" "?x < w"
      using False reader_okD(13) [OF ok] pc by auto
    have Cx: "?C \<le> ?x" using reader_okD(6) [OF ok] b x(2) by simp
    have free: "\<not> aborted (h_pc h)" "h_index h < b" if "h \<in> set ?hs" for h
      using reader_okD(8) [OF ok, of h] that assms(2) b by (auto simp: holder_ok_def)
    have "reads_at i ?x (rlog c) (lc_clock c i)"
      using free b by (intro owned_at [OF reader_okD(12) [OF ok] Cx]) fastforce+
    then have "holder_ok i (rlog c) (w_seen c i) ?C (Suc ?x) ?h"
      using reader_okD(2,5) [OF ok] Cx x by (simp add: holder_ok_def)
    moreover have "holder_ok i (rlog c) (w_seen c i) ?C (Suc ?x) h" if "h \<in> set ?hs" for h
    proof -
      have "holder_ok i (rlog c) (w_seen c i) ?C b h" using reader_okD(8) [OF ok, of h] that b by simp
      then show ?thesis by (rule holder_ok_mono) simp
    qed
    ultimately have hold: "\<forall>h\<in>set ((loans c i @ [?h]) @ gone c i). holder_ok i (rlog c) (w_seen c i) ?C (Suc ?x) h"
      by auto
    have new: "?x \<notin> h_index ` {h \<in> set ?hs. \<not> aborted (h_pc h)}" using free(2) by fastforce
    have dist: "distinct (map h_index (filter (\<lambda>h. \<not> aborted (h_pc h)) ((loans c i @ [?h]) @ gone c i)))"
      using reader_okD(10) [OF ok] new by auto
    have own: "owned i (rlog c) ?C (Suc ?x) (lc_clock c i) ((loans c i @ [?h]) @ gone c i)"
      by (rule owned_more [OF reader_okD(12) [OF ok]]) (use b in auto)
    have seen: "c_seen c i = ?C \<or> (\<exists>h \<in> set ((loans c i @ [?h]) @ gone c i). h_seen h = ?C)"
      using reader_okD(11) [OF ok] by auto
    have depth: "depth_ok (length (loans c i @ [?h])) (d_seen c i) (dvals c i)" using reader_okD(7) [OF ok] pc by simp
    have max: "?C \<le> max (Suc ?x) (c_seen c i)" using Cx by simp
    have gone: "\<forall>h\<in>set (gone c i). \<not> is_open h" using reader_okD(9) [OF ok] by blast
    have "reader_ok i (rlog c) (length (lpub c)) (cmsgs c i) CIdle (lc_clock c i) (w_seen c i) (c_seen c i) (dvals c i)
        (d_seen c i) (bvals c i @ [Suc ?x]) (loans c i @ [?h]) (gone c i)"
      unfolding reader_ok_def last_snoc claiming.simps c_pc_ok.simps add_0_right
      by (intro conjI reader_okD(1-5) [OF ok] hold gone dist own seen depth max TrueI)
    then have "reader_inv i c'" by (simp add: c')
    then show ?thesis
      using wl by (intro linv_reader [OF assms(1) i]) (simp_all add: c' only_reader_def writes_le_def)
  qed
qed

lemma fold_sup_ge_init: "v \<le> fold sup vs (v :: clock)"
  by (induction vs arbitrary: v) (auto intro: order_trans [OF sup_ge2])

lemma fold_sup_ge: "u \<in> set vs \<Longrightarrow> u \<le> fold sup vs (v :: clock)"
  by (induction vs arbitrary: v) (auto intro: order_trans [OF sup_ge1 fold_sup_ge_init])

lemma wr_fold_sup: "wr v \<le> N \<Longrightarrow> (\<And>u. u \<in> set vs \<Longrightarrow> wr u \<le> N) \<Longrightarrow> wr (fold sup vs v) \<le> N"
  by (induction vs arbitrary: v) auto

lemma fold_max_ge_init: "v \<le> fold max vs (v :: nat)"
  by (induction vs arbitrary: v) (auto intro: order_trans [OF max.cobounded2])

lemma fold_max_ge: "u \<in> set vs \<Longrightarrow> u \<le> fold max vs (v :: nat)"
  by (induction vs arbitrary: v) (auto intro: order_trans [OF max.cobounded1 fold_max_ge_init])

lemma fold_max_le: "v \<le> N \<Longrightarrow> (\<And>u. u \<in> set vs \<Longrightarrow> u \<le> N) \<Longrightarrow> fold max vs v \<le> (N :: nat)"
  by (induction vs arbitrary: v) auto

lemma owned_sync:
  assumes "owned i rl C B v (lo @ go)" and "v \<le> v'" and "\<And>h. h \<in> set go \<Longrightarrow> \<not> is_open h \<and> h_clock h \<le> v'"
  shows "owned i rl C B v' lo"
  unfolding owned_def
proof (intro allI impI, elim conjE)
  fix e assume e: "e < length rl" "fst (rl ! e) = i" "C \<le> fst (snd (rl ! e))"
    and "\<forall>h\<in>set lo. is_open h \<longrightarrow> h_index h \<noteq> fst (snd (rl ! e))"
  then have "\<And>h. h \<in> set (lo @ go) \<Longrightarrow> is_open h \<Longrightarrow> h_index h \<noteq> fst (snd (rl ! e))" using assms(3) by auto
  from ownedD [OF assms(1) e this] have "e \<in> rds v
      \<or> (\<exists>h\<in>set (lo @ go). \<not> is_open h \<and> e \<in> rds (h_clock h) \<and> (B \<le> fst (snd (rl ! e)) \<longrightarrow> aborted (h_pc h)))"
    by blast
  then show "e \<in> rds v' \<or> (\<exists>h\<in>set lo. \<not> is_open h \<and> e \<in> rds (h_clock h) \<and> (B \<le> fst (snd (rl ! e)) \<longrightarrow> aborted (h_pc h)))"
  proof (elim disjE bexE conjE)
    fix h assume "h \<in> set (lo @ go)" "\<not> is_open h" "e \<in> rds (h_clock h)" "B \<le> fst (snd (rl ! e)) \<longrightarrow> aborted (h_pc h)"
    then show ?thesis using assms(3) [of h] clock_leD(2) [of "h_clock h" v' e] by (cases "h \<in> set go") auto
  qed (use clock_leD(2) [OF assms(2)] in simp)
qed

lemma inv_CSync:
  assumes "linv n cap c" and "lc_step n cap (CSync i) c = Some c'"
  shows "linv n cap c'"
proof -
  let ?v = "fold sup (map h_clock (gone c i)) (lc_clock c i)"
  let ?s = "fold max (map h_seen (gone c i)) (c_seen c i)" and ?C = "cursor (cmsgs c i)"
  have i: "i < n" and pc: "lc_pc c i = CIdle"
    and c': "c' = c\<lparr>lc_clock := (lc_clock c)(i := ?v), c_seen := (c_seen c)(i := ?s), gone := (gone c)(i := [])\<rparr>"
    using assms(2) by (auto split: if_splits)
  note ok = linvD(2) [OF assms(1) i] and wl = linvD(6) [OF assms(1) i]
  have N: "wr ?v \<le> wr (lp_clock c)" using wl by (intro wr_fold_sup) (auto simp: writes_le_def)
  have sC: "?s \<le> ?C" using reader_okD(2) [OF ok] reader_okD(8) [OF ok] by (intro fold_max_le) (auto simp: holder_ok_def)
  have s: "c_seen c i \<le> ?s" "h \<in> set (gone c i) \<Longrightarrow> h_seen h \<le> ?s" for h
    using fold_max_ge_init fold_max_ge by simp_all
  have own: "owned i (rlog c) ?C (last (bvals c i)) ?v (loans c i)"
    using reader_okD(9) [OF ok] by (intro owned_sync [OF reader_okD(12) [OF ok] fold_sup_ge_init]) (auto intro: fold_sup_ge)
  have seen: "?s = ?C \<or> (\<exists>h \<in> set (loans c i). h_seen h = ?C)"
    using reader_okD(11) [OF ok] le_antisym [OF sC] s by (metis Un_iff set_append)
  have ws: "w_seen c i \<le> wr ?v" using reader_okD(5) [OF ok] clock_leD(1) [OF fold_sup_ge_init] le_trans by blast
  have "reader_inv i c'"
    using ok sC s(1) pc own seen ws by (auto simp: c' reader_ok_def le_max_iff_disj)
  then show ?thesis
    using wl N by (intro linv_reader [OF assms(1) i]) (auto simp: c' only_reader_def writes_le_def)
qed

section \<open>The holders of the loans\<close>

text \<open>What a step of the holder of \<open>h\<close>, which turns it into \<open>h'\<close>, may do to its reads.\<close>

lemma owned_change:
  assumes "owned i rl C B v hs" and "C \<le> C'" and "\<And>g. g \<in> set hs \<Longrightarrow> g \<in> set hs' \<or> g = h" and "is_open h"
    and "\<And>x. x \<noteq> h_index h \<Longrightarrow> B' \<le> x \<Longrightarrow> B \<le> x"
    and "h_index h < C' \<or> h' \<in> set hs' \<and> h_index h' = h_index h \<and> is_open h'
      \<or> h' \<in> set hs' \<and> \<not> is_open h' \<and> reads_at i (h_index h) rl (h_clock h') \<and> (B' \<le> h_index h \<longrightarrow> aborted (h_pc h'))"
  shows "owned i rl C' B' v hs'"
  unfolding owned_def
proof (intro allI impI, elim conjE)
  fix e assume e: "e < length rl" "fst (rl ! e) = i" "C' \<le> fst (snd (rl ! e))"
    and free: "\<forall>g\<in>set hs'. is_open g \<longrightarrow> h_index g \<noteq> fst (snd (rl ! e))"
  let ?x = "fst (snd (rl ! e))"
  let ?known = "e \<in> rds v \<or> (\<exists>g\<in>set hs'. \<not> is_open g \<and> e \<in> rds (h_clock g) \<and> (B' \<le> ?x \<longrightarrow> aborted (h_pc g)))"
  show ?known
  proof (cases "?x = h_index h")
    case True
    have "C' \<le> h_index h" using e(3) True by simp
    moreover have "\<not> (h' \<in> set hs' \<and> h_index h' = h_index h \<and> is_open h')" using free True by auto
    ultimately have h': "h' \<in> set hs'" "\<not> is_open h'" "reads_at i (h_index h) rl (h_clock h')"
      "B' \<le> h_index h \<longrightarrow> aborted (h_pc h')"
      using assms(6) by auto
    moreover have "e \<in> rds (h_clock h')" using h'(3) e(1,2) True by (simp add: reads_at_def)
    ultimately show ?thesis using True by auto
  next
    case False
    have "C \<le> ?x" using e(3) assms(2) by simp
    moreover have "h_index g \<noteq> ?x" if "g \<in> set hs" "is_open g" for g
      using assms(3) [OF that(1)] free that(2) False by (metis (no_types))
    ultimately have "e \<in> rds v \<or> (\<exists>g\<in>set hs. \<not> is_open g \<and> e \<in> rds (h_clock g) \<and> (B \<le> ?x \<longrightarrow> aborted (h_pc g)))"
      by (rule ownedD [OF assms(1) e(1,2)])
    then show ?thesis
    proof (elim disjE bexE conjE)
      fix g assume "g \<in> set hs" "\<not> is_open g" "e \<in> rds (h_clock g)" "B \<le> ?x \<longrightarrow> aborted (h_pc g)"
      moreover from this have "g \<in> set hs'" using assms(3,4) by blast
      moreover have "B' \<le> ?x \<Longrightarrow> B \<le> ?x" by (rule assms(5) [OF False])
      ultimately show ?known by auto
    qed simp
  qed
qed

lemma owned_read:
  assumes "owned i rl C B v hs" and "h \<in> set hs" and "is_open h" and "h_index h = x"
  shows "owned i (rl @ [(i, x, w)]) C B v hs"
  using assms unfolding owned_def by (auto simp: nth_append less_Suc_eq)

text \<open>While a loan is out, the consuming thread is not in a pop, so it does not care.\<close>

lemma c_pc_ok_busy: "c_pc_ok i rl ws cs C v False pc \<Longrightarrow> c_pc_ok i rl' ws cs C' v False pc"
  by (cases pc) simp_all

lemma loan_at:
  assumes "k < length hs"
  obtains as h bs where "hs = as @ h # bs" and "k = length as" and "hs ! k = h"
  using id_take_nth_drop [OF assms] assms that [of "take k hs" "hs ! k" "drop (Suc k) hs"] by simp

lemma other_index:
  assumes "distinct (map h_index (filter (\<lambda>g. \<not> aborted (h_pc g)) ((as @ h # bs) @ go)))" and "\<not> aborted (h_pc h)"
    and "g \<in> set (as @ bs @ go)" and "\<not> aborted (h_pc g)"
  shows "h_index g \<noteq> h_index h"
  using assms by (auto simp: image_iff)

lemma open_not_aborted: "is_open h \<Longrightarrow> \<not> aborted (h_pc h)"
  by (auto simp: is_open_def)

lemma distinct_change:
  assumes "distinct (map h_index (filter (\<lambda>g. \<not> aborted (h_pc g)) ((as @ h # bs) @ go)))" and "\<not> aborted (h_pc h)"
    and "h_index h' = h_index h \<or> aborted (h_pc h')"
  shows "distinct (map h_index (filter (\<lambda>g. \<not> aborted (h_pc g)) ((as @ h' # bs) @ go)))"
  using assms by (cases "aborted (h_pc h')") simp_all

lemma inv_HDeref:
  assumes "linv n cap c" and "0 < cap" and "lh_step n cap (HDeref i k) c = Some c'"
  shows "linv n cap c'"
proof -
  have i: "i < n" and k: "k < length (loans c i)" and held: "h_pc (loans c i ! k) = Held"
    using assms(3) by (auto split: if_splits)
  obtain as h bs where lo: "loans c i = as @ h # bs" and ka: "k = length as" and h: "loans c i ! k = h"
    by (rule loan_at [OF k])
  let ?x = "h_index h" and ?e = "length (rlog c)"
  let ?h = "h\<lparr>h_clock := has_read ?e (h_clock h)\<rparr>" and ?rl = "rlog c @ [(i, ?x, lslots c (?x mod cap))]"
  have c': "c' = c\<lparr>loans := (loans c)(i := as @ ?h # bs), rlog := ?rl,
      lraced := (lraced c \<or> read_races cap ?x (h_clock h) c)\<rparr>"
    using assms(3) i k held h by (simp add: Let_def lo ka)
  note ok = linvD(2) [OF assms(1) i] and wl = linvD(6) [OF assms(1) i]
  have opn: "is_open h" using held h by (simp add: is_open_def)
  have "holder_ok i (rlog c) (w_seen c i) (cursor (cmsgs c i)) (last (bvals c i)) h"
    using reader_okD(8) [OF ok, of h] lo by simp
  with opn have x: "cursor (cmsgs c i) \<le> ?x" "?x < w_seen c i" "?x < wr (h_clock h)"
    and new: "holder_ok i ?rl (w_seen c i) (cursor (cmsgs c i)) (last (bvals c i)) ?h"
    using held h by (auto simp: holder_ok_def is_open_def)
  have "holder_ok i ?rl (w_seen c i) (cursor (cmsgs c i)) (last (bvals c i)) g" if "g \<in> set (as @ bs @ go)" "go = gone c i" for g go
  proof -
    have "holder_ok i (rlog c) (w_seen c i) (cursor (cmsgs c i)) (last (bvals c i)) g"
      using reader_okD(8) [OF ok, of g] lo that by auto
    moreover have "h_index g \<noteq> ?x" if "is_open g"
      using other_index [OF reader_okD(10) [OF ok, unfolded lo] open_not_aborted [OF opn]] that
        \<open>g \<in> set (as @ bs @ go)\<close> \<open>go = gone c i\<close> open_not_aborted by blast
    ultimately show ?thesis using x(1) by (auto simp: holder_ok_def)
  qed
  with new have hold: "\<forall>g\<in>set ((as @ ?h # bs) @ gone c i). holder_ok i ?rl (w_seen c i) (cursor (cmsgs c i)) (last (bvals c i)) g"
    by auto
  have cm: "cmsgs_ok i ?rl (cmsgs c i)" using reader_okD(1) [OF ok] x(1) by (auto simp: cmsgs_ok_def)
  have "owned i (rlog c) (cursor (cmsgs c i)) (last (bvals c i)) (lc_clock c i) ((as @ ?h # bs) @ gone c i)"
    by (rule owned_change [OF reader_okD(12) [OF ok], where h = h and h' = ?h]) (use opn lo in \<open>auto simp: is_open_def\<close>)
  then have own: "owned i ?rl (cursor (cmsgs c i)) (last (bvals c i)) (lc_clock c i) ((as @ ?h # bs) @ gone c i)"
    by (rule owned_read [where h = ?h]) (use opn in \<open>auto simp: is_open_def\<close>)
  have dist: "distinct (map h_index (filter (\<lambda>g. \<not> aborted (h_pc g)) ((as @ ?h # bs) @ gone c i)))"
    by (rule distinct_change [OF reader_okD(10) [OF ok, unfolded lo] open_not_aborted [OF opn]]) simp
  have seen: "c_seen c i = cursor (cmsgs c i) \<or> (\<exists>g \<in> set ((as @ ?h # bs) @ gone c i). h_seen g = cursor (cmsgs c i))"
    using reader_okD(11) [OF ok] lo by auto
  have busy: "c_pc_ok i ?rl (w_seen c i) (c_seen c i) (cursor (cmsgs c i)) (lc_clock c i) False (lc_pc c i)"
    using c_pc_ok_busy reader_okD(13) [OF ok] lo by fastforce
  have "reader_inv i c'"
    using reader_okD(2-7,9) [OF ok] cm hold own dist seen busy lo by (simp add: c' reader_ok_def)
  moreover have "writes_inv i c'" using wl lo by (simp add: c' writes_le_def)
  ultimately show ?thesis
    using x reader_okD(4) [OF ok]
    by (intro linv_read [OF assms(1) i assms(2), where x = ?x and v = "h_clock h"]) (auto simp: c' only_reader_def)
qed

text \<open>The other steps of a holder: its loan stays open, or is closed, and the cursor and the base may move.\<close>

lemma holder_change:
  assumes ok: "reader_ok i rl W cm pc v ws cs dv ds bv (as @ h # bs) go" and opn: "is_open h"
    and new: "h_index h' = h_index h" "h_seen h \<le> h_seen h'" "holder_ok i rl ws (cursor cm') (last bv') h'"
    and cm: "cmsgs_ok i rl cm'" "cursor cm \<le> cursor cm'" "cursor cm' \<le> ws" "cursor cm' \<le> max (last bv') cs"
    and others: "\<And>g. g \<in> set (as @ bs @ go) \<Longrightarrow> (\<not> aborted (h_pc g) \<Longrightarrow> h_index g \<noteq> h_index h)
      \<Longrightarrow> holder_ok i rl ws (cursor cm) (last bv) g \<Longrightarrow> holder_ok i rl ws (cursor cm') (last bv') g"
    and seen: "cursor cm' = cursor cm \<or> h_seen h' = cursor cm'"
    and base: "\<And>x. x \<noteq> h_index h \<Longrightarrow> last bv' \<le> x \<Longrightarrow> last bv \<le> x"
    and reads: "h_index h < cursor cm' \<or> is_open h'
      \<or> reads_at i (h_index h) rl (h_clock h') \<and> (last bv' \<le> h_index h \<longrightarrow> aborted (h_pc h'))"
  shows "reader_ok i rl W cm' pc v ws cs dv ds bv' (as @ h' # bs) go"
proof -
  note live = open_not_aborted [OF opn]
  have "holder_ok i rl ws (cursor cm') (last bv') g" if "g \<in> set (as @ bs @ go)" for g
  proof (rule others [OF that])
    show "holder_ok i rl ws (cursor cm) (last bv) g" using reader_okD(8) [OF ok, of g] that by auto
  qed (rule other_index [OF reader_okD(10) [OF ok] live that])
  with new(3) have hold: "\<forall>g\<in>set ((as @ h' # bs) @ go). holder_ok i rl ws (cursor cm') (last bv') g" by auto
  have dist: "distinct (map h_index (filter (\<lambda>g. \<not> aborted (h_pc g)) ((as @ h' # bs) @ go)))"
    by (rule distinct_change [OF reader_okD(10) [OF ok] live]) (simp add: new(1))
  have own: "owned i rl (cursor cm') (last bv') v ((as @ h' # bs) @ go)"
    by (rule owned_change [OF reader_okD(12) [OF ok] cm(2) _ opn base, where h' = h']) (use reads new(1) in auto)
  have le: "h_seen h' \<le> cursor cm'" using new(3) by (simp add: holder_ok_def)
  have "h_seen h' = cursor cm'" if "h_seen h = cursor cm" using seen that le new(2) by auto
  then have news: "cs = cursor cm' \<or> (\<exists>g\<in>set ((as @ h' # bs) @ go). h_seen g = cursor cm')"
    using reader_okD(11) [OF ok] seen by auto
  have gone: "\<forall>g\<in>set go. \<not> is_open g" using reader_okD(9) [OF ok] by blast
  have cs: "cs \<le> cursor cm'" using reader_okD(2) [OF ok] cm(2) by simp
  have busy: "c_pc_ok i rl ws cs (cursor cm') v (as @ h' # bs = [] \<and> go = []) pc"
    using c_pc_ok_busy reader_okD(13) [OF ok] by fastforce
  have depth: "depth_ok (length (as @ h' # bs) + claiming pc) ds dv" using reader_okD(7) [OF ok] by simp
  show ?thesis
    unfolding reader_ok_def
    by (intro conjI cm(1,3,4) cs reader_okD(4,5) [OF ok] depth hold gone dist news own busy)
qed

lemma linv_holder:
  assumes "linv n cap c" and "i < n" and "only_reader i c c'" and "rlog c' = rlog c" and "lraced c' = lraced c"
    and "loans c i = as @ h # bs" and "loans c' i = as @ h' # bs" and "gone c' i = gone c i" and "lc_pc c' i = lc_pc c i"
    and "lc_clock c' i = lc_clock c i" and "w_seen c' i = w_seen c i" and "c_seen c' i = c_seen c i"
    and "dvals c' i = dvals c i" and "d_seen c' i = d_seen c i"
    and "cmsgs c' i = cmsgs c i \<or> (\<exists>m. cmsgs c' i = cmsgs c i @ [m] \<and> wr (snd m) \<le> wr (lp_clock c))"
    and "wr (h_clock h') \<le> wr (lp_clock c)"
    and "reader_ok i (rlog c) (length (lpub c)) (cmsgs c' i) (lc_pc c i) (lc_clock c i) (w_seen c i) (c_seen c i)
      (dvals c i) (d_seen c i) (bvals c' i) (as @ h' # bs) (gone c i)"
  shows "linv n cap c'"
proof -
  have "lp_clock c' = lp_clock c" "lpub c' = lpub c" using assms(3) by (simp_all add: only_reader_def)
  moreover have "writes_inv i c'"
    using linvD(6) [OF assms(1,2)] assms(6-8,10,15,16) calculation by (auto simp: writes_le_def)
  moreover have "reader_inv i c'" using assms(4,7-14,17) calculation by simp
  ultimately show ?thesis using assms(3,4,5,15) by (intro linv_reader [OF assms(1,2)]) auto
qed

lemma inv_HCursor:
  assumes "linv n cap c" and "lh_step n cap (HCursor i k t dropping) c = Some c'"
  shows "linv n cap c'"
proof -
  have i: "i < n" and k: "k < length (loans c i)" and held: "h_pc (loans c i ! k) = Held"
    and t: "h_seen (loans c i ! k) \<le> t" "t < length (cmsgs c i)"
    using assms(2) by (auto split: if_splits)
  obtain as h bs where lo: "loans c i = as @ h # bs" and ka: "k = length as" and h: "loans c i ! k = h"
    by (rule loan_at [OF k])
  note ok = linvD(2) [OF assms(1) i] and wl = linvD(6) [OF assms(1) i]
  note m = cmsgs_okD(2,3) [OF reader_okD(1) [OF ok] t(2)]
  let ?vv = "snd (cmsgs c i ! t)"
  let ?pc = "if t = h_index h then Storing else if dropping then Leaving False else Held"
  let ?h = "h\<lparr>h_clock := sup (h_clock h) ?vv, h_seen := t, h_pc := ?pc\<rparr>"
  have c': "c' = c\<lparr>loans := (loans c)(i := as @ ?h # bs)\<rparr>"
    using assms(2) i k held h t m(1) by (simp add: Let_def lo ka case_prod_beta)
  have opn: "is_open h" using held h by (simp add: is_open_def)
  have old: "holder_ok i (rlog c) (w_seen c i) (cursor (cmsgs c i)) (last (bvals c i)) h"
    using reader_okD(8) [OF ok, of h] lo by simp
  have new: "holder_ok i (rlog c) (w_seen c i) (cursor (cmsgs c i)) (last (bvals c i)) ?h"
  proof -
    have "cursor (cmsgs c i) \<le> h_index h" using old opn by (simp add: holder_ok_def)
    then have "cursor (cmsgs c i) = t" if "t = h_index h" using t(2) that by simp
    then show ?thesis
      using old opn t(2) m(2) held h by (auto simp: holder_ok_def is_open_def le_max_iff_disj less_max_iff_disj)
  qed
  have "wr ?vv \<le> wr (lp_clock c)" using writes_leD(1) [OF wl] t(2) by simp
  then have wr: "wr (h_clock ?h) \<le> wr (lp_clock c)" using writes_leD(3) [OF wl, of h] lo by simp
  have "reader_ok i (rlog c) (length (lpub c)) (cmsgs c i) (lc_pc c i) (lc_clock c i) (w_seen c i) (c_seen c i)
      (dvals c i) (d_seen c i) (bvals c i) (as @ ?h # bs) (gone c i)"
  proof (rule holder_change [OF ok [unfolded lo] opn])
    show "h_index h < cursor (cmsgs c i) \<or> is_open ?h
      \<or> reads_at i (h_index h) (rlog c) (h_clock ?h) \<and> (last (bvals c i) \<le> h_index h \<longrightarrow> aborted (h_pc ?h))"
      using old opn held h by (auto simp: holder_ok_def is_open_def)
  qed (use new t h reader_okD(1,3,6) [OF ok] in auto)
  then show ?thesis
    using lo wr by (intro linv_holder [OF assms(1) i, where as = as and h = h and bs = bs and h' = ?h])
      (simp_all add: c' only_reader_def)
qed

lemma inv_HStore:
  assumes "linv n cap c" and "lh_step n cap (HStore i k) c = Some c'"
  shows "linv n cap c'"
proof -
  have i: "i < n" and k: "k < length (loans c i)" and sto: "h_pc (loans c i ! k) = Storing"
    using assms(2) by (auto split: if_splits)
  obtain as h bs where lo: "loans c i = as @ h # bs" and ka: "k = length as" and h: "loans c i ! k = h"
    by (rule loan_at [OF k])
  note ok = linvD(2) [OF assms(1) i] and wl = linvD(6) [OF assms(1) i]
  let ?x = "h_index h" and ?cm = "cmsgs c i @ [(Suc (h_index h), h_clock h)]"
  let ?h = "h\<lparr>h_seen := length (cmsgs c i), h_pc := Leaving False\<rparr>"
  have c': "c' = c\<lparr>cmsgs := (cmsgs c)(i := ?cm), loans := (loans c)(i := as @ ?h # bs)\<rparr>"
    using assms(2) i k sto h by (simp add: Let_def lo ka)
  have opn: "is_open h" using sto h by (simp add: is_open_def)
  have old: "holder_ok i (rlog c) (w_seen c i) (cursor (cmsgs c i)) (last (bvals c i)) h"
    using reader_okD(8) [OF ok, of h] lo by simp
  then have x: "cursor (cmsgs c i) = ?x" "?x < w_seen c i" "?x < last (bvals c i)" "h_seen h \<le> ?x"
    and reads: "reads_below i (Suc ?x) (rlog c) (h_clock h)"
    using opn sto h by (auto simp: holder_ok_def reads_below_Suc is_open_def)
  have len: "length (cmsgs c i) = Suc ?x" using x(1) cmsgs_okD(1) [OF reader_okD(1) [OF ok]] by (cases "cmsgs c i") simp_all
  have cur: "cursor ?cm = Suc ?x" using len by simp
  have cm: "cmsgs_ok i (rlog c) ?cm"
    using reader_okD(1) [OF ok] reads len by (auto simp: cmsgs_ok_def nth_append less_Suc_eq)
  have wr: "wr (h_clock h) \<le> wr (lp_clock c)" using writes_leD(3) [OF wl, of h] lo by simp
  have "reader_ok i (rlog c) (length (lpub c)) ?cm (lc_pc c i) (lc_clock c i) (w_seen c i) (c_seen c i)
      (dvals c i) (d_seen c i) (bvals c i) (as @ ?h # bs) (gone c i)"
  proof (rule holder_change [OF ok [unfolded lo] opn])
    show "holder_ok i (rlog c) (w_seen c i) (cursor ?cm) (last (bvals c i)) g"
      if "\<not> aborted (h_pc g) \<Longrightarrow> h_index g \<noteq> ?x"
        and "holder_ok i (rlog c) (w_seen c i) (cursor (cmsgs c i)) (last (bvals c i)) g" for g
    proof -
      have "is_open g \<Longrightarrow> h_index g \<noteq> ?x" using that(1) open_not_aborted by blast
      moreover have "h_pc g = Storing \<Longrightarrow> is_open g" by (simp add: is_open_def)
      ultimately show ?thesis using that(2) unfolding cur x(1) holder_ok_def by auto
    qed
    show "holder_ok i (rlog c) (w_seen c i) (cursor ?cm) (last (bvals c i)) ?h"
      unfolding cur using x(3) len by (simp add: holder_ok_def is_open_def)
  qed (use cm cur x len reader_okD(6) [OF ok] in simp_all)
  then show ?thesis
    using lo wr by (intro linv_holder [OF assms(1) i, where as = as and h = h and bs = bs and h' = ?h])
      (simp_all add: c' only_reader_def)
qed

text \<open>The newest loan is aborted: its index is claimable again, by a thread that knows the loan's reads.\<close>

lemma inv_HAbort:
  assumes "linv n cap c" and "orderly (HAbort i k) c" and "lh_step n cap (HAbort i k) c = Some c'"
  shows "linv n cap c'"
proof -
  have i: "i < n" and k: "k < length (loans c i)" and held: "h_pc (loans c i ! k) = Held"
    using assms(3) by (auto split: if_splits)
  obtain as h bs where lo: "loans c i = as @ h # bs" and ka: "k = length as" and h: "loans c i ! k = h"
    by (rule loan_at [OF k])
  note ok = linvD(2) [OF assms(1) i] and wl = linvD(6) [OF assms(1) i]
  let ?x = "h_index h" and ?h = "h\<lparr>h_pc := Leaving True\<rparr>"
  have B: "last (bvals c i) = Suc ?x" using assms(2) h by simp
  have c': "c' = c\<lparr>bvals := (bvals c)(i := bvals c i @ [?x]), loans := (loans c)(i := as @ ?h # bs)\<rparr>"
    using assms(3) i k held h B by (simp add: Let_def lo ka)
  have opn: "is_open h" using held h by (simp add: is_open_def)
  have old: "holder_ok i (rlog c) (w_seen c i) (cursor (cmsgs c i)) (last (bvals c i)) h"
    using reader_okD(8) [OF ok, of h] lo by simp
  have "reader_ok i (rlog c) (length (lpub c)) (cmsgs c i) (lc_pc c i) (lc_clock c i) (w_seen c i) (c_seen c i)
      (dvals c i) (d_seen c i) (bvals c i @ [?x]) (as @ ?h # bs) (gone c i)"
  proof (rule holder_change [OF ok [unfolded lo] opn])
    show "holder_ok i (rlog c) (w_seen c i) (cursor (cmsgs c i)) (last (bvals c i @ [?x])) g"
      if "\<not> aborted (h_pc g) \<Longrightarrow> h_index g \<noteq> ?x"
        and "holder_ok i (rlog c) (w_seen c i) (cursor (cmsgs c i)) (last (bvals c i)) g" for g
      using that B by (fastforce simp: holder_ok_def)
    show "holder_ok i (rlog c) (w_seen c i) (cursor (cmsgs c i)) (last (bvals c i @ [?x])) ?h"
      using old by (simp add: holder_ok_def is_open_def)
    show "cursor (cmsgs c i) \<le> max (last (bvals c i @ [?x])) (c_seen c i)"
      using old opn by (simp add: holder_ok_def le_max_iff_disj)
    show "?x < cursor (cmsgs c i) \<or> is_open ?h
      \<or> reads_at i ?x (rlog c) (h_clock ?h) \<and> (last (bvals c i @ [?x]) \<le> ?x \<longrightarrow> aborted (h_pc ?h))"
      using old opn by (simp add: holder_ok_def)
  qed (use reader_okD(1,3) [OF ok] B in auto)
  then show ?thesis
    using lo writes_leD(3) [OF wl, of h]
    by (intro linv_holder [OF assms(1) i, where as = as and h = h and bs = bs and h' = ?h])
      (simp_all add: c' only_reader_def)
qed

lemma inv_HResolve:
  assumes "linv n cap c" and "lh_step n cap (HResolve i k) c = Some c'"
  shows "linv n cap c'"
proof -
  have i: "i < n" and k: "k < length (loans c i)" and out: "\<not> is_open (loans c i ! k)"
    using assms(2) by (auto simp: is_open_def split: if_splits)
  obtain as h bs where lo: "loans c i = as @ h # bs" and ka: "k = length as" and h: "loans c i ! k = h"
    by (rule loan_at [OF k])
  have c': "c' = c\<lparr>dvals := (dvals c)(i := dvals c i @ [last (dvals c i) - 1]),
      loans := (loans c)(i := as @ bs), gone := (gone c)(i := gone c i @ [h])\<rparr>"
    using assms(2) h by (simp add: lo ka split: if_splits)
  note ok = linvD(2) [OF assms(1) i] and wl = linvD(6) [OF assms(1) i]
  let ?m = "length (as @ bs) + claiming (lc_pc c i)" and ?hs = "(as @ bs) @ gone c i @ [h]"
  have d: "depth_ok (Suc ?m) (d_seen c i) (dvals c i)" using reader_okD(7) [OF ok] lo by simp
  have "last (dvals c i) - 1 = ?m" using d by (simp add: depth_ok_def)
  then have depth: "depth_ok ?m (d_seen c i) (dvals c i @ [last (dvals c i) - 1])" using depth_ok_dec [OF d] by simp
  have same: "set ?hs = set (loans c i @ gone c i)" using lo by auto
  have hold: "\<forall>g\<in>set ?hs. holder_ok i (rlog c) (w_seen c i) (cursor (cmsgs c i)) (last (bvals c i)) g"
    using reader_okD(8) [OF ok] unfolding same by auto
  have gone: "\<forall>g\<in>set (gone c i @ [h]). \<not> is_open g" using reader_okD(9) [OF ok] out h by auto
  have dist: "distinct (map h_index (filter (\<lambda>g. \<not> aborted (h_pc g)) ?hs))"
    using reader_okD(10) [OF ok, unfolded lo] by (cases "aborted (h_pc h)") auto
  have seen: "c_seen c i = cursor (cmsgs c i) \<or> (\<exists>g\<in>set ?hs. h_seen g = cursor (cmsgs c i))"
    using reader_okD(11) [OF ok] unfolding same .
  have own: "owned i (rlog c) (cursor (cmsgs c i)) (last (bvals c i)) (lc_clock c i) ?hs"
    by (rule owned_more [OF reader_okD(12) [OF ok]]) (use lo in auto)
  have busy: "c_pc_ok i (rlog c) (w_seen c i) (c_seen c i) (cursor (cmsgs c i)) (lc_clock c i)
      (as @ bs = [] \<and> gone c i @ [h] = []) (lc_pc c i)"
    using reader_okD(13) [OF ok] lo by simp
  have "reader_ok i (rlog c) (length (lpub c)) (cmsgs c i) (lc_pc c i) (lc_clock c i) (w_seen c i) (c_seen c i)
      (dvals c i @ [last (dvals c i) - 1]) (d_seen c i) (bvals c i) (as @ bs) (gone c i @ [h])"
    unfolding reader_ok_def by (intro conjI reader_okD(1-6) [OF ok] depth hold gone dist seen own busy)
  then have "reader_inv i c'" by (simp add: c')
  moreover have "writes_inv i c'" using wl lo by (auto simp: c' writes_le_def)
  ultimately show ?thesis by (intro linv_reader [OF assms(1) i]) (simp_all add: c' only_reader_def)
qed

section \<open>Every step\<close>

lemma lp_step_inv:
  assumes "linv n cap c" and "lp_step n cap e c = Some c'" and "0 < n" and "0 < cap"
  shows "linv n cap c'"
proof (cases e)
  case (LPush v)
  show ?thesis by (rule inv_LPush [OF assms(1) assms(2) [unfolded LPush]])
next
  case (LScan t)
  show ?thesis by (rule inv_LScan [OF assms(1) assms(2) [unfolded LScan]])
next
  case LDecide
  show ?thesis by (rule inv_LDecide [OF assms(1,3,4) assms(2) [unfolded LDecide]])
next
  case LWrite
  show ?thesis by (rule inv_LWrite [OF assms(1,4) assms(2) [unfolded LWrite]])
next
  case LPublish
  show ?thesis by (rule inv_LPublish [OF assms(1) assms(2) [unfolded LPublish]])
next
  case LCount
  show ?thesis by (rule inv_LCount [OF assms(1) assms(2) [unfolded LCount]])
qed (use assms(2) in simp_all)

lemma lc_step_inv:
  assumes "linv n cap c" and "lc_step n cap e c = Some c'" and "0 < cap" and "orderly e c"
  shows "linv n cap c'"
proof (cases e)
  case (CPop i t)
  show ?thesis by (rule inv_CPop [OF assms(1) assms(4) [unfolded CPop] assms(2) [unfolded CPop]])
next
  case (CLoadW i t)
  show ?thesis by (rule inv_CLoadW [OF assms(1) assms(2) [unfolded CLoadW]])
next
  case (CLoadCursor i t)
  show ?thesis by (rule inv_CLoadCursor [OF assms(1) assms(2) [unfolded CLoadCursor]])
next
  case (CRead i)
  show ?thesis by (rule inv_CRead [OF assms(1,3) assms(2) [unfolded CRead]])
next
  case (CStore i)
  show ?thesis by (rule inv_CStore [OF assms(1) assms(2) [unfolded CStore]])
next
  case (CClaim i)
  show ?thesis by (rule inv_CClaim [OF assms(1) assms(2) [unfolded CClaim]])
next
  case (CLoadBase i t)
  show ?thesis by (rule inv_CLoadBase [OF assms(1) assms(2) [unfolded CLoadBase]])
next
  case (CCas i sp)
  show ?thesis by (rule inv_CCas [OF assms(1) assms(4) [unfolded CCas] assms(2) [unfolded CCas]])
next
  case (CNone i)
  show ?thesis by (rule inv_CNone [OF assms(1) assms(2) [unfolded CNone]])
next
  case (CSync i)
  show ?thesis by (rule inv_CSync [OF assms(1) assms(2) [unfolded CSync]])
qed (use assms(2) in simp_all)

lemma lh_step_inv:
  assumes "linv n cap c" and "lh_step n cap e c = Some c'" and "0 < cap" and "orderly e c"
  shows "linv n cap c'"
proof (cases e)
  case (HDeref i k)
  show ?thesis by (rule inv_HDeref [OF assms(1,3) assms(2) [unfolded HDeref]])
next
  case (HCursor i k t d)
  show ?thesis by (rule inv_HCursor [OF assms(1) assms(2) [unfolded HCursor]])
next
  case (HStore i k)
  show ?thesis by (rule inv_HStore [OF assms(1) assms(2) [unfolded HStore]])
next
  case (HAbort i k)
  show ?thesis by (rule inv_HAbort [OF assms(1) assms(4) [unfolded HAbort] assms(2) [unfolded HAbort]])
next
  case (HResolve i k)
  show ?thesis by (rule inv_HResolve [OF assms(1) assms(2) [unfolded HResolve]])
qed (use assms(2) in simp_all)

lemma lstep_inv:
  assumes "linv n cap c" and "0 < n" and "0 < cap" and "orderly e c" and "lstep n cap e c = Some c'"
  shows "linv n cap c'"
proof -
  consider "lp_step n cap e c = Some c'" | "lc_step n cap e c = Some c'" | "lh_step n cap e c = Some c'"
    using assms(5) by (auto simp: lstep_def split: if_splits option.splits)
  then show ?thesis
    by cases (rule lp_step_inv lc_step_inv lh_step_inv; use assms in simp)+
qed

lemma loan_reachable_inv: "loan_reachable n cap c \<Longrightarrow> 0 < n \<Longrightarrow> 0 < cap \<Longrightarrow> linv n cap c"
  by (induction rule: loan_reachable.induct) (simp_all add: linv_init lstep_inv)

end
