(* ===== verification/Loan_Protocol_Props.thy ===== *)
theory Loan_Protocol_Props
  imports Loan_Protocol_Steps
begin

text \<open>
  The properties of loans under concurrent accesses: no race and no stale message in any disciplined
  execution, and what happens without the discipline.
\<close>

section \<open>Disciplined executions\<close>

fun orderly_run :: "nat \<Rightarrow> nat \<Rightarrow> 'v levent list \<Rightarrow> 'v lsys \<Rightarrow> 'v lsys option" where
  "orderly_run n cap [] c = Some c"
| "orderly_run n cap (e # es) c =
     (if orderly e c then
        (case lstep n cap e c of Some c' \<Rightarrow> orderly_run n cap es c' | None \<Rightarrow> None)
      else None)"

lemma orderly_run_reachable:
  "loan_reachable n cap c \<Longrightarrow> orderly_run n cap es c = Some c' \<Longrightarrow> loan_reachable n cap c'"
  by (induction es arbitrary: c) (auto split: if_splits option.splits intro: loan_reachable.step)

text \<open>
  A reader pops, then claims two messages; both loans are read elsewhere, the newer is aborted, the
  older committed, both are synchronised with, and the aborted message is popped.
\<close>

definition sample_loan_events :: "nat levent list" where
  "sample_loan_events =
     [LPush 5, LScan 0, LDecide, LWrite, LPublish, LCount, CPop 0 0, CLoadW 0 1, CLoadCursor 0 0, CRead 0, CStore 0,
      LPush 6, LScan 0, LDecide, LWrite, LPublish, LCount, LPush 7, LScan 1, LDecide, LWrite, LPublish, LCount,
      CClaim 0, CLoadW 0 2, CLoadCursor 0 1, CLoadBase 0 0, CCas 0 True, CLoadW 0 3, CLoadCursor 0 1, CLoadBase 0 0,
      CCas 0 False, CClaim 0, CLoadW 0 3, CLoadCursor 0 1, CLoadBase 0 1, CCas 0 False,
      HDeref 0 1, HDeref 0 0, HAbort 0 1, HCursor 0 0 1 False, HStore 0 0, HResolve 0 0]"


lemmas loan_run_simps = lsys_init_def lstep_def U64_MAX_def Let_def write_races_def read_races_def


section \<open>Properties\<close>



text \<open>
  C7. An open loan pins its slot, concurrently. While a loan is open its slot holds the message published
  at its index, which is at or above the cursor and no other open loan's; the producer is at most a
  capacity ahead of the cursor, and whatever value of the gate a pop may read, it is refused.
\<close>

theorem open_loans_pinned:
  assumes "loan_reachable n cap c" and "0 < n" and "0 < cap" and "i < n"
    and "k < length (loans c i)" and "is_open (loans c i ! k)"
  shows "lslots c (h_index (loans c i ! k) mod cap) = lpub c ! h_index (loans c i ! k)
    \<and> fst (last (cmsgs c i)) \<le> h_index (loans c i ! k) \<and> length (lpub c) \<le> fst (last (cmsgs c i)) + cap
    \<and> (\<forall>l < length (loans c i). l \<noteq> k \<and> is_open (loans c i ! l) \<longrightarrow> h_index (loans c i ! l) \<noteq> h_index (loans c i ! k))
    \<and> (\<forall>t c'. lstep n cap (CPop i t) c = Some c' \<longrightarrow> lc_pc c' i = CIdle)"
proof -
  let ?h = "loans c i ! k"
  note inv = loan_reachable_inv [OF assms(1-3)]
  note p = linvD(1) [OF inv] and r = linvD(2) [OF inv assms(4)]
  have "holder_ok i (rlog c) (w_seen c i) (cursor (cmsgs c i)) (last (bvals c i)) ?h"
    using reader_okD(8) [OF r] assms(5) by simp
  then have x: "cursor (cmsgs c i) \<le> h_index ?h" "h_index ?h < length (lpub c)"
    using assms(6) reader_okD(4) [OF r] by (auto simp: holder_ok_def)
  have cur: "fst (last (cmsgs c i)) = cursor (cmsgs c i)"
    using cmsgs_okD(1,2) [OF reader_okD(1) [OF r]] by (simp add: last_conv_nth)
  have "length (lpub c) \<le> wr (lp_clock c)" using prod_okD(8) [OF p] by (cases "lp_pc c") simp_all
  then have ahead: "length (lpub c) \<le> cursor (cmsgs c i) + cap" using prod_okD(6) [OF p assms(4)] by linarith
  obtain as h bs where lo: "loans c i = as @ h # bs" and ka: "k = length as" and h: "?h = h" by (rule loan_at [OF assms(5)])
  have dist: "h_index (loans c i ! l) \<noteq> h_index ?h" if "l < length (loans c i)" "l \<noteq> k" "is_open (loans c i ! l)" for l
  proof -
    have "loans c i ! l \<in> set (as @ bs @ gone c i)"
      using that(1,2) unfolding lo ka by (auto simp: nth_append nth_Cons')
    from other_index [OF reader_okD(10) [OF r, unfolded lo] _ this] show ?thesis
      using open_not_aborted that(3) assms(6) h by simp
  qed
  have gate: "lc_pc c' i = CIdle" if "lstep n cap (CPop i t) c = Some c'" for t c'
  proof -
    from that have pop: "lc_pc c i = CIdle" "d_seen c i \<le> t" "t < length (dvals c i)"
      "c' = c\<lparr>lc_pc := (lc_pc c)(i := if dvals c i ! t \<noteq> 0 then CIdle else CPopW), d_seen := (d_seen c)(i := t)\<rparr>"
      by (auto simp: lstep_def split: if_splits)
    have "dvals c i ! t \<noteq> 0" using depth_ok_zero [OF reader_okD(7) [OF r] pop(2,3)] assms(5) by (cases "loans c i = []") auto
    with pop show ?thesis by simp
  qed
  show ?thesis
    using slot_pinned(1) [OF p assms(4,3) x] x(1) ahead dist gate cur by simp
qed

definition sample_open_state :: "nat lsys" where
  "sample_open_state = the (orderly_run 1 2 (take 39 sample_loan_events) (lsys_init (\<lambda>_. 0)))"

lemma sample_open_reachable: "loan_reachable 1 2 sample_open_state"
  and sample_open_loans: "length (loans sample_open_state 0) = 2" "is_open (loans sample_open_state 0 ! 0)"
    "h_index (loans sample_open_state 0 ! 0) = 1"
proof -
  have "case orderly_run 1 2 (take 39 sample_loan_events) (lsys_init (\<lambda>_. 0)) of None \<Rightarrow> False
      | Some c \<Rightarrow> length (loans c 0) = 2 \<and> is_open (loans c 0 ! 0) \<and> h_index (loans c 0 ! 0) = 1"
    by (simp add: sample_loan_events_def loan_run_simps is_open_def)
  then have "orderly_run 1 2 (take 39 sample_loan_events) (lsys_init (\<lambda>_. 0)) = Some sample_open_state"
    and facts: "length (loans sample_open_state 0) = 2" "is_open (loans sample_open_state 0 ! 0)"
      "h_index (loans sample_open_state 0 ! 0) = 1"
    by (auto simp: sample_open_state_def split: option.splits)
  then show "loan_reachable 1 2 sample_open_state" by (blast intro: orderly_run_reachable loan_reachable.init)
  from facts show "length (loans sample_open_state 0) = 2" "is_open (loans sample_open_state 0 ! 0)"
    "h_index (loans sample_open_state 0 ! 0) = 1" .
qed

theorem open_loans_pinned_witness:
  "lslots sample_open_state (1 mod 2) = lpub sample_open_state ! 1"
  using open_loans_pinned [OF sample_open_reachable, of 0 0] sample_open_loans by simp

section \<open>Without the discipline\<close>

definition stale_gate_events :: "'v \<Rightarrow> 'v \<Rightarrow> 'v levent list" where
  "stale_gate_events a b =
     [LPush a, LScan 0, LDecide, LWrite, LPublish, LCount,
      CClaim 0, CLoadW 0 1, CLoadCursor 0 0, CLoadBase 0 0, CCas 0 False,
      HDeref 0 0, HCursor 0 0 0 False, HStore 0 0, HResolve 0 0,
      LPush b, LScan 1, LDecide, LWrite, CPop 0 2, CLoadW 0 1, CLoadCursor 0 0, CRead 0]"

text \<open>
  The gate does not order a loan resolved elsewhere. A loan committed on another thread lowers the gate
  with a \<open>Relaxed\<close> decrement, so the consuming thread may then read depth 0 and still load the cursor the
  commit has replaced: it pops the committed message's index again, and its slot read races with the
  producer's write and may return bytes not published.
\<close>

lemma relaxed_gate_pops_again:
  "\<exists>c. lrun 1 1 (stale_gate_events a b) (lsys_init junk) = Some c \<and> lpub c = [a]
     \<and> rlog c = [(0, 0, a), (0, 0, b)] \<and> lraced c"
  by (simp add: stale_gate_events_def loan_run_simps)

definition abort_elsewhere_events :: "'v \<Rightarrow> 'v \<Rightarrow> 'v levent list" where
  "abort_elsewhere_events a b =
     [LPush a, LScan 0, LDecide, LWrite, LPublish, LCount,
      CClaim 0, CLoadW 0 1, CLoadCursor 0 0, CLoadBase 0 0, CCas 0 False,
      HDeref 0 0, HAbort 0 0, HResolve 0 0,
      CClaim 0, CLoadW 0 1, CLoadCursor 0 0, CLoadBase 0 2, CCas 0 False,
      HCursor 0 0 0 False, HStore 0 0, HResolve 0 0, LPush b, LScan 1, LDecide, LWrite]"

text \<open>
  An abort elsewhere does not publish the loan's reads. The \<open>Relaxed\<close> stores of an abort tell the consuming
  thread that the index is claimable again but not that the loan was read; the commit of the new loan
  then releases the slot without the first loan's read, and the producer's write races with it.
\<close>

lemma abort_elsewhere_races:
  "\<exists>c. lrun 1 1 (abort_elsewhere_events a b) (lsys_init junk) = Some c \<and> lpub c = [a] \<and> rlog c = [(0, 0, a)] \<and> lraced c"
  by (simp add: abort_elsewhere_events_def loan_run_simps)

end
