(* ===== verification/Loan_Protocol_Solo.thy ===== *)
theory Loan_Protocol_Solo
  imports Loan_Protocol_Props Sample
begin

text \<open>
  The loan protocol and the operations of \<open>src/loan.rs\<close> are two readings of the same code: calls that run
  one after the other, every load returning the newest value, take the protocol from state to state exactly
  as the sequential operations take the handle and its loans.
\<close>

section \<open>Calls as accesses\<close>

definition cval :: "'v lsys \<Rightarrow> nat \<Rightarrow> nat" where
  "cval c i = fst (last (cmsgs c i))"

definition abs_loans :: "nat \<Rightarrow> 'v lsys \<Rightarrow> 'v stream" where
  "abs_loans n c = \<lparr>msgs = lpub c, cursors = map (cval c) [0..<n]\<rparr>"




definition at_cursor :: "nat \<Rightarrow> nat \<Rightarrow> 'v lsys \<Rightarrow> bool" where
  "at_cursor i k c \<longleftrightarrow> cval c i = h_index (loans c i ! k)"

definition commit_events :: "nat \<Rightarrow> nat \<Rightarrow> 'v lsys \<Rightarrow> 'v levent list" where
  "commit_events i k c =
     HCursor i k (length (cmsgs c i) - 1) False # (if at_cursor i k c then [HStore i k, HResolve i k] else [])"

definition drop_events :: "nat \<Rightarrow> nat \<Rightarrow> 'v lsys \<Rightarrow> 'v levent list" where
  "drop_events i k c =
     HCursor i k (length (cmsgs c i) - 1) True # (if at_cursor i k c then [HStore i k] else []) @ [HResolve i k]"

definition abort_events :: "nat \<Rightarrow> nat \<Rightarrow> 'v levent list" where
  "abort_events i k = [HAbort i k, HResolve i k]"



section \<open>Running the calls\<close>

definition idle :: "nat \<Rightarrow> 'v lsys \<Rightarrow> bool" where
  "idle n c \<longleftrightarrow> \<not> lcrashed c \<and> lp_pc c = PIdle
     \<and> (\<forall>i < n. lc_pc c i = CIdle \<and> b_seen c i < length (bvals c i) \<and> (\<forall>h \<in> set (loans c i). h_pc h = Held))"



lemma latest:
  assumes "linv n cap c"
  shows "length (wmsgs c) = Suc (length (lpub c))" "fst (wmsgs c ! length (lpub c)) = length (lpub c)"
    "fst (last (wmsgs c)) = length (lpub c)" "length (lpub c) \<le> U64_MAX"
    "i < n \<Longrightarrow> length (cmsgs c i) = Suc (cval c i)" "i < n \<Longrightarrow> fst (cmsgs c i ! cval c i) = cval c i"
    "i < n \<Longrightarrow> cval c i \<le> length (lpub c)" "i < n \<Longrightarrow> w_seen c i \<le> length (lpub c)" "i < n \<Longrightarrow> c_seen c i \<le> cval c i"
    "i < n \<Longrightarrow> d_seen c i < length (dvals c i)" "i < n \<Longrightarrow> last (dvals c i) = length (loans c i) + claiming (lc_pc c i)"
    "i < n \<Longrightarrow> lp_seen c i \<le> cval c i"
proof -
  note p = linvD(1) [OF assms] and w = wmsgs_okD [OF prod_okD(1) [OF linvD(1) [OF assms]]]
  show l: "length (wmsgs c) = Suc (length (lpub c))" "length (lpub c) \<le> U64_MAX"
    by (rule prod_okD(2,3) [OF p])+
  show "fst (wmsgs c ! length (lpub c)) = length (lpub c)" "fst (last (wmsgs c)) = length (lpub c)"
    using w(2) w(4) l by simp_all
  assume i: "i < n"
  note r = linvD(2) [OF assms i] and cm = cmsgs_okD [OF reader_okD(1) [OF linvD(2) [OF assms i]]]
  have c: "cval c i = length (cmsgs c i) - 1" using cm(1,2) by (simp add: cval_def last_conv_nth)
  then show len: "length (cmsgs c i) = Suc (cval c i)" using cm(1) by (cases "cmsgs c i") simp_all
  show "fst (cmsgs c i ! cval c i) = cval c i" using cm(2) len by simp
  show "cval c i \<le> length (lpub c)" "w_seen c i \<le> length (lpub c)" "c_seen c i \<le> cval c i"
    using reader_okD(2-4) [OF r] c by linarith+
  show "d_seen c i < length (dvals c i)" "last (dvals c i) = length (loans c i) + claiming (lc_pc c i)"
    using reader_okD(7) [OF r] by (simp_all add: depth_ok_def)
  show "lp_seen c i \<le> cval c i" using prod_okD(4) [OF p i] len by simp
qed

text \<open>What a call of reader \<open>i\<close> leaves alone.\<close>

definition only_reader :: "nat \<Rightarrow> 'v lsys \<Rightarrow> 'v lsys \<Rightarrow> bool" where
  "only_reader i c c' \<longleftrightarrow> lpub c' = lpub c
     \<and> (\<forall>j. j \<noteq> i \<longrightarrow> cval c' j = cval c j \<and> bvals c' j = bvals c j \<and> loans c' j = loans c j)"


section \<open>One call\<close>



lemma idle_holder:
  assumes "idle n c" and "i < n" and "k < length (loans c i)"
  shows "h_pc (loans c i ! k) = Held" "\<not> lcrashed c"
  using assms by (auto simp: idle_def dest!: spec [of _ i])

lemma holder_seen:
  assumes "linv n cap c" and "i < n" and "k < length (loans c i)"
  shows "h_seen (loans c i ! k) \<le> cval c i"
  using reader_okD(8) [OF linvD(2) [OF assms(1,2)], of "loans c i ! k"] latest(5) [OF assms(1,2)] assms(3)
  by (simp add: holder_ok_def)

lemma set_remove_nth: "set (remove_nth k xs) \<subseteq> set xs"
  using set_take_subset [of k xs] set_drop_subset [of "Suc k" xs] by (auto simp: remove_nth_def)

lemma idle_removed:
  "idle n c \<Longrightarrow> \<forall>h \<in> set (remove_nth k (loans c i)). i < n \<longrightarrow> h_pc h = Held"
  using set_remove_nth [of k "loans c i"] by (auto simp: idle_def)

lemma run_resolve:
  assumes inv: "linv n cap c" and i: "i < n" and idle: "idle n c" and k: "k < length (loans c i)"
  shows run_commit_at: "at_cursor i k c \<Longrightarrow> \<exists>c'. orderly_run n cap (commit_events i k c) c = Some c' \<and> idle n c' \<and> only_reader i c c'
      \<and> cval c' i = Suc (cval c i) \<and> bvals c' i = bvals c i \<and> loans c' i = remove_nth k (loans c i)"
    and run_commit_not: "\<not> at_cursor i k c \<Longrightarrow> \<exists>c'. orderly_run n cap (commit_events i k c) c = Some c' \<and> idle n c' \<and> only_reader i c c'
      \<and> cval c' i = cval c i \<and> bvals c' i = bvals c i \<and> map h_index (loans c' i) = map h_index (loans c i)"
    and run_drop: "\<exists>c'. orderly_run n cap (drop_events i k c) c = Some c' \<and> idle n c' \<and> only_reader i c c'
      \<and> cval c' i = (if at_cursor i k c then Suc (cval c i) else cval c i) \<and> bvals c' i = bvals c i
      \<and> loans c' i = remove_nth k (loans c i)"
    and run_abort: "Suc (h_index (loans c i ! k)) = last (bvals c i) \<Longrightarrow>
      \<exists>c'. orderly_run n cap (abort_events i k) c = Some c' \<and> idle n c' \<and> only_reader i c c'
      \<and> cval c' i = cval c i \<and> last (bvals c' i) = min (last (bvals c i)) (h_index (loans c i ! k))
      \<and> loans c' i = remove_nth k (loans c i)"
proof -
  note h = idle_holder [OF idle i k] and seen = holder_seen [OF inv i k] and l = latest(5,6) [OF inv i]
    and rest = idle_removed [OF idle, of k i]
  have map_same: "map h_index ((loans c i)[k := (loans c i ! k)\<lparr>h_clock := v, h_seen := t, h_pc := Held\<rparr>]) = map h_index (loans c i)" for v t
    using k by (simp add: map_update list_update_same_conv)
  have held: "\<forall>h \<in> set ((loans c i)[k := (loans c i ! k)\<lparr>h_clock := v, h_seen := t, h_pc := Held\<rparr>]). h_pc h = Held" for v t
    using idle i h by (auto simp: idle_def dest!: subsetD [OF set_update_subset_insert])
  note rest = rest [unfolded remove_nth_def] and ev = remove_nth_def lstep_def Let_def case_prod_beta idle_def only_reader_def
  show "\<exists>c'. orderly_run n cap (commit_events i k c) c = Some c' \<and> idle n c' \<and> only_reader i c c'
      \<and> cval c' i = Suc (cval c i) \<and> bvals c' i = bvals c i \<and> loans c' i = remove_nth k (loans c i)" if at: "at_cursor i k c"
  proof -
    have "cval c i = h_index (loans c i ! k)" using at by (simp add: at_cursor_def)
    then show ?thesis using at k i h seen l rest idle by (simp add: commit_events_def ev cval_def)
  qed
  show "\<exists>c'. orderly_run n cap (commit_events i k c) c = Some c' \<and> idle n c' \<and> only_reader i c c'
      \<and> cval c' i = cval c i \<and> bvals c' i = bvals c i \<and> map h_index (loans c' i) = map h_index (loans c i)" if at: "\<not> at_cursor i k c"
    using at k i h seen l held map_same idle by (simp add: commit_events_def ev cval_def at_cursor_def)
  show "\<exists>c'. orderly_run n cap (drop_events i k c) c = Some c' \<and> idle n c' \<and> only_reader i c c'
      \<and> cval c' i = (if at_cursor i k c then Suc (cval c i) else cval c i) \<and> bvals c' i = bvals c i
      \<and> loans c' i = remove_nth k (loans c i)"
    using k i h seen l rest idle by (cases "at_cursor i k c") (simp_all add: drop_events_def ev cval_def at_cursor_def)
  show "\<exists>c'. orderly_run n cap (abort_events i k) c = Some c' \<and> idle n c' \<and> only_reader i c c'
      \<and> cval c' i = cval c i \<and> last (bvals c' i) = min (last (bvals c i)) (h_index (loans c i ! k))
      \<and> loans c' i = remove_nth k (loans c i)" if new: "Suc (h_index (loans c i ! k)) = last (bvals c i)"
    using new k i h rest idle by (simp add: abort_events_def ev cval_def less_SucI)
qed




section \<open>Agreement\<close>


definition indices :: "Loan list \<Rightarrow> nat list" where
  "indices ls = map (\<lambda>l. unat (ln_index l)) ls"



lemma abs_loans_simps [simp]:
  "msgs (abs_loans n c) = lpub c" "length (cursors (abs_loans n c)) = n"
  "i < n \<Longrightarrow> cursors (abs_loans n c) ! i = cval c i"
  by (simp_all add: abs_loans_def)







lemma indices_length [simp]: "length (indices ls) = length ls"
  by (simp add: indices_def)

section \<open>Every call agrees\<close>















section \<open>Executions agree\<close>











end
