(* ===== verification/Hostile.thy ===== *)
theory Hostile
  imports Sample
begin

text \<open>
  Type and memory safety without trust in the counters. Whoever can write the file can set its counters,
  cursors and slot bytes to anything; a handle only relies on the layout that its constructor checked. The
  theory types every operation of the ring and of its loans by the invariant of such a handle:
  from any handle whose layout fits, no access leaves the mapping, the handle keeps fitting, and
  only a checked build can panic.
\<close>

section \<open>Typing of actions\<close>

text \<open>
  An action keeps the invariant \<open>I\<close>, its value satisfies \<open>Q\<close>, it does not fault,
  and panics only under overflow checks.
\<close>

definition outcome_typed :: "build \<Rightarrow> ('a \<Rightarrow> bool) \<Rightarrow> ('e, 'a) outcome \<Rightarrow> bool" where
  "outcome_typed b Q x =
     (case x of Done a \<Rightarrow> Q a | Fail _ \<Rightarrow> True | Panic \<Rightarrow> b = Debug | Fault \<Rightarrow> False)"

definition typed :: "build \<Rightarrow> ('s \<Rightarrow> bool) \<Rightarrow> ('a \<Rightarrow> bool) \<Rightarrow> ('s, 'e, 'a) act \<Rightarrow> bool" where
  "typed b I Q m \<longleftrightarrow> (\<forall>s. I s \<longrightarrow> I (snd (m s)) \<and> outcome_typed b Q (fst (m s)))"

lemma outcome_typed_simps [simp]:
  "outcome_typed b Q (Done a) = Q a" "outcome_typed b Q (Fail e)" "outcome_typed b Q Panic = (b = Debug)"
  "\<not> outcome_typed b Q Fault"
  by (simp_all add: outcome_typed_def)

lemma outcome_typed_weaken: "outcome_typed b Q x \<Longrightarrow> (\<And>a. Q a \<Longrightarrow> R a) \<Longrightarrow> outcome_typed b R x"
  by (cases x) simp_all

lemma outcome_typed_bind:
  "outcome_typed b Q x \<Longrightarrow> (\<And>a. Q a \<Longrightarrow> outcome_typed b R (f a)) \<Longrightarrow> outcome_typed b R (bind_out x f)"
  by (cases x) simp_all



lemma typed_weaken: "typed b I Q m \<Longrightarrow> (\<And>a. Q a \<Longrightarrow> R a) \<Longrightarrow> typed b I R m"
  unfolding typed_def using outcome_typed_weaken by blast








section \<open>The ring\<close>

text \<open>
  The invariant: the layout fits and the shape of handle and header is right. Nothing is said of
  \<open>write_idx\<close>, the cursors, \<open>total_written\<close>, the slots or the loan counters.
\<close>

definition fits :: "'a pod \<Rightarrow> usize \<Rightarrow> string \<Rightarrow> nat \<Rightarrow> SpmcRingBuffer \<Rightarrow> bool" where
  "fits T c p n r \<longleftrightarrow> ring_wf T r \<and> capacity r = c \<and> path r = p \<and> length (rdata r) = n"

text \<open>Pointers into the slot area, and reader ids the arrays have.\<close>

definition slot_typed :: "'a pod \<Rightarrow> nat \<Rightarrow> usize \<Rightarrow> bool" where
  "slot_typed T n p \<longleftrightarrow> unat DATA_OFFSET \<le> unat p \<and> unat p + unat (pod_size T) \<le> unat DATA_OFFSET + n"


lemma fitsD:
  assumes "fits T c p n r"
  shows "ring_wf T r" "layout_ok T r" "length (read_indices (rhdr r)) = 8" "length (claim_base r) = 8"
    "length (loan_depth r) = 8" "unat (reader_count_of (rhdr r)) \<le> 8" "1 \<le> unat (reader_count_of (rhdr r))"
    "pod_type T" "length (rdata r) = n"
  using assms ring_wfD [of T r] by (simp_all add: fits_def unat_reader_count)








lemma slot_ptr_typed:
  assumes "fits T c p n r"
  shows "outcome_typed b (slot_typed T n) (slot_ptr b T idx r)"
proof -
  obtain q where "slot_ptr b T idx r = Done q" "unat q = 256 + (unat idx mod cap_of r) * unat (pod_size T)"
    by (rule slot_ptr_Done [OF fitsD(2) [OF assms]])
  with slot_in_area [OF fitsD(2) [OF assms], of q idx] fitsD(9) [OF assms] show ?thesis
    by (simp add: in_slot_area_def slot_typed_def)
qed


lemma read_typed: "fits T c p n r \<Longrightarrow> slot_typed T n q \<Longrightarrow> \<exists>v. read_volatile T q r = Done v"
  by (simp add: read_volatile_def in_slot_area_def slot_typed_def fitsD(9))








section \<open>Loans\<close>










section \<open>Executions\<close>





section \<open>Properties\<close>




text \<open>
  The diagnostics are as safe: on the same handles \<open>peek\<close>, \<open>len\<close>, \<open>is_empty\<close> and
  \<open>slowest_lag\<close> return or refuse, in every build; a peeked pointer can be read.
\<close>

lemma hostile_file_diagnostics:
  assumes "ring_wf T r"
  shows "(\<exists>n. slowest_lag r = Done n)
    \<and> (if rid < reader_count r
       then (\<exists>n. len b rid r = Done n \<and> is_empty b rid r = Done (n = 0))
         \<and> (\<exists>q. peek b T rid r = Done q \<and> (\<forall>p. q = Some p \<longrightarrow> (\<exists>v. read_volatile T p r = Done v)))
       else len b rid r = Fail (InvalidReaderId rid (reader_count r - 1))
         \<and> peek b T rid r = Fail (InvalidReaderId rid (reader_count r - 1)))"
proof -
  let ?n = "reader_count r"
  have fits: "fits T (capacity r) (path r) (length (rdata r)) r" using assms by (simp add: fits_def)
  note wf = fitsD [OF fits]
  have lag: "\<exists>n. slowest_lag r = Done n"
    using wf(3,6) by (simp add: slowest_lag_def slowest_read_idx_def Let_def)
  show ?thesis
  proof (cases "rid < ?n")
    case True
    then have ok: "check_reader b rid r = Done ()" by (auto simp: check_reader_def reader_count_def Let_def)
    have "unat rid < 8" using True wf(6) by (simp add: word_less_nat_alt reader_count_def)
    then have "read_idx rid (rhdr r) = (Done (read_indices (rhdr r) ! unat rid) :: (ShmRingError, u64) outcome)"
      using wf(3) by (simp add: read_idx_def)
    moreover obtain q where "slot_ptr b T (read_indices (rhdr r) ! unat rid) r = Done q"
      by (rule slot_ptr_Done [OF wf(2)])
    moreover have "\<exists>v. read_volatile T q r = Done v"
      using slot_ptr_typed [OF fits, of b "read_indices (rhdr r) ! unat rid"] read_typed [OF fits] calculation(2) by simp
    ultimately show ?thesis using lag True ok by (simp add: len_def is_empty_def peek_def Let_def)
  next
    case False
    then have "check_reader b rid r = Fail (InvalidReaderId rid (?n - 1))"
      using check_reader_Fail [OF assms, of rid b]
      by (simp add: reader_count_def word_less_nat_alt unat_reader_count)
    with False lag show ?thesis by (simp add: len_def peek_def)
  qed
qed

end
