(* ===== verification/Protocol_Progress.thy ===== *)
theory Protocol_Progress
  imports Protocol_Props
begin

text \<open>
  Wait-freedom of the concurrent protocol: a call of \<open>try_push\<close> or \<open>try_pop\<close>
  returns within a fixed number of its own accesses, each of which can always be made, whatever the other
  threads do, or do not do, in between.
\<close>

section \<open>Bounded calls\<close>

text \<open>
  In every execution with enough own events the state is \<open>idle\<close> after at most \<open>k\<close> of them, and as many more as the
  events that interfere \<open>cost\<close>.
\<close>

definition returns_despite ::
  "('e \<Rightarrow> nat) \<Rightarrow> nat \<Rightarrow> ('e \<Rightarrow> bool) \<Rightarrow> ('e list \<Rightarrow> 's \<Rightarrow> 's option) \<Rightarrow> ('s \<Rightarrow> bool) \<Rightarrow> 's \<Rightarrow> bool" where
  "returns_despite cost k own exec idle c \<longleftrightarrow>
     (\<forall>es c'. exec es c = Some c' \<and> k + sum_list (map cost es) \<le> length (filter own es) \<longrightarrow>
        (\<exists>es1 es2 c1. es = es1 @ es2 \<and> length (filter own es1) \<le> k + sum_list (map cost es1)
           \<and> exec es1 c = Some c1 \<and> idle c1))"

definition returns_within :: "nat \<Rightarrow> ('e \<Rightarrow> bool) \<Rightarrow> ('e list \<Rightarrow> 's \<Rightarrow> 's option) \<Rightarrow> ('s \<Rightarrow> bool) \<Rightarrow> 's \<Rightarrow> bool" where
  "returns_within = returns_despite (\<lambda>_. 0)"

text \<open>
  A thread whose own steps consume a measure, which an event raises by at most its cost, in the states of an
  invariant.
\<close>

locale lock_free =
  fixes stp :: "'e \<Rightarrow> 's \<Rightarrow> 's option" and exec :: "'e list \<Rightarrow> 's \<Rightarrow> 's option"
    and own :: "'e \<Rightarrow> bool" and left :: "'s \<Rightarrow> nat" and halted :: "'s \<Rightarrow> bool"
    and cost :: "'e \<Rightarrow> nat" and good :: "'s \<Rightarrow> bool"
  assumes exec_Nil: "exec [] s = Some s"
    and exec_Cons: "exec (e # es) s = (case stp e s of Some s' \<Rightarrow> exec es s' | None \<Rightarrow> None)"
    and own_cost: "good s \<Longrightarrow> stp e s = Some s' \<Longrightarrow> own e \<Longrightarrow> 0 < left s \<Longrightarrow> halted s' \<or> left s' < left s + cost e"
    and other_cost: "good s \<Longrightarrow> stp e s = Some s' \<Longrightarrow> \<not> own e \<Longrightarrow> halted s' \<or> left s' \<le> left s + cost e"
    and good_step: "good s \<Longrightarrow> stp e s = Some s' \<Longrightarrow> good s'"
begin

lemma step_left:
  assumes "good s" and "stp e s = Some s'" and "0 < left s"
  shows "halted s' \<or> left s' + length (filter own [e]) \<le> left s + cost e"
  using own_cost [OF assms(1,2)] other_cost [OF assms(1,2)] assms(3) by (cases "own e") auto

lemma exec_returns:
  "exec es s = Some s' \<Longrightarrow> good s \<Longrightarrow> left s + sum_list (map cost es) \<le> length (filter own es) \<Longrightarrow>
     \<exists>es1 es2 s1. es = es1 @ es2 \<and> length (filter own es1) \<le> left s + sum_list (map cost es1)
       \<and> exec es1 s = Some s1 \<and> (left s1 = 0 \<or> halted s1)"
proof (induction es arbitrary: s)
  case Nil
  then show ?case by (simp add: exec_Nil)
next
  case (Cons e es)
  show ?case
  proof (cases "left s = 0")
    case True
    then show ?thesis by (intro exI [of _ "[]"] exI [of _ "e # es"] exI [of _ s]) (simp add: exec_Nil)
  next
    case False
    obtain s1 where s1: "stp e s = Some s1" "exec es s1 = Some s'"
      using Cons.prems(1) by (auto simp: exec_Cons split: option.splits)
    have one: "exec [e] s = Some s1" using s1(1) by (simp add: exec_Cons exec_Nil)
    show ?thesis
    proof (cases "halted s1")
      case True
      then show ?thesis using one False
        by (intro exI [of _ "[e]"] exI [of _ es] exI [of _ s1]) simp
    next
      case live: False
      have less: "left s1 + length (filter own [e]) \<le> left s + cost e"
        using step_left [OF Cons.prems(2) s1(1)] live False by blast
      then have "left s1 + sum_list (map cost es) \<le> length (filter own es)"
        using Cons.prems(3) by (simp split: if_splits)
      from Cons.IH [OF s1(2) good_step [OF Cons.prems(2) s1(1)] this] obtain es1 es2 s2 where "es = es1 @ es2"
        "length (filter own es1) \<le> left s1 + sum_list (map cost es1)" "exec es1 s1 = Some s2" "left s2 = 0 \<or> halted s2"
        by blast
      then show ?thesis using less s1(1)
        by (intro exI [of _ "e # es1"] exI [of _ es2] exI [of _ s2]) (auto simp: exec_Cons split: if_splits)
    qed
  qed
qed

lemma returns_despite:
  assumes "good s" and "left s \<le> k" and "\<And>s1. left s1 = 0 \<or> halted s1 \<Longrightarrow> idle s1"
  shows "returns_despite cost k own exec idle s"
  unfolding returns_despite_def
proof (intro allI impI, elim conjE)
  fix es s' assume run: "exec es s = Some s'" and "k + sum_list (map cost es) \<le> length (filter own es)"
  then have "left s + sum_list (map cost es) \<le> length (filter own es)" using assms(2) by simp
  from exec_returns [OF run assms(1) this] obtain es1 es2 s1 where "es = es1 @ es2"
    "length (filter own es1) \<le> left s + sum_list (map cost es1)" "exec es1 s = Some s1" "left s1 = 0 \<or> halted s1"
    by blast
  with assms(2,3) show "\<exists>es1 es2 c1. es = es1 @ es2 \<and> length (filter own es1) \<le> k + sum_list (map cost es1)
      \<and> exec es1 s = Some c1 \<and> idle c1"
    by (intro exI [of _ es1] exI [of _ es2] exI [of _ s1]) auto
qed

end

text \<open>A thread whose own steps consume a measure that the others leave alone.\<close>

locale wait_free =
  fixes stp :: "'e \<Rightarrow> 's \<Rightarrow> 's option" and exec :: "'e list \<Rightarrow> 's \<Rightarrow> 's option"
    and own :: "'e \<Rightarrow> bool" and left :: "'s \<Rightarrow> nat" and halted :: "'s \<Rightarrow> bool"
  assumes exec_Nil: "exec [] s = Some s"
    and exec_Cons: "exec (e # es) s = (case stp e s of Some s' \<Rightarrow> exec es s' | None \<Rightarrow> None)"
    and own_step: "stp e s = Some s' \<Longrightarrow> own e \<Longrightarrow> 0 < left s \<Longrightarrow> halted s' \<or> left s' < left s"
    and other_step: "stp e s = Some s' \<Longrightarrow> \<not> own e \<Longrightarrow> halted s' \<or> left s' = left s"

sublocale wait_free \<subseteq> free: lock_free stp exec own left halted "\<lambda>_. 0" "\<lambda>_. True"
  by unfold_locales (use exec_Nil exec_Cons own_step other_step in fastforce)+

context wait_free
begin

lemmas returns_within = free.returns_despite [OF TrueI, folded returns_within_def]

end

section \<open>The ring's calls\<close>

text \<open>The accesses a call has left.\<close>

fun p_left :: "nat \<Rightarrow> 'v p_pc \<Rightarrow> nat" where
  "p_left n PIdle = 0"
| "p_left n (PScan v w j m) = (n - j) + 4"
| "p_left n (PWrite v w) = 3"
| "p_left n (PPublish v w) = 2"
| "p_left n PCount = 1"

fun r_left :: "'v r_pc \<Rightarrow> nat" where
  "r_left RIdle = 0" | "r_left (RCursor w) = 3" | "r_left (RRead r) = 2" | "r_left (RStore r v) = 1"

fun push_event :: "'v event \<Rightarrow> bool" where
  "push_event (PopCall i t) = False" | "push_event (Cursor i) = False" | "push_event (Read i) = False"
| "push_event (Store i) = False" | "push_event _ = True"

fun pop_event :: "nat \<Rightarrow> 'v event \<Rightarrow> bool" where
  "pop_event i (PopCall j t) = (j = i)" | "pop_event i (Cursor j) = (j = i)" | "pop_event i (Read j) = (j = i)"
| "pop_event i (Store j) = (j = i)" | "pop_event i _ = False"

lemma left_zero: "p_left n pc = 0 \<longleftrightarrow> pc = PIdle" "r_left rpc = 0 \<longleftrightarrow> rpc = RIdle"
  by (cases pc; simp) (cases rpc; simp)

lemma p_step_left:
  "p_step n cap e c = Some c' \<Longrightarrow> 0 < p_left n (p_pc c) \<Longrightarrow> crashed c' \<or> p_left n (p_pc c') < p_left n (p_pc c)"
  by (cases e) (auto simp: Let_def case_prod_beta split: p_pc.splits if_splits)

lemma p_step_others: "p_step n cap e c = Some c' \<Longrightarrow> push_event e \<and> r_pc c' = r_pc c"
  by (cases e) (auto simp: Let_def case_prod_beta split: p_pc.splits if_splits)

lemma r_step_left:
  "r_step n cap e c = Some c' \<Longrightarrow> pop_event i e \<Longrightarrow> 0 < r_left (r_pc c i) \<Longrightarrow>
     crashed c' \<or> r_left (r_pc c' i) < r_left (r_pc c i)"
  by (cases e) (auto simp: Let_def case_prod_beta split: r_pc.splits if_splits)

lemma r_step_others:
  "r_step n cap e c = Some c' \<Longrightarrow> \<not> push_event e \<and> p_pc c' = p_pc c"
  "r_step n cap e c = Some c' \<Longrightarrow> \<not> pop_event i e \<Longrightarrow> r_pc c' i = r_pc c i"
  by (cases e; auto simp: Let_def case_prod_beta split: r_pc.splits if_splits)+

lemma stepE:
  assumes "step n cap e c = Some c'"
  obtains "p_step n cap e c = Some c'" | "r_step n cap e c = Some c'"
  using assms by (auto simp: step_def split: if_splits option.splits)

interpretation push: wait_free "step n cap" "run n cap" push_event "\<lambda>c. p_left n (p_pc c)" crashed
proof unfold_locales
  show "step n cap e s = Some s' \<Longrightarrow> push_event e \<Longrightarrow> 0 < p_left n (p_pc s) \<Longrightarrow>
      crashed s' \<or> p_left n (p_pc s') < p_left n (p_pc s)" for e s s'
    by (erule stepE) (auto dest: p_step_left r_step_others(1))
  show "step n cap e s = Some s' \<Longrightarrow> \<not> push_event e \<Longrightarrow> crashed s' \<or> p_left n (p_pc s') = p_left n (p_pc s)" for e s s'
    by (erule stepE) (auto dest: p_step_others r_step_others(1))
qed simp_all

interpretation pop: wait_free "step n cap" "run n cap" "pop_event i" "\<lambda>c. r_left (r_pc c i)" crashed
proof unfold_locales
  have no: "push_event e \<Longrightarrow> \<not> pop_event i e" for e :: "'b event" by (cases e) simp_all
  show "step n cap e s = Some s' \<Longrightarrow> pop_event i e \<Longrightarrow> 0 < r_left (r_pc s i) \<Longrightarrow>
      crashed s' \<or> r_left (r_pc s' i) < r_left (r_pc s i)" for e s s'
    by (erule stepE) (use no p_step_others r_step_left in blast)+
  show "step n cap e s = Some s' \<Longrightarrow> \<not> pop_event i e \<Longrightarrow> crashed s' \<or> r_left (r_pc s' i) = r_left (r_pc s i)" for e s s'
    by (erule stepE) (auto dest: p_step_others r_step_others(2))
qed simp_all

text \<open>The next access of a call under way can always be made.\<close>

lemma push_enabled:
  assumes "proto_inv n cap c" and "\<not> crashed c" and "p_pc c \<noteq> PIdle"
  shows "\<exists>e. push_event e \<and> step n cap e c \<noteq> None"
proof -
  note p = proto_invD(1) [OF assms(1)]
  have "\<exists>e c'. push_event e \<and> p_step n cap e c = Some c'"
  proof (cases "p_pc c")
    case (PScan v w j m)
    show ?thesis
    proof (cases "j = n")
      case True
      then show ?thesis using PScan by (intro exI [of _ Decide]) (auto split: if_splits)
    next
      case False
      then have j: "j < n" using p_okD(5) [OF p] PScan by simp
      have "p_seen c j \<le> rcount c j" "rcount c j < length (r_hist c j)"
        using pr_okD(1) [OF proto_invD(3) [OF assms(1) j]] inv_counts(3) [OF assms(1) j] by linarith+
      then show ?thesis using PScan j by (intro exI [of _ "Scan (rcount c j)"]) (simp add: case_prod_beta Let_def)
    qed
  next
    case (PWrite v w)
    then show ?thesis by (intro exI [of _ Write]) (simp add: Let_def)
  next
    case (PPublish v w)
    then show ?thesis by (intro exI [of _ Publish]) simp
  next
    case PCount
    then show ?thesis by (intro exI [of _ Count]) simp
  qed (use assms(3) in simp)
  then show ?thesis using assms(2) by (auto simp: step_def)
qed

lemma pop_enabled:
  assumes "i < n" and "\<not> crashed c" and "r_pc c i \<noteq> RIdle"
  shows "\<exists>e. pop_event i e \<and> step n cap e c \<noteq> None"
proof -
  have "\<exists>e. pop_event i e \<and> r_step n cap e c \<noteq> None \<and> p_step n cap e c = None"
  proof (cases "r_pc c i")
    case (RCursor w)
    then show ?thesis using assms(1) by (intro exI [of _ "Cursor i"]) simp
  next
    case (RRead r)
    then show ?thesis using assms(1) by (intro exI [of _ "Read i"]) (simp add: Let_def)
  next
    case (RStore r v)
    then show ?thesis using assms(1) by (intro exI [of _ "Store i"]) simp
  qed (use assms(3) in simp)
  then show ?thesis using assms(2) by (auto simp: step_def)
qed

section \<open>Properties\<close>

text \<open>
  C26. The calls are wait-free. In any reachable state a push under way can make its next access and returns
  within \<open>n + 4\<close> accesses of its own, \<open>n\<close> the number of readers, and a pop within three,
  in every execution, whatever the other threads do and whatever stale values are loaded.
\<close>

theorem calls_wait_free:
  assumes "reachable n cap c" and "0 < n" and "0 < cap" and "\<not> crashed c"
  shows "(p_pc c \<noteq> PIdle \<longrightarrow> (\<exists>e. push_event e \<and> step n cap e c \<noteq> None))
    \<and> returns_within (n + 4) push_event (run n cap) (\<lambda>c'. p_pc c' = PIdle \<or> crashed c') c
    \<and> (\<forall>i < n. (r_pc c i \<noteq> RIdle \<longrightarrow> (\<exists>e. pop_event i e \<and> step n cap e c \<noteq> None))
        \<and> returns_within 3 (pop_event i) (run n cap) (\<lambda>c'. r_pc c' i = RIdle \<or> crashed c') c)"
proof -
  have "p_left n (p_pc c) \<le> n + 4" by (cases "p_pc c") simp_all
  moreover have "r_left (r_pc c i) \<le> 3" for i by (cases "r_pc c i") simp_all
  ultimately have "returns_within (n + 4) push_event (run n cap) (\<lambda>c'. p_pc c' = PIdle \<or> crashed c') c"
    and "returns_within 3 (pop_event i) (run n cap) (\<lambda>c'. r_pc c' i = RIdle \<or> crashed c') c" for i
    by (intro push.returns_within pop.returns_within; simp add: left_zero)+
  then show ?thesis
    using push_enabled [OF reachable_inv [OF assms(1-3)] assms(4)] pop_enabled [OF _ assms(4)] by simp
qed

text \<open>The push of the sample execution that is still to count its message, with another reader's pop between.\<close>

definition sample_mid_push :: "nat proto" where
  "sample_mid_push = the (run 2 2 [PushCall 7, Scan 0, Scan 0, Decide, PopCall 0 0] (proto_init (\<lambda>_. 0)))"

theorem calls_wait_free_witness:
  "(\<exists>e. push_event e \<and> step 2 2 e sample_mid_push \<noteq> None)
   \<and> returns_within 6 push_event (run 2 2) (\<lambda>c'. p_pc c' = PIdle \<or> crashed c') sample_mid_push"
proof -
  have "case run 2 2 [PushCall 7, Scan 0, Scan 0, Decide, PopCall 0 0] (proto_init (\<lambda>_. 0 :: nat)) of
      None \<Rightarrow> False | Some c \<Rightarrow> p_pc c = PWrite 7 0 \<and> \<not> crashed c"
    by (simp add: proto_init_def step_def U64_MAX_def Let_def view_zero_def view_join_def)
  then have run: "run 2 2 [PushCall 7, Scan 0, Scan 0, Decide, PopCall 0 0] (proto_init (\<lambda>_. 0)) = Some sample_mid_push"
    and pc: "p_pc sample_mid_push = PWrite 7 0" "\<not> crashed sample_mid_push"
    by (auto simp: sample_mid_push_def split: option.splits)
  from calls_wait_free [OF reachable_run [OF reachable.init run] _ _ pc(2)] pc(1) show ?thesis by simp
qed

end
