(* ===== verification/Loom_Models.thy ===== *)
theory Loom_Models
  imports Protocol_Progress
begin

text \<open>
  The first model-checking scenario of \<open>src/loom_ring.rs\<close>, \<open>model_fanout_two_readers\<close>, and what
  the scenarios share. Each thread of a scenario
  is a program over the accesses of the protocol, its local variables and position in a record beside the
  ring's state; any interleaving of the threads is an execution. A failed assertion sets a flag, and
  the theorems are that none fails, in any interleaving and for any stale load, which is what the model checker
  explores, and that every execution ends.
\<close>

section \<open>Producers that push 1, 2, 3, ...\<close>

fun pushing :: "'v p_pc \<Rightarrow> 'v option" where
  "pushing (PScan v w j m) = Some v" | "pushing (PWrite v w) = Some v" | "pushing (PPublish v w) = Some v"
| "pushing _ = None"

definition counting :: "nat proto \<Rightarrow> bool" where
  "counting c \<longleftrightarrow> (\<forall>k < length (published c). published c ! k = Suc k)
     \<and> (\<forall>v. pushing (p_pc c) = Some v \<longrightarrow> v = Suc (length (published c)))"

lemma counting_init: "counting (proto_init junk)"
  by (simp add: counting_def proto_init_def)

lemma r_step_counts:
  "r_step n cap e c = Some c' \<Longrightarrow>
     published c' = published c \<and> p_pc c' = p_pc c \<and> proto.total c' = proto.total c \<and> answers c' = answers c"
  by (cases e) (auto simp: Let_def case_prod_beta split: r_pc.splits if_splits)

lemma p_step_got: "p_step n cap e c = Some c' \<Longrightarrow> got c' = got c \<and> r_pc c' = r_pc c"
  by (cases e) (auto simp: Let_def case_prod_beta split: p_pc.splits if_splits)

lemma counting_step:
  assumes "counting c" and "step n cap e c = Some c'" and "\<And>v. e = PushCall v \<Longrightarrow> v = Suc (length (published c))"
  shows "counting c'"
  using assms(2)
proof (cases rule: stepE)
  case 1
  then show ?thesis using assms(1,3)
    by (cases e) (auto simp: counting_def Let_def case_prod_beta nth_append less_Suc_eq split: p_pc.splits if_splits)
next
  case 2
  then show ?thesis using assms(1) r_step_counts [OF 2] by (simp add: counting_def)
qed

lemma counting_pop: "counting c \<Longrightarrow> step n cap e c = Some c' \<Longrightarrow> \<not> push_event e \<Longrightarrow> counting c'"
  by (rule counting_step) auto

text \<open>A push is not refused while fewer messages than the capacity were published.\<close>

lemma push_not_refused:
  assumes "proto_inv n cap c" and "0 < n" and "length (published c) < cap" and "step n cap Decide c = Some c'"
  shows "\<exists>v w. p_pc c' = PWrite v w" and "\<not> crashed c'"
proof -
  have run: "p_step n cap Decide c = Some c'" using assms(4) by (auto elim: stepE)
  obtain v w m where pc: "p_pc c = PScan v w n m" using run by (auto split: p_pc.splits if_splits)
  note p = proto_invD(1) [OF assms(1)]
  have w: "w = length (published c)" and m: "m \<le> p_seen c 0"
    using p_okD(2,5) [OF p] pc assms(2) by auto
  have "p_seen c 0 \<le> length (published c)"
    using pr_okD(1) [OF proto_invD(3) [OF assms(1,2)]] inv_counts(4) [OF assms(1,2)] by linarith
  with run pc w m assms(3,4) show "\<exists>v w. p_pc c' = PWrite v w" "\<not> crashed c'"
    by (auto simp: step_def split: if_splits)
qed

text \<open>What a pop that reached its store returns.\<close>

lemma popped_value:
  assumes "proto_inv n cap c" and "counting c" and "i < n" and "r_pc c i = RStore r v"
  shows "v = Suc (length (got c i))" and "r < length (published c)"
proof -
  note r = proto_invD(2) [OF assms(1,3)] and p = proto_invD(1) [OF assms(1)]
  have rv: "r = rcount c i" "r < r_seen c i" "v = published c ! r" using r_okD(7) [OF r] assms(4) by auto
  show "r < length (published c)" using rv(2) r_okD(3) [OF r] p_okD(2) [OF p] by simp
  moreover have "length (got c i) = r" using r_okD(5) [OF r] rv(1) calculation by simp
  ultimately show "v = Suc (length (got c i))" using assms(2) rv(3) by (simp add: counting_def)
qed

lemma step_got:
  assumes "step n cap e c = Some c'"
  shows "e \<noteq> Store i \<Longrightarrow> got c' i = got c i"
    "e = Store i \<Longrightarrow> \<not> crashed c' \<Longrightarrow> \<exists>r v. r_pc c i = RStore r v \<and> got c' i = got c i @ [v] \<and> r_pc c' i = RIdle"
  using assms
  by (auto elim!: stepE dest: p_step_got) (cases e; auto simp: Let_def case_prod_beta split: r_pc.splits if_splits)+

text \<open>What a step does to the producer's side.\<close>

lemma step_published:
  assumes "step n cap e c = Some c'" and "\<not> push_event e"
  shows "published c' = published c" "p_pc c' = p_pc c" "proto.total c' = proto.total c" "answers c' = answers c"
  using assms by (auto elim!: stepE dest: p_step_others r_step_counts)

lemma p_step_published: "p_step n cap e c = Some c' \<Longrightarrow> length (published c') \<le> Suc (length (published c))"
  by (cases e) (auto simp: Let_def case_prod_beta split: p_pc.splits if_splits)

text \<open>The phases of a push: nothing, before its publication, before its count.\<close>

lemma pushing_phase: "pushing pc = Some v \<Longrightarrow> pc \<noteq> PIdle \<and> pc \<noteq> PCount"
  by auto

lemma p_step_phase:
  assumes "p_step n cap e c = Some c'" and "\<not> crashed c'"
  shows "e = PushCall v \<Longrightarrow> p_pc c = PIdle \<and> pushing (p_pc c') = Some v \<and> published c' = published c
      \<and> proto.total c' = proto.total c \<and> answers c' = answers c"
    "e = Scan t \<or> e = Write \<Longrightarrow> \<exists>v. pushing (p_pc c) = Some v \<and> pushing (p_pc c') = Some v
      \<and> published c' = published c \<and> proto.total c' = proto.total c \<and> answers c' = answers c"
    "e = Decide \<Longrightarrow> \<exists>v. pushing (p_pc c) = Some v \<and> published c' = published c \<and> proto.total c' = proto.total c
      \<and> (pushing (p_pc c') = Some v \<and> answers c' = answers c \<or> p_pc c' = PIdle \<and> answers c' = answers c @ [False])"
    "e = Publish \<Longrightarrow> \<exists>v. pushing (p_pc c) = Some v \<and> p_pc c' = PCount \<and> published c' = published c @ [v]
      \<and> proto.total c' = proto.total c \<and> answers c' = answers c"
    "e = Count \<Longrightarrow> p_pc c = PCount \<and> p_pc c' = PIdle \<and> published c' = published c
      \<and> proto.total c' = Suc (proto.total c) \<and> answers c' = answers c @ [True]"
  using assms by (auto simp: Let_def case_prod_beta split: p_pc.splits if_splits)

lemma few_messages: "length (published c) \<le> 4 \<Longrightarrow> proto_inv n cap c \<Longrightarrow> \<not> crashed c"
  using proto_invD(6) [of n cap c] by (auto simp: U64_MAX_def)

section \<open>Model 1: one producer, two consumers, three messages\<close>

definition ATTEMPTS :: nat where "ATTEMPTS = 3"
definition MESSAGES :: nat where "MESSAGES = 3"

text \<open>
  The ring and the threads' variables: the pops each reader has attempted and its \<open>seen\<close>, the message
  \<open>v\<close> the producer is at, the attempts for it and \<open>pushed\<close>. Giving up on a message
  (\<open>break 'next\<close>) is all attempts used without a push under way.
\<close>

record fanout =
  f_ring :: "nat proto"
  f_pops :: "nat \<Rightarrow> nat"
  f_seen :: "nat \<Rightarrow> nat"
  f_v :: nat
  f_tries :: nat
  f_pushed :: nat
  f_failed :: bool

definition fanout_init :: "(nat \<Rightarrow> nat) \<Rightarrow> fanout" where
  "fanout_init junk =
     \<lparr> f_ring = proto_init junk, f_pops = (\<lambda>_. 0), f_seen = (\<lambda>_. 0), f_v = 1, f_tries = 0, f_pushed = 0,
       f_failed = False \<rparr>"

definition on_f_ring :: "nat event \<Rightarrow> fanout \<Rightarrow> fanout option" where
  "on_f_ring e s = map_option (\<lambda>c. s\<lparr>f_ring := c\<rparr>) (step 2 2 e (f_ring s))"

fun fanout_step :: "nat event \<Rightarrow> fanout \<Rightarrow> fanout option" where
  "fanout_step (PopCall i t) s =
     (if f_pops s i < ATTEMPTS then on_f_ring (PopCall i t) (s\<lparr>f_pops := (f_pops s)(i := Suc (f_pops s i))\<rparr>) else None)"
| "fanout_step (Store i) s =
     (case r_pc (f_ring s) i of
        RStore r v \<Rightarrow>
          on_f_ring (Store i) (s\<lparr>f_failed := (f_failed s \<or> v \<noteq> Suc (f_seen s i)),
                                 f_seen := (f_seen s)(i := Suc (f_seen s i))\<rparr>)
      | _ \<Rightarrow> None)"
| "fanout_step (PushCall v) s =
     (if v = f_v s \<and> v \<le> MESSAGES \<and> f_tries s < ATTEMPTS
      then on_f_ring (PushCall v) (s\<lparr>f_tries := Suc (f_tries s)\<rparr>) else None)"
| "fanout_step Count s =
     on_f_ring Count (s\<lparr>f_pushed := Suc (f_pushed s), f_v := Suc (f_v s), f_tries := 0\<rparr>)"
| "fanout_step e s = on_f_ring e s"

fun fanout_run :: "nat event list \<Rightarrow> fanout \<Rightarrow> fanout option" where
  "fanout_run [] s = Some s"
| "fanout_run (e # es) s = (case fanout_step e s of Some s' \<Rightarrow> fanout_run es s' | None \<Rightarrow> None)"

text \<open>All threads joined.\<close>

definition fanout_done :: "fanout \<Rightarrow> bool" where
  "fanout_done s \<longleftrightarrow>
     p_pc (f_ring s) = PIdle \<and> (MESSAGES < f_v s \<or> f_tries s = ATTEMPTS)
     \<and> (\<forall>i < 2. r_pc (f_ring s) i = RIdle \<and> f_pops s i = ATTEMPTS)"

definition fanout_inv :: "fanout \<Rightarrow> bool" where
  "fanout_inv s \<longleftrightarrow>
     (let c = f_ring s in
      proto_inv 2 2 c \<and> counting c \<and> \<not> f_failed s \<and> (\<forall>i < 2. f_seen s i = length (got c i) \<and> f_pops s i \<le> ATTEMPTS)
      \<and> proto.total c = f_pushed s \<and> f_v s = Suc (f_pushed s)
      \<and> length (published c) = f_pushed s + (if p_pc c = PCount then 1 else 0)
      \<and> f_pushed s \<le> 3 \<and> f_tries s \<le> ATTEMPTS \<and> (p_pc c \<noteq> PIdle \<longrightarrow> f_pushed s < 3)
      \<and> (published c = [] \<longrightarrow> f_tries s = (if p_pc c = PIdle then 0 else 1)))"

lemma on_f_ringE:
  assumes "on_f_ring e s = Some s'"
  obtains c where "step 2 2 e (f_ring s) = Some c" and "s' = s\<lparr>f_ring := c\<rparr>"
  using assms by (auto simp: on_f_ring_def)

lemma fanout_inv_init: "fanout_inv (fanout_init junk)"
  using proto_init_inv [of 2 2 junk] counting_init [of junk]
  by (simp add: fanout_inv_def fanout_init_def Let_def) (simp add: proto_init_def)

text \<open>A reader's step.\<close>

lemma fanout_inv_pop:
  assumes inv: "fanout_inv s" and st: "fanout_step e s = Some s'" and e: "\<not> push_event e"
  shows "fanout_inv s'"
proof -
  let ?c = "f_ring s" and ?c' = "f_ring s'"
  have ok: "proto_inv 2 2 ?c" "counting ?c" "\<not> f_failed s" "length (published ?c) \<le> 4"
    using inv by (auto simp: fanout_inv_def Let_def)
  have step: "step 2 2 e ?c = Some ?c'" using st e
    by (cases e) (auto elim!: on_f_ringE split: if_splits r_pc.splits)
  note pub = step_published [OF step e]
  have inv': "proto_inv 2 2 ?c'" "counting ?c'"
    using step_inv [OF ok(1) _ _ step] counting_pop [OF ok(2) step e] by auto
  have live: "\<not> crashed ?c'" using few_messages [OF _ inv'(1)] ok(4) pub(1) by simp
  have "f_seen s' i = length (got ?c' i) \<and> f_pops s' i \<le> ATTEMPTS \<and> \<not> f_failed s'" if i: "i < 2" for i
  proof (cases "\<exists>j. e = Store j")
    case True
    then obtain j where j: "e = Store j" by blast
    obtain r v where rv: "r_pc ?c j = RStore r v" "got ?c' j = got ?c j @ [v]"
      using step_got(2) [OF step j live] by blast
    have j2: "j < 2" using step rv(1) j by (auto simp: step_def split: if_splits)
    have "v = Suc (f_seen s j)" using popped_value(1) [OF ok(1,2) j2 rv(1)] inv j2 by (simp add: fanout_inv_def Let_def)
    moreover have "got ?c' i = got ?c i" if "i \<noteq> j" using step_got(1) [OF step, of i] j that by simp
    ultimately show ?thesis
      using st rv inv i j2 unfolding j by (auto simp: fanout_inv_def Let_def elim!: on_f_ringE)
  next
    case False
    then have "got ?c' i = got ?c i" using step_got(1) [OF step, of i] by blast
    then show ?thesis using st inv i e False
      by (cases e) (auto simp: fanout_inv_def Let_def elim!: on_f_ringE split: if_splits)
  qed
  moreover have "f_v s' = f_v s \<and> f_tries s' = f_tries s \<and> f_pushed s' = f_pushed s" using st e
    by (cases e) (auto elim!: on_f_ringE split: if_splits r_pc.splits)
  ultimately show ?thesis using inv inv' pub unfolding fanout_inv_def Let_def by force
qed

text \<open>A step of the producer.\<close>

definition fanout_prod :: "fanout \<Rightarrow> bool" where
  "fanout_prod s \<longleftrightarrow>
     (let c = f_ring s in
      proto.total c = f_pushed s \<and> f_v s = Suc (f_pushed s)
      \<and> length (published c) = f_pushed s + (if p_pc c = PCount then 1 else 0)
      \<and> f_pushed s \<le> 3 \<and> f_tries s \<le> ATTEMPTS \<and> (p_pc c \<noteq> PIdle \<longrightarrow> f_pushed s < 3)
      \<and> (published c = [] \<longrightarrow> f_tries s = (if p_pc c = PIdle then 0 else 1)))"

lemma fanout_prod_step:
  assumes "fanout_prod s" and "fanout_step e s = Some s'" and run: "p_step 2 2 e (f_ring s) = Some (f_ring s')"
    and live: "\<not> crashed (f_ring s')" and "e = Decide \<Longrightarrow> published (f_ring s) = [] \<Longrightarrow> p_pc (f_ring s') \<noteq> PIdle"
  shows "fanout_prod s'"
proof (cases e)
  case (PushCall v)
  then show ?thesis using assms(1,2) p_step_phase(1) [OF run live PushCall] pushing_phase
    by (auto simp: fanout_prod_def Let_def MESSAGES_def ATTEMPTS_def elim!: on_f_ringE split: if_splits)
next
  case (Scan t)
  then show ?thesis using assms(1,2) p_step_phase(2) [OF run live] pushing_phase
    by (auto simp: fanout_prod_def Let_def elim!: on_f_ringE)
next
  case Decide
  then show ?thesis using assms(1,2,5) p_step_phase(3) [OF run live] pushing_phase
    by (auto simp: fanout_prod_def Let_def elim!: on_f_ringE)
next
  case Write
  then show ?thesis using assms(1,2) p_step_phase(2) [OF run live] pushing_phase
    by (auto simp: fanout_prod_def Let_def elim!: on_f_ringE)
next
  case Publish
  then show ?thesis using assms(1,2) p_step_phase(4) [OF run live] pushing_phase
    by (auto simp: fanout_prod_def Let_def elim!: on_f_ringE)
next
  case Count
  then show ?thesis using assms(1,2) p_step_phase(5) [OF run live]
    by (auto simp: fanout_prod_def Let_def elim!: on_f_ringE)
qed (use run in simp_all)

lemma fanout_inv_push:
  assumes inv: "fanout_inv s" and st: "fanout_step e s = Some s'" and e: "push_event e"
  shows "fanout_inv s'"
proof -
  let ?c = "f_ring s" and ?c' = "f_ring s'"
  have ok: "proto_inv 2 2 ?c" "counting ?c" "length (published ?c) \<le> 3" and prod: "fanout_prod s"
    using inv by (auto simp: fanout_inv_def fanout_prod_def Let_def)
  have step: "step 2 2 e ?c = Some ?c'" using st e
    by (cases e) (auto elim!: on_f_ringE split: if_splits)
  then have run: "p_step 2 2 e ?c = Some ?c'" using e by (auto elim!: stepE dest: r_step_others(1))
  have next': "v = Suc (length (published ?c))" if "e = PushCall v" for v
    using st run prod that by (auto simp: fanout_prod_def Let_def split: if_splits)
  have inv': "proto_inv 2 2 ?c'" "counting ?c'"
    using step_inv [OF ok(1) _ _ step] counting_step [OF ok(2) step next'] by auto
  have live: "\<not> crashed ?c'" using few_messages [OF _ inv'(1)] p_step_published [OF run] ok(3) by simp
  have rest: "got ?c' = got ?c" "f_seen s' = f_seen s" "f_pops s' = f_pops s" "f_failed s' = f_failed s"
    using p_step_got [OF run] st e by (cases e; auto elim!: on_f_ringE split: if_splits)+
  have first: "p_pc ?c' \<noteq> PIdle" if "e = Decide" "published ?c = []"
    using push_not_refused(1) [OF ok(1), of ?c'] step that by auto
  from fanout_prod_step [OF prod st run live first] show ?thesis
    using inv inv' rest by (simp add: fanout_inv_def fanout_prod_def Let_def)
qed

lemma fanout_inv_step: "fanout_inv s \<Longrightarrow> fanout_step e s = Some s' \<Longrightarrow> fanout_inv s'"
  using fanout_inv_pop fanout_inv_push by blast

lemma fanout_inv_run: "fanout_inv s \<Longrightarrow> fanout_run es s = Some s' \<Longrightarrow> fanout_inv s'"
  by (induction es arbitrary: s) (auto split: option.splits dest: fanout_inv_step)

lemma fanout_invD:
  assumes "fanout_inv s"
  shows "proto_inv 2 2 (f_ring s)" "\<not> crashed (f_ring s)" "\<not> raced (f_ring s)" "\<not> f_failed s"
    "i < 2 \<Longrightarrow> f_pops s i \<le> ATTEMPTS" "f_tries s \<le> ATTEMPTS"
proof -
  have "length (published (f_ring s)) \<le> 4" and inv: "proto_inv 2 2 (f_ring s)"
    using assms by (auto simp: fanout_inv_def Let_def)
  then show "\<not> crashed (f_ring s)" "\<not> raced (f_ring s)" using few_messages proto_invD(5) by blast+
qed (use assms in \<open>auto simp: fanout_inv_def Let_def\<close>)

text \<open>The calls.\<close>

lemma push_call: "p_step n cap (PushCall v) c = Some c' \<Longrightarrow> p_pc c = PIdle \<and> p_left n (p_pc c') = n + 4"
  by (auto split: if_splits)

lemma pop_call: "r_step n cap (PopCall i t) c = Some c' \<Longrightarrow> r_pc c i = RIdle \<and> r_left (r_pc c' i) = 3"
  by (auto simp: case_prod_beta Let_def split: if_splits)

lemma step_call:
  "step n cap (PushCall v) c \<noteq> None \<Longrightarrow> p_pc c = PIdle" "step n cap (PopCall i t) c \<noteq> None \<Longrightarrow> r_pc c i = RIdle"
  by (auto simp: step_def split: if_splits option.splits)

text \<open>The accesses the threads can still make.\<close>

definition pops_left :: "fanout \<Rightarrow> nat \<Rightarrow> nat" where
  "pops_left s i = 4 * (ATTEMPTS - f_pops s i) + r_left (r_pc (f_ring s) i)"

definition pushes_left :: "fanout \<Rightarrow> nat" where
  "pushes_left s =
     7 * (if f_v s \<le> MESSAGES then (ATTEMPTS - f_tries s) + ATTEMPTS * (MESSAGES - f_v s) else 0)
     + p_left 2 (p_pc (f_ring s))"

definition fanout_left :: "fanout \<Rightarrow> nat" where
  "fanout_left s = pops_left s 0 + pops_left s 1 + pushes_left s"

lemma pushing_left: "p_left n pc = 0 \<longleftrightarrow> pc = PIdle" "0 < p_left n pc \<longleftrightarrow> pc \<noteq> PIdle"
  by (cases pc; simp)+

lemma fanout_push_left:
  assumes inv: "fanout_inv s" and st: "fanout_step e s = Some s'" and e: "push_event e"
  shows "fanout_left s' < fanout_left s"
proof -
  let ?c = "f_ring s" and ?c' = "f_ring s'"
  have step: "step 2 2 e ?c = Some ?c'" using st e
    by (cases e) (auto elim!: on_f_ringE split: if_splits)
  then have run: "p_step 2 2 e ?c = Some ?c'" using e by (auto elim!: stepE dest: r_step_others(1))
  have inv': "fanout_inv s'" by (rule fanout_inv_push [OF assms])
  then have live: "\<not> crashed ?c'" by (rule fanout_invD(2))
  have same: "pops_left s' i = pops_left s i" for i
    using p_step_others [OF run] st e by (cases e) (auto simp: pops_left_def elim!: on_f_ringE split: if_splits)
  have "pushes_left s' < pushes_left s"
  proof (cases "\<exists>v. e = PushCall v")
    case True
    then obtain v where v: "e = PushCall v" by blast
    have "p_pc ?c = PIdle" "p_left 2 (p_pc ?c') = 6" using push_call [OF run [unfolded v]] by auto
    then show ?thesis using st by (auto simp: v pushes_left_def elim!: on_f_ringE split: if_splits)
  next
    case False
    then have "p_pc ?c \<noteq> PIdle" using run by (cases e) (auto split: p_pc.splits)
    then have less: "p_left 2 (p_pc ?c') < p_left 2 (p_pc ?c)"
      using p_step_left [OF run] live by (simp add: pushing_left)
    show ?thesis
    proof (cases e)
      case Count
      then show ?thesis using st less
        by (auto simp: pushes_left_def MESSAGES_def ATTEMPTS_def elim!: on_f_ringE split: if_splits)
    qed (use st less False e in \<open>auto simp: pushes_left_def elim!: on_f_ringE\<close>)
  qed
  then show ?thesis by (simp add: fanout_left_def same)
qed

lemma fanout_pop_left:
  assumes inv: "fanout_inv s" and st: "fanout_step e s = Some s'" and e: "\<not> push_event e"
  shows "fanout_left s' < fanout_left s"
proof -
  let ?c = "f_ring s" and ?c' = "f_ring s'"
  have step: "step 2 2 e ?c = Some ?c'" using st e
    by (cases e) (auto elim!: on_f_ringE split: if_splits r_pc.splits)
  then have run: "r_step 2 2 e ?c = Some ?c'" using e by (auto elim!: stepE dest: p_step_others)
  have inv': "fanout_inv s'" by (rule fanout_inv_pop [OF assms])
  then have live: "\<not> crashed ?c'" by (rule fanout_invD(2))
  obtain i where i: "pop_event i e" using e by (cases e) auto
  have "i = 0 \<or> i = 1" using run i by (cases e) (auto split: if_splits r_pc.splits)
  moreover have "pushes_left s' = pushes_left s"
    using step_published [OF step e] st e by (cases e) (auto simp: pushes_left_def elim!: on_f_ringE split: if_splits r_pc.splits)
  moreover have "pops_left s' j = pops_left s j" if "j \<noteq> i" for j
  proof -
    have "\<not> pop_event j e" using i that by (cases e) auto
    with r_step_others(2) [OF run this] st i that show ?thesis
      by (cases e) (auto simp: pops_left_def elim!: on_f_ringE split: if_splits r_pc.splits)
  qed
  moreover have "pops_left s' i < pops_left s i"
  proof (cases "\<exists>t. e = PopCall i t")
    case True
    then obtain t where t: "e = PopCall i t" by blast
    have "r_pc ?c i = RIdle" "r_left (r_pc ?c' i) = 3" using pop_call [OF run [unfolded t]] by auto
    then show ?thesis using st by (auto simp: t pops_left_def elim!: on_f_ringE split: if_splits)
  next
    case False
    then have "r_pc ?c i \<noteq> RIdle" using run i by (cases e) (auto split: r_pc.splits)
    then have "r_left (r_pc ?c' i) < r_left (r_pc ?c i)"
      using r_step_left [OF run i] live left_zero(2) by (auto simp: neq0_conv [symmetric] simp del: neq0_conv)
    then show ?thesis using st i False
      by (cases e) (auto simp: pops_left_def elim!: on_f_ringE split: r_pc.splits if_splits)
  qed
  ultimately show ?thesis by (auto simp: fanout_left_def)
qed

lemma fanout_run_left:
  "fanout_inv s \<Longrightarrow> fanout_run es s = Some s' \<Longrightarrow> length es + fanout_left s' \<le> fanout_left s"
proof (induction es arbitrary: s)
  case (Cons e es)
  obtain s1 where s1: "fanout_step e s = Some s1" "fanout_run es s1 = Some s'"
    using Cons.prems(2) by (auto split: option.splits)
  have "fanout_left s1 < fanout_left s"
    using fanout_push_left [OF Cons.prems(1) s1(1)] fanout_pop_left [OF Cons.prems(1) s1(1)] by blast
  with Cons.IH [OF fanout_inv_step [OF Cons.prems(1) s1(1)] s1(2)] show ?case by simp
qed simp

lemma fanout_enabled:
  assumes inv: "fanout_inv s" and "\<not> fanout_done s"
  shows "\<exists>e. fanout_step e s \<noteq> None"
proof -
  let ?c = "f_ring s"
  note ok = fanout_invD(1) [OF inv] and live = fanout_invD(2) [OF inv]
  consider "p_pc ?c \<noteq> PIdle" | "p_pc ?c = PIdle" "f_v s \<le> MESSAGES" "f_tries s < ATTEMPTS"
    | i where "i < 2" "r_pc ?c i \<noteq> RIdle" | i where "i < 2" "r_pc ?c i = RIdle" "f_pops s i < ATTEMPTS"
    using assms(2) fanout_invD(5,6) [OF inv] unfolding fanout_done_def by (metis le_neq_implies_less not_le)
  then show ?thesis
  proof cases
    case 1
    then obtain e where e: "push_event e" "step 2 2 e ?c \<noteq> None" using push_enabled [OF ok live] by blast
    have "e \<noteq> PushCall v" for v using e(2) 1 step_call(1) by metis
    then show ?thesis using e by (intro exI [of _ e]) (cases e; auto simp: on_f_ring_def)
  next
    case 2
    then show ?thesis using live by (intro exI [of _ "PushCall (f_v s)"]) (simp add: on_f_ring_def step_def)
  next
    case 3
    then obtain e where e: "pop_event i e" "step 2 2 e ?c \<noteq> None" using pop_enabled [OF 3(1) live] by blast
    have "e \<noteq> PopCall i t" for t using e(2) 3 step_call(2) by metis
    moreover have "\<exists>r v. r_pc ?c i = RStore r v" if "e = Store i"
      using e(2) that by (auto simp: step_def split: r_pc.splits if_splits)
    ultimately show ?thesis using e by (intro exI [of _ e]) (cases e; auto simp: on_f_ring_def)
  next
    case 4
    have "r_seen ?c i < length (w_hist ?c)"
      using r_okD(3) [OF proto_invD(2) [OF ok 4(1)]] inv_counts(2) [OF ok] by linarith
    then show ?thesis using 4 live
      by (intro exI [of _ "PopCall i (r_seen ?c i)"]) (simp add: on_f_ring_def step_def case_prod_beta Let_def)
  qed
qed

text \<open>
  C28. Model 1 passes. In every interleaving of one producer and two readers with bounded attempts no assertion
  fails: every reader sees 1, 2, 3 in order, and once all threads have joined a message was written;
  no access races; and every execution ends, after at most 87 accesses, with all threads joined.
\<close>

theorem fanout_model_passes:
  assumes "fanout_run es (fanout_init junk) = Some s"
  shows "\<not> f_failed s \<and> \<not> crashed (f_ring s) \<and> \<not> raced (f_ring s)
    \<and> (fanout_done s \<longrightarrow> 1 \<le> proto.total (f_ring s))
    \<and> length es \<le> 87 \<and> (fanout_done s \<or> (\<exists>e. fanout_step e s \<noteq> None))"
proof -
  have inv: "fanout_inv s" by (rule fanout_inv_run [OF fanout_inv_init assms])
  have "fanout_left (fanout_init junk) = 87"
    by (simp add: fanout_left_def pops_left_def pushes_left_def fanout_init_def ATTEMPTS_def MESSAGES_def proto_init_def)
  then have "length es \<le> 87" using fanout_run_left [OF fanout_inv_init assms] by simp
  moreover have "1 \<le> proto.total (f_ring s)" if "fanout_done s"
  proof (rule ccontr)
    assume "\<not> 1 \<le> proto.total (f_ring s)"
    then have "f_pushed s = 0" using inv by (simp add: fanout_inv_def Let_def)
    moreover from this have "published (f_ring s) = []" using inv that by (simp add: fanout_inv_def fanout_done_def Let_def)
    ultimately show False using inv that by (auto simp: fanout_inv_def fanout_done_def Let_def MESSAGES_def ATTEMPTS_def)
  qed
  ultimately show ?thesis using fanout_enabled [OF inv] fanout_invD(2-4) [OF inv] by blast
qed

text \<open>An execution in which the second message is read while the third push is being made.\<close>

definition fanout_events :: "nat event list" where
  "fanout_events =
     [PopCall 0 0, PushCall 1, Scan 0, Scan 0, Decide, Cursor 0, Write, Publish, PopCall 1 1, Cursor 1, Count,
      Read 1, Store 1, PushCall 2, Scan 0, Scan 1, Decide, Write, Publish, Count, PopCall 0 2, Cursor 0, Read 0,
      Store 0, PopCall 1 2, PushCall 3, Scan 1, Scan 1, Decide, Cursor 1, Read 1, Write, Store 1]"

theorem fanout_model_passes_witness:
  "\<exists>s. fanout_run fanout_events (fanout_init (\<lambda>_. 0)) = Some s \<and> \<not> f_failed s \<and> f_seen s 1 = 2"
proof -
  have "case fanout_run fanout_events (fanout_init (\<lambda>_. 0)) of None \<Rightarrow> False | Some s \<Rightarrow> f_seen s 1 = 2"
    by (simp add: fanout_events_def fanout_init_def on_f_ring_def MESSAGES_def ATTEMPTS_def proto_init_def step_def
        U64_MAX_def Let_def view_zero_def view_join_def)
  then obtain s where s: "fanout_run fanout_events (fanout_init (\<lambda>_. 0)) = Some s" "f_seen s 1 = 2"
    by (auto split: option.splits)
  with fanout_model_passes [OF s(1)] show ?thesis by blast
qed

end
