(* ===== verification/Loom_Backpressure.thy ===== *)
theory Loom_Backpressure
  imports Loom_Models "HOL-Library.Sublist"
begin

text \<open>
  \<open>model_backpressure_boundary\<close> of \<open>src/loom_ring.rs\<close>: three pushes into two slots against one
  pop of reader 0. The ring has two readers and nobody pops for reader 1, so the third push is always refused.
\<close>

section \<open>The scenario\<close>

text \<open>
  The producer's \<open>v\<close>, whether the third push is called and what it returned, and the consumer's
  call and what it returned.
\<close>

record backp =
  b_ring :: "nat proto"
  b_v :: nat
  b_last :: bool
  b_third :: "bool option"
  b_called :: bool
  b_popped :: "nat option option"

definition backp_init :: "(nat \<Rightarrow> nat) \<Rightarrow> backp" where
  "backp_init junk =
     \<lparr>b_ring = proto_init junk, b_v = 1, b_last = False, b_third = None, b_called = False, b_popped = None\<rparr>"

definition on_b_ring :: "nat event \<Rightarrow> (nat proto \<Rightarrow> backp \<Rightarrow> backp) \<Rightarrow> backp \<Rightarrow> backp option" where
  "on_b_ring e f s = map_option (\<lambda>c. f c (s\<lparr>b_ring := c\<rparr>)) (step 2 2 e (b_ring s))"

fun backp_step :: "nat event \<Rightarrow> backp \<Rightarrow> backp option" where
  "backp_step (PushCall v) s =
     (if \<not> b_last s \<and> v = (if b_v s \<le> 2 then b_v s else 3)
      then on_b_ring (PushCall v) (\<lambda>_ s. s\<lparr>b_last := 2 < b_v s\<rparr>) s else None)"
| "backp_step Decide s =
     on_b_ring Decide (\<lambda>c s. if p_pc c = PIdle \<and> b_last s then s\<lparr>b_third := Some False\<rparr> else s) s"
| "backp_step Count s =
     on_b_ring Count (\<lambda>_ s. if b_last s then s\<lparr>b_third := Some True\<rparr> else s\<lparr>b_v := Suc (b_v s)\<rparr>) s"
| "backp_step (PopCall i t) s =
     (if i = 0 \<and> \<not> b_called s then on_b_ring (PopCall i t) (\<lambda>_ s. s\<lparr>b_called := True\<rparr>) s else None)"
| "backp_step (Cursor i) s =
     on_b_ring (Cursor i) (\<lambda>c s. if r_pc c i = RIdle then s\<lparr>b_popped := Some None\<rparr> else s) s"
| "backp_step (Store i) s =
     (case r_pc (b_ring s) i of
        RStore r v \<Rightarrow> on_b_ring (Store i) (\<lambda>_ s. s\<lparr>b_popped := Some (Some v)\<rparr>) s
      | _ \<Rightarrow> None)"
| "backp_step e s = on_b_ring e (\<lambda>_ s. s) s"

fun backp_run :: "nat event list \<Rightarrow> backp \<Rightarrow> backp option" where
  "backp_run [] s = Some s"
| "backp_run (e # es) s = (case backp_step e s of Some s' \<Rightarrow> backp_run es s' | None \<Rightarrow> None)"

definition backp_done :: "backp \<Rightarrow> bool" where
  "backp_done s \<longleftrightarrow> b_third s \<noteq> None \<and> b_popped s \<noteq> None"

text \<open>The assertions after the joins.\<close>

definition backp_asserts :: "backp \<Rightarrow> bool" where
  "backp_asserts s =
     (case (b_third s, b_popped s) of
        (Some third, Some popped) \<Rightarrow> (popped = None \<or> popped = Some 1) \<and> (third \<longrightarrow> popped = Some 1)
      | _ \<Rightarrow> True)"

section \<open>The invariant\<close>

definition backp_prod :: "backp \<Rightarrow> bool" where
  "backp_prod s \<longleftrightarrow>
     (let c = b_ring s in
      length (published c) = b_v s - (if p_pc c = PCount then 0 else 1) \<and> 1 \<le> b_v s \<and> b_v s \<le> 3
      \<and> answers c = replicate (b_v s - 1) True @ (case b_third s of None \<Rightarrow> [] | Some a \<Rightarrow> [a])
      \<and> b_third s \<noteq> Some True \<and> (b_last s \<longleftrightarrow> b_v s = 3 \<and> (p_pc c \<noteq> PIdle \<or> b_third s \<noteq> None))
      \<and> (b_third s \<noteq> None \<longrightarrow> p_pc c = PIdle \<and> b_last s)
      \<and> (b_v s = 3 \<longrightarrow> (\<forall>v w. p_pc c \<noteq> PWrite v w \<and> p_pc c \<noteq> PPublish v w) \<and> p_pc c \<noteq> PCount))"

definition backp_cons :: "backp \<Rightarrow> bool" where
  "backp_cons s \<longleftrightarrow>
     (let c = b_ring s in
      r_pc c 1 = RIdle \<and> got c 1 = []
      \<and> (b_called s \<longleftrightarrow> r_pc c 0 \<noteq> RIdle \<or> b_popped s \<noteq> None)
      \<and> (b_popped s \<noteq> None \<longrightarrow> r_pc c 0 = RIdle)
      \<and> (case b_popped s of Some (Some v) \<Rightarrow> v = 1 | _ \<Rightarrow> got c 0 = []))"

definition backp_inv :: "backp \<Rightarrow> bool" where
  "backp_inv s \<longleftrightarrow> proto_inv 2 2 (b_ring s) \<and> counting (b_ring s) \<and> backp_prod s \<and> backp_cons s"

lemma backp_inv_init: "backp_inv (backp_init junk)"
  using proto_init_inv [of 2 2 junk] counting_init [of junk]
  by (simp add: backp_inv_def backp_prod_def backp_cons_def backp_init_def Let_def) (simp add: proto_init_def)

lemma on_b_ringE:
  assumes "on_b_ring e f s = Some s'"
  obtains c where "step 2 2 e (b_ring s) = Some c" and "s' = f c (s\<lparr>b_ring := c\<rparr>)"
  using assms by (auto simp: on_b_ring_def)

text \<open>With a reader that popped nothing, a push into a ring with a capacity of messages is refused.\<close>

lemma push_refused:
  assumes "proto_inv n cap c" and "i < n" and "length (got c i) + cap \<le> length (published c)"
    and "step n cap Decide c = Some c'"
  shows "p_pc c' = PIdle \<or> crashed c'"
proof -
  have run: "p_step n cap Decide c = Some c'" using assms(4) by (auto elim: stepE)
  obtain v w m where pc: "p_pc c = PScan v w n m" using run by (auto split: p_pc.splits if_splits)
  note p = proto_invD(1) [OF assms(1)] and r = proto_invD(2) [OF assms(1,2)]
  have w: "w = length (published c)" and m: "m \<le> p_seen c i" using p_okD(2,5) [OF p] pc assms(2) by auto
  have "length (got c i) = rcount c i"
    using r_okD(5) [OF r] inv_counts(4) [OF assms(1,2)] by simp
  then have "cap \<le> w - m"
    using m w assms(3) pr_okD(1) [OF proto_invD(3) [OF assms(1,2)]] by linarith
  with run pc show ?thesis by (auto split: if_splits)
qed

lemma backp_ring_step: "backp_step e s = Some s' \<Longrightarrow> step 2 2 e (b_ring s) = Some (b_ring s')"
  by (cases e) (auto elim!: on_b_ringE split: if_splits r_pc.splits)

lemma backp_invD:
  assumes "backp_inv s"
  shows "proto_inv 2 2 (b_ring s)" "counting (b_ring s)" "backp_prod s" "backp_cons s"
    "length (published (b_ring s)) \<le> 3" "\<not> crashed (b_ring s)"
proof -
  show inv: "proto_inv 2 2 (b_ring s)" and "counting (b_ring s)" "backp_prod s" "backp_cons s"
    using assms by (simp_all add: backp_inv_def)
  then show len: "length (published (b_ring s)) \<le> 3" by (auto simp: backp_prod_def Let_def split: if_splits)
  then show "\<not> crashed (b_ring s)" using few_messages [OF _ inv] by simp
qed

text \<open>The consumer's steps.\<close>

lemma backp_inv_pop:
  assumes inv: "backp_inv s" and st: "backp_step e s = Some s'" and e: "\<not> push_event e"
  shows "backp_inv s'"
proof -
  let ?c = "b_ring s" and ?c' = "b_ring s'"
  note ok = backp_invD [OF inv] and step = backp_ring_step [OF st]
  note pub = step_published [OF step e]
  have inv': "proto_inv 2 2 ?c'" "counting ?c'"
    using step_inv [OF ok(1) _ _ step] counting_pop [OF ok(2) step e] by auto
  have live: "\<not> crashed ?c'" using few_messages [OF _ inv'(1)] ok(5) pub(1) by simp
  have run: "r_step 2 2 e ?c = Some ?c'" using step e by (auto elim!: stepE dest: p_step_others)
  have idle1: "r_pc ?c 1 = RIdle" "got ?c 1 = []" using ok(4) by (simp_all add: backp_cons_def Let_def)
  have "pop_event 0 e"
    using run idle1(1) st by (cases e) (auto split: if_splits r_pc.splits simp: less_2_cases_iff)
  then have other: "r_pc ?c' 1 = RIdle" "got ?c' 1 = []"
    using r_step_others(2) [OF run, of 1] step_got(1) [OF step, of 1] idle1 by (cases e; simp)+
  have "b_v s' = b_v s \<and> b_last s' = b_last s \<and> b_third s' = b_third s"
    using st e by (cases e) (auto elim!: on_b_ringE split: if_splits r_pc.splits)
  then have prod: "backp_prod s'" using ok(3) pub unfolding backp_prod_def Let_def by auto
  have "backp_cons s'"
  proof (cases "\<exists>i. e = Store i")
    case True
    then have e0: "e = Store 0" using \<open>pop_event 0 e\<close> by auto
    obtain r v where rv: "r_pc ?c 0 = RStore r v" "got ?c' 0 = got ?c 0 @ [v]" "r_pc ?c' 0 = RIdle"
      using step_got(2) [OF step e0 live] by blast
    have "got ?c 0 = []" "b_called s" "b_popped s = None"
      using ok(4) rv(1) by (auto simp: backp_cons_def Let_def split: option.splits)
    moreover have "v = Suc (length (got ?c 0))" by (rule popped_value(1) [OF ok(1,2) _ rv(1)]) simp
    ultimately show ?thesis using st rv other e0
      by (auto simp: backp_cons_def Let_def elim!: on_b_ringE)
  next
    case False
    then have g: "got ?c' 0 = got ?c 0" using step_got(1) [OF step, of 0] by blast
    show ?thesis using st run g other ok(4) \<open>pop_event 0 e\<close> False
      by (cases e) (auto simp: backp_cons_def Let_def case_prod_beta elim!: on_b_ringE split: if_splits r_pc.splits option.splits)
  qed
  then show ?thesis using inv' prod by (simp add: backp_inv_def)
qed

text \<open>The producer's steps: the first two pushes are never refused, the third always.\<close>

lemma backp_decide:
  assumes inv: "backp_inv s" and step: "step 2 2 Decide (b_ring s) = Some c'" and live: "\<not> crashed c'"
  shows "if b_v s = 3 then p_pc c' = PIdle else \<exists>v w. p_pc c' = PWrite v w"
proof -
  note ok = backp_invD [OF inv]
  have run: "p_step 2 2 Decide (b_ring s) = Some c'" using step by (auto elim: stepE)
  have "\<exists>v. pushing (p_pc (b_ring s)) = Some v" using p_step_phase(3) [OF run live] by blast
  then have "p_pc (b_ring s) \<noteq> PCount" by auto
  then have len: "length (published (b_ring s)) = b_v s - 1" "b_v s \<le> 3" "1 \<le> b_v s"
    using ok(3) by (auto simp: backp_prod_def Let_def)
  show ?thesis
  proof (cases "b_v s = 3")
    case True
    have "got (b_ring s) 1 = []" using ok(4) by (simp add: backp_cons_def Let_def)
    then show ?thesis using push_refused [OF ok(1) _ _ step, of 1] True len(1) live by simp
  next
    case False
    then show ?thesis using push_not_refused(1) [OF ok(1) _ _ step] len by simp
  qed
qed

lemma backp_prod_step:
  assumes inv: "backp_inv s" and st: "backp_step e s = Some s'" and run: "p_step 2 2 e (b_ring s) = Some (b_ring s')"
    and live: "\<not> crashed (b_ring s')"
  shows "backp_prod s'"
proof (cases e)
  note prod = backp_invD(3) [OF inv]
  case (PushCall v)
  then have "\<forall>v w. p_pc (b_ring s') \<noteq> PWrite v w \<and> p_pc (b_ring s') \<noteq> PPublish v w"
    using run by (auto split: if_splits dest: sym)
  with PushCall show ?thesis using prod st p_step_phase(1) [OF run live PushCall] pushing_phase
    by (auto simp: backp_prod_def Let_def elim!: on_b_ringE split: if_splits)
next
  note prod = backp_invD(3) [OF inv]
  case (Scan t)
  then have "\<forall>v w. p_pc (b_ring s') \<noteq> PWrite v w \<and> p_pc (b_ring s') \<noteq> PPublish v w"
    using run by (auto simp: case_prod_beta Let_def split: if_splits p_pc.splits dest: sym)
  with Scan show ?thesis using prod st p_step_phase(2) [OF run live] pushing_phase
    by (auto simp: backp_prod_def Let_def elim!: on_b_ringE)
next
  note prod = backp_invD(3) [OF inv]
  case Decide
  have "step 2 2 Decide (b_ring s) = Some (b_ring s')" using backp_ring_step [OF st] Decide by simp
  note dec = backp_decide [OF inv this live]
  obtain v where ph: "pushing (p_pc (b_ring s)) = Some v" "published (b_ring s') = published (b_ring s)"
    "p_pc (b_ring s') = PIdle \<and> answers (b_ring s') = answers (b_ring s) @ [False]
      \<or> p_pc (b_ring s') \<noteq> PIdle \<and> answers (b_ring s') = answers (b_ring s)"
  proof -
    obtain v where "pushing (p_pc (b_ring s)) = Some v" "published (b_ring s') = published (b_ring s)"
      "pushing (p_pc (b_ring s')) = Some v \<and> answers (b_ring s') = answers (b_ring s)
        \<or> p_pc (b_ring s') = PIdle \<and> answers (b_ring s') = answers (b_ring s) @ [False]"
      using p_step_phase(3) [OF run live Decide] by auto
    with pushing_phase [of "p_pc (b_ring s')" v] show ?thesis by (intro that [of v]) auto
  qed
  note busy = pushing_phase [OF ph(1)]
  show ?thesis
  proof (cases "b_v s = 3")
    case True
    then have "b_last s" "b_third s = None" using prod busy by (auto simp: backp_prod_def Let_def)
    moreover have "p_pc (b_ring s') = PIdle" using dec True by simp
    moreover have "b_v s' = b_v s \<and> b_last s' = b_last s \<and> b_third s' = Some False"
      using st calculation unfolding Decide by (auto elim!: on_b_ringE split: if_splits)
    ultimately show ?thesis using prod ph busy True unfolding backp_prod_def Let_def by simp
  next
    case False
    then obtain x w where "p_pc (b_ring s') = PWrite x w" using dec by auto
    moreover have "b_v s' = b_v s \<and> b_last s' = b_last s \<and> b_third s' = b_third s"
      using st calculation unfolding Decide by (auto elim!: on_b_ringE split: if_splits)
    ultimately show ?thesis using prod ph busy False unfolding backp_prod_def Let_def by simp
  qed
next
  note prod = backp_invD(3) [OF inv]
  case Write
  then have "b_v s \<noteq> 3" using prod run by (auto simp: backp_prod_def Let_def split: p_pc.splits)
  with Write show ?thesis using prod st p_step_phase(2) [OF run live] pushing_phase
    by (auto simp: backp_prod_def Let_def elim!: on_b_ringE)
next
  note prod = backp_invD(3) [OF inv]
  case Publish
  then have "b_v s \<noteq> 3" using prod run by (auto simp: backp_prod_def Let_def split: p_pc.splits)
  with Publish show ?thesis using prod st p_step_phase(4) [OF run live] pushing_phase
    by (auto simp: backp_prod_def Let_def elim!: on_b_ringE)
next
  note prod = backp_invD(3) [OF inv]
  case Count
  then have v: "b_v s \<noteq> 3" using prod run by (auto simp: backp_prod_def Let_def split: p_pc.splits)
  have "replicate k True @ [True] = replicate (Suc k) True" for k by (simp add: replicate_append_same)
  with v Count show ?thesis using prod st p_step_phase(5) [OF run live] pushing_phase
    by (auto simp: backp_prod_def Let_def le_Suc_eq numeral_3_eq_3 elim!: on_b_ringE split: option.splits)
qed (use run in simp_all)

lemma backp_inv_push:
  assumes inv: "backp_inv s" and st: "backp_step e s = Some s'" and e: "push_event e"
  shows "backp_inv s'"
proof -
  let ?c = "b_ring s" and ?c' = "b_ring s'"
  note ok = backp_invD [OF inv] and step = backp_ring_step [OF st]
  have run: "p_step 2 2 e ?c = Some ?c'" using step e by (auto elim!: stepE dest: r_step_others(1))
  have next': "v = Suc (length (published ?c))" if "e = PushCall v" for v
    using st ok(3) push_call [OF run [unfolded that]] that
    by (auto simp: backp_prod_def Let_def le_Suc_eq numeral_3_eq_3 split: if_splits)
  have inv': "proto_inv 2 2 ?c'" "counting ?c'"
    using step_inv [OF ok(1) _ _ step] counting_step [OF ok(2) step next'] by auto
  have live: "\<not> crashed ?c'" using few_messages [OF _ inv'(1)] p_step_published [OF run] ok(5) by simp
  have "b_called s' = b_called s \<and> b_popped s' = b_popped s"
    using st e by (cases e) (auto elim!: on_b_ringE split: if_splits)
  then have "backp_cons s'"
    using p_step_got [OF run] ok(4) by (simp add: backp_cons_def Let_def split: option.splits)
  with inv' backp_prod_step [OF inv st run live] show ?thesis by (simp add: backp_inv_def)
qed

lemma backp_inv_step: "backp_inv s \<Longrightarrow> backp_step e s = Some s' \<Longrightarrow> backp_inv s'"
  using backp_inv_pop backp_inv_push by blast

lemma backp_inv_run: "backp_inv s \<Longrightarrow> backp_run es s = Some s' \<Longrightarrow> backp_inv s'"
  by (induction es arbitrary: s) (auto split: option.splits dest: backp_inv_step)

section \<open>The model passes and ends\<close>

definition backp_left :: "backp \<Rightarrow> nat" where
  "backp_left s =
     (let c = b_ring s; k = 3 - length (answers c) in
      (if p_pc c = PIdle then 7 * k else 7 * (k - 1) + p_left 2 (p_pc c))
      + (if b_called s then r_left (r_pc c 0) else 4))"

lemma p_step_answers:
  "p_step n cap e c = Some c' \<Longrightarrow> \<not> crashed c' \<Longrightarrow> (\<And>v. e \<noteq> PushCall v) \<Longrightarrow>
     answers c' = answers c \<and> p_pc c' \<noteq> PIdle \<or> (\<exists>a. answers c' = answers c @ [a] \<and> p_pc c' = PIdle)"
  by (cases e) (auto simp: Let_def case_prod_beta split: p_pc.splits if_splits)

lemma backp_answers:
  assumes "backp_inv s"
  shows "length (answers (b_ring s)) \<le> 3" "p_pc (b_ring s) \<noteq> PIdle \<Longrightarrow> length (answers (b_ring s)) < 3"
    "\<not> b_last s \<Longrightarrow> length (answers (b_ring s)) < 3"
    "b_third s = None \<Longrightarrow> p_pc (b_ring s) = PIdle \<Longrightarrow> \<not> b_last s"
  using backp_invD(3) [OF assms] by (auto simp: backp_prod_def Let_def split: option.splits)

lemma backp_push_left:
  assumes inv: "backp_inv s" and st: "backp_step e s = Some s'" and e: "push_event e"
  shows "backp_left s' < backp_left s"
proof -
  let ?c = "b_ring s" and ?c' = "b_ring s'"
  note step = backp_ring_step [OF st] and inv' = backp_inv_push [OF inv st e]
  have run: "p_step 2 2 e ?c = Some ?c'" using step e by (auto elim!: stepE dest: r_step_others(1))
  note live = backp_invD(6) [OF inv']
  have same: "b_called s' = b_called s" "r_pc ?c' = r_pc ?c"
    using p_step_others [OF run] st e by (cases e; auto elim!: on_b_ringE split: if_splits)+
  show ?thesis
  proof (cases "\<exists>v. e = PushCall v")
    case True
    then obtain v where v: "e = PushCall v" by blast
    have "\<not> b_last s" using st by (auto simp: v split: if_splits)
    then have "length (answers ?c) < 3" by (rule backp_answers(3) [OF inv])
    then obtain q where "3 - length (answers ?c) = Suc q" by (metis Suc_diff_Suc)
    moreover have "p_pc ?c' \<noteq> PIdle" "answers ?c' = answers ?c"
      using p_step_phase(1) [OF run live v] by auto
    moreover have "p_pc ?c = PIdle" "p_left 2 (p_pc ?c') = 6" using push_call [OF run [unfolded v]] by simp_all
    ultimately show ?thesis using same unfolding backp_left_def Let_def by simp
  next
    case False
    then have busy: "p_pc ?c \<noteq> PIdle" using run by (cases e) (auto split: p_pc.splits)
    then have less: "p_left 2 (p_pc ?c') < p_left 2 (p_pc ?c)"
      using p_step_left [OF run] live by (simp add: pushing_left)
    have "answers ?c' = answers ?c \<and> p_pc ?c' \<noteq> PIdle \<or> (\<exists>a. answers ?c' = answers ?c @ [a] \<and> p_pc ?c' = PIdle)"
      by (rule p_step_answers [OF run live]) (use False in blast)
    moreover obtain q where "3 - length (answers ?c) = Suc q"
      using backp_answers(2) [OF inv busy] by (metis Suc_diff_Suc)
    ultimately show ?thesis using less busy same unfolding backp_left_def Let_def by auto
  qed
qed

lemma backp_pop_left:
  assumes inv: "backp_inv s" and st: "backp_step e s = Some s'" and e: "\<not> push_event e"
  shows "backp_left s' < backp_left s"
proof -
  let ?c = "b_ring s" and ?c' = "b_ring s'"
  note step = backp_ring_step [OF st] and inv' = backp_inv_pop [OF inv st e]
  note pub = step_published [OF step e] and live = backp_invD(6) [OF inv']
  have run: "r_step 2 2 e ?c = Some ?c'" using step e by (auto elim!: stepE dest: p_step_others)
  have "r_pc ?c 1 = RIdle" using backp_invD(4) [OF inv] by (simp add: backp_cons_def Let_def)
  then have e0: "pop_event 0 e"
    using run st by (cases e) (auto split: if_splits r_pc.splits simp: less_2_cases_iff)
  show ?thesis
  proof (cases "\<exists>t. e = PopCall 0 t")
    case True
    then obtain t where t: "e = PopCall 0 t" by blast
    have "b_called s'" "\<not> b_called s" using st by (auto simp: t elim!: on_b_ringE split: if_splits)
    then show ?thesis using pop_call [OF run [unfolded t]] pub by (simp add: backp_left_def Let_def)
  next
    case False
    then have busy: "r_pc ?c 0 \<noteq> RIdle" using run e0 by (cases e) (auto split: r_pc.splits)
    then have "r_left (r_pc ?c' 0) < r_left (r_pc ?c 0)"
      using r_step_left [OF run e0] live left_zero(2) by (auto simp: neq0_conv [symmetric] simp del: neq0_conv)
    moreover have "b_called s" using busy backp_invD(4) [OF inv] by (simp add: backp_cons_def Let_def)
    moreover have "b_called s' = b_called s"
      using st e False e0 by (cases e) (auto elim!: on_b_ringE split: if_splits r_pc.splits)
    ultimately show ?thesis using pub by (simp add: backp_left_def Let_def)
  qed
qed

lemma backp_run_left:
  "backp_inv s \<Longrightarrow> backp_run es s = Some s' \<Longrightarrow> length es + backp_left s' \<le> backp_left s"
proof (induction es arbitrary: s)
  case (Cons e es)
  obtain s1 where s1: "backp_step e s = Some s1" "backp_run es s1 = Some s'"
    using Cons.prems(2) by (auto split: option.splits)
  have "backp_left s1 < backp_left s"
    using backp_push_left [OF Cons.prems(1) s1(1)] backp_pop_left [OF Cons.prems(1) s1(1)] by blast
  with Cons.IH [OF backp_inv_step [OF Cons.prems(1) s1(1)] s1(2)] show ?case by simp
qed simp

lemma backp_enabled:
  assumes inv: "backp_inv s" and "\<not> backp_done s"
  shows "\<exists>e. backp_step e s \<noteq> None"
proof -
  let ?c = "b_ring s"
  note ok = backp_invD [OF inv]
  have "b_called s \<Longrightarrow> r_pc ?c 0 = RIdle \<Longrightarrow> b_popped s \<noteq> None" "\<not> b_called s \<Longrightarrow> r_pc ?c 0 = RIdle"
    using ok(4) by (auto simp: backp_cons_def Let_def)
  then consider "p_pc ?c \<noteq> PIdle" | "p_pc ?c = PIdle" "b_third s = None"
    | "r_pc ?c 0 \<noteq> RIdle" | "r_pc ?c 0 = RIdle" "\<not> b_called s"
    using assms(2) unfolding backp_done_def by metis
  then show ?thesis
  proof cases
    case 1
    then obtain e where e: "push_event e" "step 2 2 e ?c \<noteq> None" using push_enabled [OF ok(1,6)] by blast
    have "e \<noteq> PushCall v" for v using e(2) 1 step_call(1) by metis
    then show ?thesis using e by (intro exI [of _ e]) (cases e; auto simp: on_b_ring_def)
  next
    case 2
    have "\<not> b_last s" by (rule backp_answers(4) [OF inv 2(2,1)])
    then show ?thesis using 2 ok(6)
      by (intro exI [of _ "PushCall (if b_v s \<le> 2 then b_v s else 3)"]) (simp add: on_b_ring_def step_def)
  next
    case 3
    then obtain e where e: "pop_event 0 e" "step 2 2 e ?c \<noteq> None" using pop_enabled [OF _ ok(6) 3, of 2 2] by auto
    have "e \<noteq> PopCall 0 t" for t using e(2) 3 step_call(2) by metis
    moreover have "\<exists>r v. r_pc ?c 0 = RStore r v" if "e = Store 0"
      using e(2) that by (auto simp: step_def split: r_pc.splits if_splits)
    ultimately show ?thesis using e by (intro exI [of _ e]) (cases e; auto simp: on_b_ring_def)
  next
    case 4
    have "r_seen ?c 0 < length (w_hist ?c)"
      using r_okD(3) [OF proto_invD(2) [OF ok(1), of 0]] inv_counts(2) [OF ok(1)] by simp
    then show ?thesis using 4 ok(6)
      by (intro exI [of _ "PopCall 0 (r_seen ?c 0)"]) (simp add: on_b_ring_def step_def case_prod_beta Let_def)
  qed
qed

text \<open>
  C29. Model 2 passes, for a stronger reason than its assertions give: in every interleaving the pop returns nothing
  or 1 and the third push is refused, whether the pop came before it or not, since reader 1 still holds
  the producer back; the loop over the first two pushes never retries, and every execution ends
  after at most 25 accesses.
\<close>

theorem backpressure_model_passes:
  assumes "backp_run es (backp_init junk) = Some s"
  shows "backp_asserts s \<and> b_third s \<noteq> Some True \<and> \<not> crashed (b_ring s) \<and> \<not> raced (b_ring s)
    \<and> prefix (answers (b_ring s)) [True, True, False]
    \<and> length es \<le> 25 \<and> (backp_done s \<or> (\<exists>e. backp_step e s \<noteq> None))"
proof -
  have inv: "backp_inv s" by (rule backp_inv_run [OF backp_inv_init assms])
  note ok = backp_invD [OF inv]
  have "backp_left (backp_init junk) = 25" by (simp add: backp_left_def backp_init_def proto_init_def Let_def)
  then have "length es \<le> 25" using backp_run_left [OF backp_inv_init assms] by simp
  moreover have third: "b_third s = None \<or> b_third s = Some False" "1 \<le> b_v s" "b_v s \<le> 3"
    "b_third s = Some False \<Longrightarrow> b_v s = 3"
    "answers (b_ring s) = replicate (b_v s - 1) True @ (case b_third s of None \<Rightarrow> [] | Some a \<Rightarrow> [a])"
    using ok(3) by (auto simp: backp_prod_def Let_def)
  then have "prefix (answers (b_ring s)) [True, True, False]"
    by (auto simp: le_Suc_eq numeral_3_eq_3)
  moreover have "b_popped s = None \<or> b_popped s = Some None \<or> b_popped s = Some (Some 1)"
    using ok(4) by (auto simp: backp_cons_def Let_def split: option.splits)
  then have "backp_asserts s" using third(1) by (auto simp: backp_asserts_def)
  ultimately show ?thesis using third(1) ok(6) proto_invD(5) [OF ok(1)] backp_enabled [OF inv] by auto
qed

definition backp_events :: "nat event list" where
  "backp_events =
     [PushCall 1, Scan 0, Scan 0, Decide, Write, Publish, PopCall 0 1, Cursor 0, Count, Read 0, Store 0,
      PushCall 2, Scan 1, Scan 0, Decide, Write, Publish, Count, PushCall 3, Scan 1, Scan 0, Decide]"

theorem backpressure_model_passes_witness:
  "\<exists>s. backp_run backp_events (backp_init (\<lambda>_. 0)) = Some s \<and> b_third s = Some False \<and> b_popped s = Some (Some 1)
     \<and> backp_asserts s"
proof -
  have "case backp_run backp_events (backp_init (\<lambda>_. 0)) of None \<Rightarrow> False
      | Some s \<Rightarrow> b_third s = Some False \<and> b_popped s = Some (Some 1)"
    by (simp add: backp_events_def backp_init_def on_b_ring_def proto_init_def step_def
        U64_MAX_def Let_def view_zero_def view_join_def)
  then obtain s where s: "backp_run backp_events (backp_init (\<lambda>_. 0)) = Some s" "b_third s = Some False"
    "b_popped s = Some (Some 1)"
    by (auto split: option.splits)
  with backpressure_model_passes [OF s(1)] show ?thesis by blast
qed

end
