(* ===== verification/Protocol_Acquire.thy ===== *)
theory Protocol_Acquire
  imports Protocol_Progress
begin

text \<open>
  Synchronisation from outside the ring: a reader that acquires from another location (a counter, an eventfd) what
  the producer released there takes over the producer's view, and the messages of \<open>write_idx\<close> the producer had
  stored then are the oldest it may still load. The invariant of the protocol is kept.
\<close>

section \<open>The acquire\<close>

text \<open>Reader \<open>i\<close> takes over the view \<open>v\<close> and no longer loads a message of \<open>write_idx\<close> before \<open>w\<close>.\<close>

definition acquire :: "nat \<Rightarrow> view \<Rightarrow> nat \<Rightarrow> 'v proto \<Rightarrow> 'v proto" where
  "acquire i v w c =
     c\<lparr>r_view := (r_view c)(i := view_join (r_view c i) v), r_seen := (r_seen c)(i := max (r_seen c i) w)\<rparr>"

lemma proto_inv_acquire:
  assumes inv: "proto_inv n cap c" and i: "i < n" and idle: "r_pc c i = RIdle" and w: "w \<le> wcount c" "w \<le> vw v"
    and v: "below n (vw (p_view c)) (\<lambda>j. vr (r_view c j) j) v"
  shows "proto_inv n cap (acquire i v w c)"
proof -
  let ?c = "acquire i v w c"
  have own: "vr (r_view ?c j) j = vr (r_view c j) j" if "j < n" for j
    using v that by (auto simp: acquire_def below_def)
  then have same: "below n (vw (p_view c)) (\<lambda>j. vr (r_view ?c j) j) = below n (vw (p_view c)) (\<lambda>j. vr (r_view c j) j)"
    by (auto simp: below_def fun_eq_iff)
  note views = proto_invD(4) [OF inv]
  have "below n (vw (p_view c)) (\<lambda>j. vr (r_view c j) j) (r_view ?c j)" if "j < n" for j
    using views_okD(4) [OF views that] below_join [OF views_okD(4) [OF views i] v] by (simp add: acquire_def)
  then have "views_ok n ?c"
    using views unfolding views_ok_def Let_def acquire_def
    by (simp add: same [unfolded acquire_def, simplified])
  moreover have "r_ok cap j (wcount ?c) (published ?c) (r_hist ?c j) (r_seen ?c j) (r_view ?c j) (\<lambda>s. cell_r ?c s j)
      (got ?c j) (r_pc ?c j)" if j: "j < n" for j
  proof (cases "j = i")
    case True
    have "vr (view_join (r_view c i) v) i = vr (r_view c i) i" using own [OF i] by (simp add: acquire_def)
    then show ?thesis using proto_invD(2) [OF inv i] idle w True
      by (auto simp: r_ok_def acquire_def hist_ok_def)
  next
    case False
    then show ?thesis using proto_invD(2) [OF inv j] by (simp add: acquire_def)
  qed
  ultimately show ?thesis using inv by (simp add: proto_inv_def acquire_def)
qed

lemma step_views_grow:
  assumes "step n cap e c = Some c'"
  shows "vw (p_view c) \<le> vw (p_view c')" "vr (r_view c i) i \<le> vr (r_view c' i) i"
  using assms
  by (elim stepE; cases e; auto simp: Let_def case_prod_beta split: p_pc.splits r_pc.splits if_splits)+

lemma step_seen_grows:
  assumes "step n cap e c = Some c'"
  shows "r_seen c i \<le> r_seen c' i"
  using assms
  by (elim stepE; cases e; auto simp: Let_def case_prod_beta split: p_pc.splits r_pc.splits if_splits)

lemma acquire_simps [simp]:
  "published (acquire i v w c) = published c" "p_pc (acquire i v w c) = p_pc c" "r_pc (acquire i v w c) = r_pc c"
  "got (acquire i v w c) = got c" "w_hist (acquire i v w c) = w_hist c" "p_view (acquire i v w c) = p_view c"
  "r_hist (acquire i v w c) = r_hist c" "crashed (acquire i v w c) = crashed c"
  "r_seen (acquire i v w c) i = max (r_seen c i) w" "answers (acquire i v w c) = answers c"
  by (simp_all add: acquire_def)

end
