(* ===== verification/Loom_Notify.thy ===== *)
theory Loom_Notify
  imports Loom_Models Protocol_Acquire
begin

text \<open>
  \<open>model_notify_no_lost_wakeup\<close> of \<open>src/loom_ring.rs\<close>: the producer publishes and then bumps a counter
  with a \<open>Release\<close> \<open>fetch_add\<close>; the consumer that sees the counter move with an
  \<open>Acquire\<close> load must find the message. A message of the counter carries the producer's view and the last
  message of \<open>write_idx\<close> the producer had stored, below which a thread that acquires it can no
  longer load.
\<close>

section \<open>The scenario\<close>

text \<open>
  The consumer: \<open>k\<close> attempts over, in the pop of attempt \<open>k\<close>, about to load \<open>seen\<close>,
  about to make load \<open>j\<close> of the inner loop, woken, in the pop after that, and returned.
\<close>

datatype n_pc = NTry nat | NPop nat | NSeen nat | NSpin nat nat nat | NWoken | NWokenPop | NDone bool

record hshake =
  n_ring :: "nat proto"
  n_msgs :: "(nat \<times> view \<times> nat) list"
  n_last :: nat                 \<comment> \<open>newest message of the counter the consumer has loaded\<close>
  n_pc :: n_pc
  n_called :: bool
  n_pushed :: bool
  n_signalled :: bool
  n_failed :: bool

definition hshake_init :: "(nat \<Rightarrow> nat) \<Rightarrow> hshake" where
  "hshake_init junk =
     \<lparr> n_ring = proto_init junk, n_msgs = [(0, view_zero, 0)], n_last = 0, n_pc = NTry 0, n_called = False,
       n_pushed = False, n_signalled = False, n_failed = False \<rparr>"

datatype n_event = Ring "nat event" | LoadNotify nat | Signal

definition on_n_ring :: "nat event \<Rightarrow> (nat proto \<Rightarrow> hshake \<Rightarrow> hshake) \<Rightarrow> hshake \<Rightarrow> hshake option" where
  "on_n_ring e f s = map_option (\<lambda>c. f c (s\<lparr>n_ring := c\<rparr>)) (step 1 2 e (n_ring s))"

text \<open>What a pop that found nothing leads to: the next load, or the panic of the woken consumer.\<close>

fun pop_none :: "hshake \<Rightarrow> hshake" where
  "pop_none s =
     (case n_pc s of
        NPop k \<Rightarrow> s\<lparr>n_pc := NSeen k\<rparr>
      | _ \<Rightarrow> s\<lparr>n_pc := NDone False, n_failed := True\<rparr>)"

fun hshake_step :: "n_event \<Rightarrow> hshake \<Rightarrow> hshake option" where
  "hshake_step (Ring (PushCall v)) s =
     (if v = 1 \<and> \<not> n_called s then on_n_ring (PushCall v) (\<lambda>_ s. s\<lparr>n_called := True\<rparr>) s else None)"
| "hshake_step (Ring Decide) s =
     on_n_ring Decide (\<lambda>c s. if p_pc c = PIdle then s\<lparr>n_failed := True\<rparr> else s) s"
| "hshake_step (Ring Count) s = on_n_ring Count (\<lambda>_ s. s\<lparr>n_pushed := True\<rparr>) s"
| "hshake_step (Ring (PopCall i t)) s =
     (case n_pc s of
        NTry k \<Rightarrow> if k < ATTEMPTS then on_n_ring (PopCall i t) (\<lambda>_ s. s\<lparr>n_pc := NPop k\<rparr>) s else None
      | NWoken \<Rightarrow> on_n_ring (PopCall i t) (\<lambda>_ s. s\<lparr>n_pc := NWokenPop\<rparr>) s
      | _ \<Rightarrow> None)"
| "hshake_step (Ring (Cursor i)) s =
     on_n_ring (Cursor i) (\<lambda>c s. if r_pc c i = RIdle then pop_none s else s) s"
| "hshake_step (Ring (Store i)) s =
     (case r_pc (n_ring s) i of
        RStore r v \<Rightarrow> on_n_ring (Store i) (\<lambda>_ s. s\<lparr>n_pc := NDone True, n_failed := (n_failed s \<or> v \<noteq> 1)\<rparr>) s
      | _ \<Rightarrow> None)"
| "hshake_step (Ring e) s = on_n_ring e (\<lambda>_ s. s) s"
| "hshake_step (LoadNotify t) s =
     (if n_last s \<le> t \<and> t < length (n_msgs s) then
        (let (x, v, w) = n_msgs s ! t; s' = s\<lparr>n_ring := acquire 0 v w (n_ring s), n_last := t\<rparr> in
         case n_pc s of
           NSeen k \<Rightarrow> Some (s'\<lparr>n_pc := NSpin k x 0\<rparr>)
         | NSpin k seen j \<Rightarrow>
             Some (s'\<lparr>n_pc := if x \<noteq> seen then NWoken else if Suc j = ATTEMPTS then NTry (Suc k) else NSpin k seen (Suc j)\<rparr>)
         | _ \<Rightarrow> None)
      else None)"
| "hshake_step Signal s =
     (if n_pushed s \<and> \<not> n_signalled s then
        Some (s\<lparr>n_signalled := True,
                n_msgs := n_msgs s @ [(Suc (fst (last (n_msgs s))), p_view (n_ring s), length (w_hist (n_ring s)) - 1)]\<rparr>)
      else None)"

fun hshake_run :: "n_event list \<Rightarrow> hshake \<Rightarrow> hshake option" where
  "hshake_run [] s = Some s"
| "hshake_run (e # es) s = (case hshake_step e s of Some s' \<Rightarrow> hshake_run es s' | None \<Rightarrow> None)"

definition hshake_done :: "hshake \<Rightarrow> bool" where
  "hshake_done s \<longleftrightarrow> n_signalled s \<and> (case n_pc s of NTry k \<Rightarrow> k = ATTEMPTS | NDone a \<Rightarrow> True | _ \<Rightarrow> False)"

section \<open>The invariant\<close>

definition msgs_sound :: "nat proto \<Rightarrow> (nat \<times> view \<times> nat) list \<Rightarrow> bool" where
  "msgs_sound c ms \<longleftrightarrow>
     (\<forall>t < length ms. fst (ms ! t) = t \<and> snd (snd (ms ! t)) = t \<and> t \<le> vw (fst (snd (ms ! t)))
        \<and> below 1 (vw (p_view c)) (\<lambda>j. vr (r_view c j) j) (fst (snd (ms ! t))))"

definition hshake_prod :: "hshake \<Rightarrow> bool" where
  "hshake_prod s \<longleftrightarrow>
     (let c = n_ring s in
      length (published c) = (if n_pushed s \<or> p_pc c = PCount then 1 else 0)
      \<and> (n_called s \<longleftrightarrow> p_pc c \<noteq> PIdle \<or> n_pushed s) \<and> (n_pushed s \<longrightarrow> p_pc c = PIdle)
      \<and> (n_signalled s \<longrightarrow> n_pushed s) \<and> length (n_msgs s) = (if n_signalled s then 2 else 1))"

fun n_pc_ok :: "bool \<Rightarrow> nat \<Rightarrow> nat \<Rightarrow> n_pc \<Rightarrow> bool" where
  "n_pc_ok idle lst seen (NTry k) = (idle \<and> k \<le> ATTEMPTS)"
| "n_pc_ok idle lst seen (NPop k) = (\<not> idle \<and> k < ATTEMPTS)"
| "n_pc_ok idle lst seen (NSeen k) = (idle \<and> k < ATTEMPTS)"
| "n_pc_ok idle lst seen (NSpin k x j) = (idle \<and> k < ATTEMPTS \<and> j < ATTEMPTS \<and> x = lst)"
| "n_pc_ok idle lst seen NWoken = (idle \<and> 1 \<le> seen)"
| "n_pc_ok idle lst seen NWokenPop = (\<not> idle \<and> 1 \<le> seen)"
| "n_pc_ok idle lst seen (NDone a) = idle"

definition hshake_cons :: "hshake \<Rightarrow> bool" where
  "hshake_cons s \<longleftrightarrow>
     (let c = n_ring s in
      n_last s < length (n_msgs s) \<and> n_pc_ok (r_pc c 0 = RIdle) (n_last s) (r_seen c 0) (n_pc s)
      \<and> ((\<forall>a. n_pc s \<noteq> NDone a) \<longrightarrow> got c 0 = []) \<and> \<not> n_failed s)"

definition hshake_inv :: "hshake \<Rightarrow> bool" where
  "hshake_inv s \<longleftrightarrow> proto_inv 1 2 (n_ring s) \<and> counting (n_ring s) \<and> msgs_sound (n_ring s) (n_msgs s)
     \<and> hshake_prod s \<and> hshake_cons s"

lemma hshake_inv_init: "hshake_inv (hshake_init junk)"
  using proto_init_inv [of 1 2 junk] counting_init [of junk]
  by (simp add: hshake_inv_def hshake_prod_def hshake_cons_def hshake_init_def Let_def msgs_sound_def ATTEMPTS_def)
    (simp add: proto_init_def view_zero_def below_def)

lemma hshake_invD:
  assumes "hshake_inv s"
  shows "proto_inv 1 2 (n_ring s)" "counting (n_ring s)" "msgs_sound (n_ring s) (n_msgs s)" "hshake_prod s"
    "hshake_cons s" "length (published (n_ring s)) \<le> 1" "\<not> crashed (n_ring s)"
proof -
  show inv: "proto_inv 1 2 (n_ring s)" and "counting (n_ring s)" "msgs_sound (n_ring s) (n_msgs s)" "hshake_prod s"
    "hshake_cons s"
    using assms by (simp_all add: hshake_inv_def)
  then show "length (published (n_ring s)) \<le> 1" by (auto simp: hshake_prod_def Let_def)
  then show "\<not> crashed (n_ring s)" using few_messages [OF _ inv] by simp
qed

lemma on_n_ringE:
  assumes "on_n_ring e f s = Some s'"
  obtains c where "step 1 2 e (n_ring s) = Some c" and "s' = f c (s\<lparr>n_ring := c\<rparr>)"
  using assms by (auto simp: on_n_ring_def)

lemma hshake_ring_step:
  assumes "hshake_step (Ring e) s = Some s'"
  shows "step 1 2 e (n_ring s) = Some (n_ring s')" and "n_msgs s' = n_msgs s" "n_signalled s' = n_signalled s" "n_last s' = n_last s"
  using assms by (cases e; auto elim!: on_n_ringE split: if_splits r_pc.splits n_pc.splits)+

lemma msgs_sound_step:
  assumes "msgs_sound c ms" and "step n cap e c = Some c'"
  shows "msgs_sound c' ms"
proof -
  have "below 1 (vw (p_view c')) (\<lambda>j. vr (r_view c' j) j) v" if "below 1 (vw (p_view c)) (\<lambda>j. vr (r_view c j) j) v" for v
    by (rule below_mono [OF that step_views_grow [OF assms(2)]])
  with assms(1) show ?thesis by (simp add: msgs_sound_def)
qed

lemma p_step_flags:
  assumes "p_step n cap e c = Some c'" and "\<not> crashed c'" and "e = Decide \<Longrightarrow> p_pc c' \<noteq> PIdle"
  shows "(p_pc c = PIdle \<longleftrightarrow> (\<exists>v. e = PushCall v)) \<and> (p_pc c = PCount \<longleftrightarrow> e = Count)
    \<and> (p_pc c' = PIdle \<longleftrightarrow> e = Count) \<and> (p_pc c' = PCount \<longleftrightarrow> e = Publish)
    \<and> length (published c') = length (published c) + (if e = Publish then 1 else 0)"
  using assms by (cases e) (auto simp: Let_def case_prod_beta split: p_pc.splits if_splits)

lemma hshake_inv_push:
  assumes inv: "hshake_inv s" and st: "hshake_step (Ring e) s = Some s'" and e: "push_event e"
  shows "hshake_inv s'"
proof -
  let ?c = "n_ring s" and ?c' = "n_ring s'"
  note ok = hshake_invD [OF inv] and step = hshake_ring_step(1) [OF st]
  have run: "p_step 1 2 e ?c = Some ?c'" using step e by (auto elim!: stepE dest: r_step_others(1))
  have next': "v = Suc (length (published ?c))" if "e = PushCall v" for v
    using st ok(4) push_call [OF run [unfolded that]] that
    by (auto simp: hshake_prod_def Let_def split: if_splits)
  have inv': "proto_inv 1 2 ?c'" "counting ?c'"
    using step_inv [OF ok(1) _ _ step] counting_step [OF ok(2) step next'] by auto
  have live: "\<not> crashed ?c'" using few_messages [OF _ inv'(1)] p_step_published [OF run] ok(6) by simp
  have go: "p_pc ?c' \<noteq> PIdle" if "e = Decide"
    using push_not_refused(1) [OF ok(1), of ?c'] step that ok(6) by auto
  have same: "n_pc s' = n_pc s \<and> n_failed s' = n_failed s"
    using st e go by (cases e) (auto elim!: on_n_ringE split: if_splits)
  have seen: "r_seen ?c' = r_seen ?c" using run by (cases e) (auto simp: Let_def case_prod_beta split: p_pc.splits if_splits dest!: sym [of _ ?c'])
  have cons: "hshake_cons s'"
    using ok(5) same seen p_step_got [OF run] hshake_ring_step(2,4) [OF st] by (simp add: hshake_cons_def Let_def)
  have flags: "n_called s' = (n_called s \<or> (\<exists>v. e = PushCall v))" "n_pushed s' = (n_pushed s \<or> e = Count)"
    "(\<exists>v. e = PushCall v) \<Longrightarrow> \<not> n_called s"
    using st e go by (cases e; auto elim!: on_n_ringE split: if_splits)+
  have "hshake_prod s'"
    using ok(4) p_step_flags [OF run live go] flags hshake_ring_step(2,3) [OF st]
    unfolding hshake_prod_def Let_def by (cases "e = Count"; cases "e = Publish"; cases "\<exists>v. e = PushCall v"; auto split: if_splits)
  then show ?thesis
    using inv' cons msgs_sound_step [OF ok(3) step] hshake_ring_step(2) [OF st] by (simp add: hshake_inv_def)
qed

text \<open>A pop: the woken one finds the message because it can only load a \<open>write_idx\<close> of at least 1.\<close>

lemma pop_call_waits:
  assumes "r_step n cap (PopCall i t) c = Some c'" and "proto_inv n cap c"
  shows "i < n" "r_pc c i = RIdle" "\<exists>w. r_pc c' i = RCursor w" "r_seen c i \<le> r_seen c' i" "got c' = got c"
  using assms by (auto simp: Let_def case_prod_beta split: if_splits)

lemma pop_finds_message:
  assumes "proto_inv n cap c" and "i < n" and "r_step n cap (Cursor i) c = Some c'" and "length (got c i) < r_seen c i"
  shows "\<exists>r. r_pc c' i = RRead r"
proof -
  note r = proto_invD(2) [OF assms(1,2)]
  have "length (got c i) = rcount c i" using r_okD(5) [OF r] inv_counts(4) [OF assms(1,2)] by simp
  moreover obtain w where "r_pc c i = RCursor w" "w = r_seen c i"
    using assms(3) r_okD(7) [OF r] by (auto split: r_pc.splits)
  ultimately show ?thesis using assms(3,4) inv_counts(5) [OF assms(1,2)]
    by (auto split: if_splits simp del: last_val.simps)
qed

lemma hshake_inv_pop:
  assumes inv: "hshake_inv s" and st: "hshake_step (Ring e) s = Some s'" and e: "\<not> push_event e"
  shows "hshake_inv s'"
proof -
  let ?c = "n_ring s" and ?c' = "n_ring s'"
  note ok = hshake_invD [OF inv] and step = hshake_ring_step(1) [OF st] and keep = hshake_ring_step(2-4) [OF st]
  note pub = step_published [OF step e]
  have run: "r_step 1 2 e ?c = Some ?c'" using step e by (auto elim!: stepE dest: p_step_others)
  have inv': "proto_inv 1 2 ?c'" "counting ?c'"
    using step_inv [OF ok(1) _ _ step] counting_pop [OF ok(2) step e] by auto
  have live: "\<not> crashed ?c'" using few_messages [OF _ inv'(1)] ok(6) pub(1) by simp
  have "n_called s' = n_called s \<and> n_pushed s' = n_pushed s"
    using st e by (cases e) (auto elim!: on_n_ringE split: if_splits r_pc.splits n_pc.splits)
  then have prod: "hshake_prod s'" using ok(4) pub keep by (simp add: hshake_prod_def Let_def)
  have e0: "pop_event 0 e" using run e by (cases e) (auto split: if_splits r_pc.splits)
  note seen = step_seen_grows [OF step, of 0]
  have "hshake_cons s'"
  proof (cases e)
    case (PopCall i t)
    then have i: "i = 0" using e0 by simp
    note call = pop_call_waits [OF run [unfolded PopCall i] ok(1)]
    show ?thesis using st call ok(5) seen keep unfolding PopCall i
      by (auto simp: hshake_cons_def Let_def elim!: on_n_ringE split: n_pc.splits if_splits)
  next
    case (Cursor i)
    then have i: "i = 0" using e0 by simp
    have g: "got ?c' 0 = got ?c 0" using step_got(1) [OF step, of 0] Cursor by simp
    have busy: "r_pc ?c 0 \<noteq> RIdle" using run unfolding Cursor i by (auto split: r_pc.splits)
    then have pc: "(\<exists>k. n_pc s = NPop k \<and> k < ATTEMPTS) \<or> n_pc s = NWokenPop \<and> 1 \<le> r_seen ?c 0" and none: "got ?c 0 = []"
      using ok(5) by (cases "n_pc s"; simp add: hshake_cons_def Let_def)+
    have "r_pc ?c' 0 \<noteq> RIdle" if "n_pc s = NWokenPop"
      using pop_finds_message [OF ok(1) _ run [unfolded Cursor i]] pc none that by auto
    then show ?thesis using st pc none g ok(5) seen keep unfolding Cursor i
      by (auto simp: hshake_cons_def Let_def elim!: on_n_ringE split: if_splits)
  next
    case (Read i)
    then have i: "i = 0" using e0 by simp
    have g: "got ?c' 0 = got ?c 0" using step_got(1) [OF step, of 0] Read by simp
    have "r_pc ?c 0 \<noteq> RIdle" "r_pc ?c' 0 \<noteq> RIdle" using run unfolding Read i by (auto simp: Let_def split: r_pc.splits if_splits dest!: sym [of _ ?c'])
    moreover have "n_pc s' = n_pc s \<and> n_failed s' = n_failed s" using st unfolding Read by (auto elim!: on_n_ringE)
    ultimately show ?thesis using ok(5) g seen keep
      by (cases "n_pc s") (auto simp: hshake_cons_def Let_def)
  next
    case (Store i)
    then have i: "e = Store 0" using e0 by simp
    obtain r v where rv: "r_pc ?c 0 = RStore r v" "r_pc ?c' 0 = RIdle"
      using step_got(2) [OF step i live] by blast
    have "got ?c 0 = []" "\<not> n_failed s"
      using ok(5) rv(1) by (cases "n_pc s"; simp add: hshake_cons_def Let_def)+
    moreover have "v = Suc (length (got ?c 0))" by (rule popped_value(1) [OF ok(1,2) _ rv(1)]) simp
    moreover have "n_last s < length (n_msgs s)" using ok(5) by (simp add: hshake_cons_def Let_def)
    ultimately show ?thesis using st rv keep unfolding i
      by (auto simp: hshake_cons_def Let_def elim!: on_n_ringE)
  qed (use e in simp_all)
  then show ?thesis
    using inv' prod msgs_sound_step [OF ok(3) step] keep by (simp add: hshake_inv_def)
qed

text \<open>The counter's accesses.\<close>

lemma hshake_inv_load:
  assumes inv: "hshake_inv s" and st: "hshake_step (LoadNotify t) s = Some s'"
  shows "hshake_inv s'"
proof -
  let ?c = "n_ring s" and ?m = "n_msgs s ! t"
  let ?c' = "acquire 0 (fst (snd ?m)) (snd (snd ?m)) ?c"
  note ok = hshake_invD [OF inv]
  have t: "n_last s \<le> t" "t < length (n_msgs s)" using st by (auto split: if_splits)
  have m: "fst ?m = t" "snd (snd ?m) = t" "t \<le> vw (fst (snd ?m))"
    "below 1 (vw (p_view ?c)) (\<lambda>j. vr (r_view ?c j) j) (fst (snd ?m))"
    using ok(3) t(2) by (simp_all add: msgs_sound_def)
  have idle: "r_pc ?c 0 = RIdle" using st ok(5) t by (cases "n_pc s") (auto simp: hshake_cons_def Let_def case_prod_beta)
  have "t \<le> wcount ?c"
    using ok(4) t(2) inv_counts(1) [OF ok(1)] by (auto simp: hshake_prod_def Let_def split: if_splits)
  then have inv': "proto_inv 1 2 ?c'" using m by (intro proto_inv_acquire [OF ok(1) _ idle]) simp_all
  have own: "vr (r_view ?c' 0) 0 = vr (r_view ?c 0) 0" using m(4) by (auto simp: acquire_def below_def)
  then have "below 1 (vw (p_view ?c')) (\<lambda>j. vr (r_view ?c' j) j) = below 1 (vw (p_view ?c)) (\<lambda>j. vr (r_view ?c j) j)"
    by (auto simp: below_def fun_eq_iff)
  then have sound: "msgs_sound ?c' (n_msgs s)" using ok(3) by (simp add: msgs_sound_def)
  have cnt: "counting ?c'" using ok(2) by (simp add: counting_def)
  have s': "n_ring s' = ?c'" "n_msgs s' = n_msgs s" "n_last s' = t" "n_called s' = n_called s" "n_pushed s' = n_pushed s"
    "n_signalled s' = n_signalled s" "n_failed s' = n_failed s"
    using st t by (auto simp: Let_def case_prod_beta split: n_pc.splits if_splits)
  have prod: "hshake_prod s'" using ok(4) s' by (simp add: hshake_prod_def Let_def)
  have "hshake_cons s'"
  proof (cases "n_pc s")
    case (NSeen k)
    then have "n_pc s' = NSpin k t 0" using st t m(1) by (auto simp: Let_def case_prod_beta)
    then show ?thesis using ok(5) s' t idle NSeen by (simp add: hshake_cons_def Let_def ATTEMPTS_def)
  next
    case (NSpin k x j)
    then have x: "x = n_last s" "k < ATTEMPTS" "j < ATTEMPTS" using ok(5) by (simp_all add: hshake_cons_def Let_def)
    have pc: "n_pc s' = (if t \<noteq> x then NWoken else if Suc j = ATTEMPTS then NTry (Suc k) else NSpin k x (Suc j))"
      using st t m(1) NSpin by (auto simp: Let_def case_prod_beta)
    have "1 \<le> t" if "t \<noteq> x" using that t(1) x(1) by simp
    then show ?thesis using ok(5) s' t idle NSpin pc x m(2) by (auto simp: hshake_cons_def Let_def)
  qed (use st t in \<open>simp_all add: Let_def case_prod_beta\<close>)
  then show ?thesis using inv' cnt sound prod s' by (simp add: hshake_inv_def)
qed

lemma hshake_inv_signal:
  assumes inv: "hshake_inv s" and st: "hshake_step Signal s = Some s'"
  shows "hshake_inv s'"
proof -
  let ?c = "n_ring s"
  note ok = hshake_invD [OF inv]
  have sig: "n_pushed s" "\<not> n_signalled s" and s': "s' = s\<lparr>n_signalled := True,
      n_msgs := n_msgs s @ [(Suc (fst (last (n_msgs s))), p_view ?c, wcount ?c)]\<rparr>"
    using st by (auto split: if_splits)
  have len: "length (n_msgs s) = 1" "length (published ?c) = 1" using ok(4) sig by (simp_all add: hshake_prod_def Let_def)
  then have "fst (last (n_msgs s)) = 0" using ok(3) by (cases "n_msgs s") (auto simp: msgs_sound_def)
  moreover have "wcount ?c = 1" using inv_counts(1) [OF ok(1)] len(2) by simp
  moreover have "1 \<le> vw (p_view ?c)"
    using p_okD(5) [OF proto_invD(1) [OF ok(1)]] calculation(2) by (cases "p_pc ?c") auto
  ultimately have "msgs_sound ?c (n_msgs s')"
    using ok(3) len(1) views_okD(3) [OF proto_invD(4) [OF ok(1)]]
    by (auto simp: s' msgs_sound_def nth_append less_Suc_eq)
  then show ?thesis using ok sig by (auto simp: s' hshake_inv_def hshake_prod_def hshake_cons_def Let_def)
qed

lemma hshake_inv_step: "hshake_inv s \<Longrightarrow> hshake_step e s = Some s' \<Longrightarrow> hshake_inv s'"
  using hshake_inv_push hshake_inv_pop hshake_inv_load hshake_inv_signal by (cases e) blast+

lemma hshake_inv_run: "hshake_inv s \<Longrightarrow> hshake_run es s = Some s' \<Longrightarrow> hshake_inv s'"
  by (induction es arbitrary: s) (auto split: option.splits dest: hshake_inv_step)

section \<open>The model passes and ends\<close>

text \<open>The accesses left: eight for an attempt, four for the pop of a woken consumer, seven of the producer.\<close>

fun n_left :: "nat \<Rightarrow> n_pc \<Rightarrow> nat" where
  "n_left rl (NTry k) = 8 * (3 - k) + 4"
| "n_left rl (NPop k) = 8 * (2 - k) + 8 + rl"
| "n_left rl (NSeen k) = 8 * (2 - k) + 8"
| "n_left rl (NSpin k x j) = 8 * (2 - k) + 4 + (3 - j)"
| "n_left rl NWoken = 4"
| "n_left rl NWokenPop = rl"
| "n_left rl (NDone a) = 0"

definition hshake_left :: "hshake \<Rightarrow> nat" where
  "hshake_left s =
     n_left (r_left (r_pc (n_ring s) 0)) (n_pc s)
     + (if n_called s then p_left 1 (p_pc (n_ring s)) else 6) + (if n_signalled s then 0 else 1)"

lemma hshake_push_left:
  assumes inv: "hshake_inv s" and st: "hshake_step (Ring e) s = Some s'" and e: "push_event e"
  shows "hshake_left s' < hshake_left s"
proof -
  let ?c = "n_ring s" and ?c' = "n_ring s'"
  note step = hshake_ring_step(1) [OF st] and inv' = hshake_inv_push [OF inv st e]
  have run: "p_step 1 2 e ?c = Some ?c'" using step e by (auto elim!: stepE dest: r_step_others(1))
  note live = hshake_invD(7) [OF inv']
  have "n_pc s' = n_pc s" "n_signalled s' = n_signalled s" "n_called s' = (n_called s \<or> (\<exists>v. e = PushCall v))"
    using st e by (cases e; auto elim!: on_n_ringE split: if_splits)+
  moreover have "r_pc ?c' = r_pc ?c" using p_step_others [OF run] by simp
  moreover have "if \<exists>v. e = PushCall v then \<not> n_called s \<and> p_left 1 (p_pc ?c') = 5
      else n_called s \<and> p_left 1 (p_pc ?c') < p_left 1 (p_pc ?c)"
  proof (cases "\<exists>v. e = PushCall v")
    case True
    then obtain v where v: "e = PushCall v" by blast
    have "\<not> n_called s" using st by (auto simp: v split: if_splits)
    with True show ?thesis using push_call [OF run [unfolded v]] by simp
  next
    case False
    then have busy: "p_pc ?c \<noteq> PIdle" using run by (cases e) (auto split: p_pc.splits)
    then have "n_called s" using hshake_invD(4) [OF inv] by (simp add: hshake_prod_def Let_def)
    then show ?thesis using p_step_left [OF run] live busy False by (simp add: pushing_left)
  qed
  ultimately show ?thesis by (auto simp: hshake_left_def split: if_splits)
qed

lemma hshake_pop_left:
  assumes inv: "hshake_inv s" and st: "hshake_step (Ring e) s = Some s'" and e: "\<not> push_event e"
  shows "hshake_left s' < hshake_left s"
proof -
  let ?c = "n_ring s" and ?c' = "n_ring s'"
  note step = hshake_ring_step(1) [OF st] and inv' = hshake_inv_pop [OF inv st e]
  note pub = step_published [OF step e] and live = hshake_invD(7) [OF inv'] and cons = hshake_invD(5) [OF inv]
  have run: "r_step 1 2 e ?c = Some ?c'" using step e by (auto elim!: stepE dest: p_step_others)
  have e0: "pop_event 0 e" using run e by (cases e) (auto split: if_splits r_pc.splits)
  have same: "n_called s' = n_called s" "n_signalled s' = n_signalled s"
    using st e by (cases e; auto elim!: on_n_ringE split: if_splits r_pc.splits n_pc.splits)+
  have "n_left (r_left (r_pc ?c' 0)) (n_pc s') < n_left (r_left (r_pc ?c 0)) (n_pc s)"
  proof (cases "\<exists>t. e = PopCall 0 t")
    case True
    then obtain t where t: "e = PopCall 0 t" by blast
    then show ?thesis using st pop_call [OF run [unfolded t]]
      by (auto simp: ATTEMPTS_def elim!: on_n_ringE split: n_pc.splits if_splits)
  next
    case False
    then have busy: "r_pc ?c 0 \<noteq> RIdle" using run e0 by (cases e) (auto split: r_pc.splits)
    have less: "r_left (r_pc ?c' 0) < r_left (r_pc ?c 0)"
      using r_step_left [OF run e0] live busy left_zero(2) by (auto simp: neq0_conv [symmetric] simp del: neq0_conv)
    have pc: "(\<exists>k. n_pc s = NPop k) \<or> n_pc s = NWokenPop"
      using busy cons by (cases "n_pc s") (auto simp: hshake_cons_def Let_def)
    have "n_pc s' = n_pc s \<or> (\<exists>a. n_pc s' = NDone a) \<or> (\<exists>k. n_pc s = NPop k \<and> n_pc s' = NSeen k)"
      using st pc e0 False by (cases e) (auto elim!: on_n_ringE split: if_splits r_pc.splits)
    with pc less show ?thesis by auto
  qed
  then show ?thesis using same pub by (simp add: hshake_left_def)
qed

lemma hshake_other_left:
  assumes inv: "hshake_inv s" and st: "hshake_step e s = Some s'" and e: "\<And>x. e \<noteq> Ring x"
  shows "hshake_left s' < hshake_left s"
proof (cases e)
  case (LoadNotify t)
  have ok: "n_pc_ok (r_pc (n_ring s) 0 = RIdle) (n_last s) (r_seen (n_ring s) 0) (n_pc s)"
    using hshake_invD(5) [OF inv] by (simp add: hshake_cons_def Let_def)
  have same: "n_called s' = n_called s" "n_signalled s' = n_signalled s" "p_pc (n_ring s') = p_pc (n_ring s)"
    using st unfolding LoadNotify by (auto simp: Let_def case_prod_beta split: n_pc.splits if_splits)
  have "n_left x (n_pc s') < n_left y (n_pc s)" for x y
    using st ok unfolding LoadNotify
    by (cases "n_pc s") (auto simp: Let_def case_prod_beta ATTEMPTS_def split: if_splits)
  then show ?thesis using same by (simp add: hshake_left_def)
next
  case Signal
  then show ?thesis using st by (auto simp: hshake_left_def split: if_splits)
qed (use e in simp)

lemma hshake_run_left:
  "hshake_inv s \<Longrightarrow> hshake_run es s = Some s' \<Longrightarrow> length es + hshake_left s' \<le> hshake_left s"
proof (induction es arbitrary: s)
  case (Cons e es)
  obtain s1 where s1: "hshake_step e s = Some s1" "hshake_run es s1 = Some s'"
    using Cons.prems(2) by (auto split: option.splits)
  have "hshake_left s1 < hshake_left s"
    using hshake_push_left [OF Cons.prems(1)] hshake_pop_left [OF Cons.prems(1)]
      hshake_other_left [OF Cons.prems(1) s1(1)] s1(1) by (cases e) blast+
  with Cons.IH [OF hshake_inv_step [OF Cons.prems(1) s1(1)] s1(2)] show ?case by simp
qed simp

lemma hshake_enabled:
  assumes inv: "hshake_inv s" and "\<not> hshake_done s"
  shows "\<exists>e. hshake_step e s \<noteq> None"
proof (cases "n_signalled s")
  case False
  let ?c = "n_ring s"
  note ok = hshake_invD [OF inv]
  consider "\<not> n_called s" | "p_pc ?c \<noteq> PIdle" | "n_pushed s"
    using ok(4) by (auto simp: hshake_prod_def Let_def)
  then show ?thesis
  proof cases
    case 1
    then have "p_pc ?c = PIdle" using ok(4) by (simp add: hshake_prod_def Let_def)
    then show ?thesis using 1 ok(7) by (intro exI [of _ "Ring (PushCall 1)"]) (simp add: on_n_ring_def step_def)
  next
    case 2
    then obtain e where e: "push_event e" "step 1 2 e ?c \<noteq> None" using push_enabled [OF ok(1,7)] by blast
    have "e \<noteq> PushCall v" for v using e(2) 2 step_call(1) by metis
    then show ?thesis using e by (intro exI [of _ "Ring e"]) (cases e; auto simp: on_n_ring_def)
  next
    case 3
    then show ?thesis using False by (intro exI [of _ Signal]) simp
  qed
next
  case True
  let ?c = "n_ring s"
  note ok = hshake_invD [OF inv]
  have pc: "n_pc_ok (r_pc ?c 0 = RIdle) (n_last s) (r_seen ?c 0) (n_pc s)" and lst: "n_last s < length (n_msgs s)"
    using ok(5) by (simp_all add: hshake_cons_def Let_def)
  have "r_seen ?c 0 < length (w_hist ?c)"
    using r_okD(3) [OF proto_invD(2) [OF ok(1), of 0]] inv_counts(2) [OF ok(1)] by simp
  then have call: "step 1 2 (PopCall 0 (r_seen ?c 0)) ?c \<noteq> None" if "r_pc ?c 0 = RIdle"
    using ok(7) that by (simp add: step_def case_prod_beta Let_def)
  have busy: ?thesis if b: "r_pc ?c 0 \<noteq> RIdle"
  proof -
    obtain e where e: "pop_event 0 e" "step 1 2 e ?c \<noteq> None" using pop_enabled [OF _ ok(7) b, of 1 2] by auto
    have "e \<noteq> PopCall 0 t" for t using e(2) b step_call(2) by metis
    moreover have "\<exists>r v. r_pc ?c 0 = RStore r v" if "e = Store 0"
      using e(2) that by (auto simp: step_def split: r_pc.splits if_splits)
    ultimately show ?thesis using e by (intro exI [of _ "Ring e"]) (cases e; auto simp: on_n_ring_def)
  qed
  have load: ?thesis if "(\<exists>k. n_pc s = NSeen k) \<or> (\<exists>k x j. n_pc s = NSpin k x j)"
    using that lst by (intro exI [of _ "LoadNotify (n_last s)"]) (auto simp: Let_def case_prod_beta)
  have pop: ?thesis if "r_pc ?c 0 = RIdle" "(\<exists>k < ATTEMPTS. n_pc s = NTry k) \<or> n_pc s = NWoken"
    using that call by (intro exI [of _ "Ring (PopCall 0 (r_seen ?c 0))"]) (auto simp: on_n_ring_def)
  show ?thesis using assms(2) True pc busy load pop by (cases "n_pc s") (auto simp: hshake_done_def le_less)
qed

text \<open>
  C31. Model 4 passes: no wakeup is lost. In every interleaving, and for every stale value the loads may return, a
  consumer that has seen the counter move finds the message with its next pop, every message is 1,
  the producer's push is accepted, no access races, and every execution ends after at most 35 accesses.
\<close>

theorem notify_model_passes:
  assumes "hshake_run es (hshake_init junk) = Some s"
  shows "\<not> n_failed s \<and> \<not> crashed (n_ring s) \<and> \<not> raced (n_ring s)
    \<and> length es \<le> 35 \<and> (hshake_done s \<or> (\<exists>e. hshake_step e s \<noteq> None))"
proof -
  have inv: "hshake_inv s" by (rule hshake_inv_run [OF hshake_inv_init assms])
  note ok = hshake_invD [OF inv]
  have "hshake_left (hshake_init junk) = 35" by (simp add: hshake_left_def hshake_init_def)
  then have "length es \<le> 35" using hshake_run_left [OF hshake_inv_init assms] by simp
  moreover have "\<not> n_failed s" using ok(5) by (simp add: hshake_cons_def Let_def)
  ultimately show ?thesis using ok(7) proto_invD(5) [OF ok(1)] hshake_enabled [OF inv] by blast
qed

text \<open>The consumer finds nothing, sees the counter move, and pops the message.\<close>

definition hshake_events :: "n_event list" where
  "hshake_events =
     [Ring (PopCall 0 0), Ring (PushCall 1), Ring (Cursor 0), LoadNotify 0, Ring (Scan 0), Ring Decide, LoadNotify 0,
      Ring Write, Ring Publish, Ring Count, Signal, LoadNotify 1, Ring (PopCall 0 1), Ring (Cursor 0), Ring (Read 0),
      Ring (Store 0)]"

theorem notify_model_passes_witness:
  "\<exists>s. hshake_run hshake_events (hshake_init (\<lambda>_. 0)) = Some s \<and> n_pc s = NDone True \<and> \<not> n_failed s"
proof -
  have "case hshake_run hshake_events (hshake_init (\<lambda>_. 0)) of None \<Rightarrow> False | Some s \<Rightarrow> n_pc s = NDone True"
    by (simp add: hshake_events_def hshake_init_def on_n_ring_def proto_init_def step_def acquire_def ATTEMPTS_def
        U64_MAX_def Let_def view_zero_def view_join_def)
  then obtain s where s: "hshake_run hshake_events (hshake_init (\<lambda>_. 0)) = Some s" "n_pc s = NDone True"
    by (auto split: option.splits)
  with notify_model_passes [OF s(1)] show ?thesis by blast
qed

end
