(* ===== verification/Loom_Loans.thy ===== *)
theory Loom_Loans
  imports Loom_Models Loan_Protocol_Props
begin

text \<open>
  \<open>model_loan_pins_cursor_against_backpressure\<close> of \<open>src/loom_ring.rs\<close>: a producer that pushes
  three messages into two slots, against a consumer that claims a loan, reads it, claims a second one,
  tries to commit the second before the first, and commits the first. The threads run over the accesses of
  the loan protocol; the double's \<open>compare_exchange\<close> is strong, so it does not fail spuriously.
\<close>

section \<open>The scenario\<close>

text \<open>
  The consumer: \<open>k\<close> attempts over, in the claim of attempt \<open>k\<close>, about to read the loan's value, about
  to make the second claim, in it, about to commit the second loan, to drop it, to lower the gate for it,
  to commit the first, to store the cursor, to lower the gate, and returned.
\<close>

datatype m_pc =
    MTry nat | MClaim nat | MValue | MTry2 | MClaim2 | MCommit2 | MDrop2 | MResolve2 | MCommit | MStore | MResolve
  | MDone bool

record mloan =
  m_ring :: "nat lsys"
  m_v :: nat             \<comment> \<open>the message the producer is at\<close>
  m_tries :: nat         \<comment> \<open>attempts for the third\<close>
  m_third :: bool        \<comment> \<open>the third was pushed\<close>
  m_pc :: m_pc
  m_failed :: bool

definition mloan_init :: "(nat \<Rightarrow> nat) \<Rightarrow> mloan" where
  "mloan_init junk =
     \<lparr>m_ring = lsys_init junk, m_v = 1, m_tries = 0, m_third = False, m_pc = MTry 0, m_failed = False\<rparr>"

definition on_m_ring :: "nat levent \<Rightarrow> (nat lsys \<Rightarrow> mloan \<Rightarrow> mloan) \<Rightarrow> mloan \<Rightarrow> mloan option" where
  "on_m_ring e f s = map_option (\<lambda>c. f c (s\<lparr>m_ring := c\<rparr>)) (lstep 1 2 e (m_ring s))"

text \<open>\<open>assert!\<close>\<close>

definition check :: "bool \<Rightarrow> mloan \<Rightarrow> mloan" where
  "check b s = s\<lparr>m_failed := (m_failed s \<or> \<not> b)\<rparr>"

fun prod_step :: "nat levent \<Rightarrow> mloan \<Rightarrow> mloan option" where
  "prod_step (LPush v) s =
     (if m_v s \<le> 2 \<and> v = m_v s then on_m_ring (LPush v) (\<lambda>_ s. s) s
      else if m_v s = 3 \<and> v = 3 \<and> m_tries s < ATTEMPTS \<and> \<not> m_third s
      then on_m_ring (LPush v) (\<lambda>_ s. s\<lparr>m_tries := Suc (m_tries s)\<rparr>) s else None)"
| "prod_step LDecide s =
     on_m_ring LDecide (\<lambda>c s. if lp_pc c = PIdle \<and> m_v s \<le> 2 then check False s else s) s"
| "prod_step LCount s =
     on_m_ring LCount (\<lambda>_ s. if m_v s \<le> 2 then s\<lparr>m_v := Suc (m_v s)\<rparr> else s\<lparr>m_third := True\<rparr>) s"
| "prod_step (LScan t) s = on_m_ring (LScan t) (\<lambda>_ s. s) s"
| "prod_step LWrite s = on_m_ring LWrite (\<lambda>_ s. s) s"
| "prod_step LPublish s = on_m_ring LPublish (\<lambda>_ s. s) s"
| "prod_step _ s = None"

definition claimed_index :: "nat lsys \<Rightarrow> nat" where
  "claimed_index c = h_index (last (loans c 0))"

fun cons_step :: "nat levent \<Rightarrow> mloan \<Rightarrow> mloan option" where
  "cons_step (CClaim i) s =
     (case m_pc s of
        MTry k \<Rightarrow> if k < ATTEMPTS then on_m_ring (CClaim i) (\<lambda>_ s. s\<lparr>m_pc := MClaim k\<rparr>) s else None
      | MTry2 \<Rightarrow> on_m_ring (CClaim i) (\<lambda>_ s. s\<lparr>m_pc := MClaim2\<rparr>) s
      | _ \<Rightarrow> None)"
| "cons_step (CLoadW i t) s = on_m_ring (CLoadW i t) (\<lambda>_ s. s) s"
| "cons_step (CLoadCursor i t) s = on_m_ring (CLoadCursor i t) (\<lambda>_ s. s) s"
| "cons_step (CLoadBase i t) s = on_m_ring (CLoadBase i t) (\<lambda>_ s. s) s"
| "cons_step (CCas i spurious) s =
     (if spurious then None
      else on_m_ring (CCas i False)
        (\<lambda>c s. if lc_pc c i \<noteq> CIdle then s
                else case m_pc s of
                    MClaim k \<Rightarrow> check (claimed_index c = 0) (s\<lparr>m_pc := MValue\<rparr>)
                  | _ \<Rightarrow> check (claimed_index c = 1) (s\<lparr>m_pc := MCommit2\<rparr>)) s)"
| "cons_step (CNone i) s =
     on_m_ring (CNone i) (\<lambda>_ s. s\<lparr>m_pc := (case m_pc s of MClaim k \<Rightarrow> MTry (Suc k) | _ \<Rightarrow> MCommit)\<rparr>) s"
| "cons_step (HDeref i k) s =
     (if m_pc s = MValue \<and> k = 0
      then on_m_ring (HDeref i k) (\<lambda>c s. check (snd (snd (last (rlog c))) = 1) (s\<lparr>m_pc := MTry2\<rparr>)) s else None)"
| "cons_step (HCursor i k t dropping) s =
     (case m_pc s of
        MCommit2 \<Rightarrow>
          if k = 1 \<and> \<not> dropping
          then on_m_ring (HCursor i k t False) (\<lambda>c s. check (h_pc (loans c 0 ! 1) = Held) (s\<lparr>m_pc := MDrop2\<rparr>)) s
          else None
      | MDrop2 \<Rightarrow> if k = 1 \<and> dropping then on_m_ring (HCursor i k t True) (\<lambda>_ s. s\<lparr>m_pc := MResolve2\<rparr>) s else None
      | MCommit \<Rightarrow>
          if k = 0 \<and> \<not> dropping
          then on_m_ring (HCursor i k t False) (\<lambda>c s. check (h_pc (loans c 0 ! 0) = Storing) (s\<lparr>m_pc := MStore\<rparr>)) s
          else None
      | _ \<Rightarrow> None)"
| "cons_step (HStore i k) s =
     (if m_pc s = MStore \<and> k = 0 then on_m_ring (HStore i k) (\<lambda>_ s. s\<lparr>m_pc := MResolve\<rparr>) s else None)"
| "cons_step (HResolve i k) s =
     (if m_pc s = MResolve2 \<and> k = 1 then on_m_ring (HResolve i k) (\<lambda>_ s. s\<lparr>m_pc := MCommit\<rparr>) s
      else if m_pc s = MResolve \<and> k = 0 then on_m_ring (HResolve i k) (\<lambda>_ s. s\<lparr>m_pc := MDone True\<rparr>) s
      else None)"
| "cons_step _ s = None"

definition mloan_step :: "nat levent \<Rightarrow> mloan \<Rightarrow> mloan option" where
  "mloan_step e s = (case prod_step e s of Some s' \<Rightarrow> Some s' | None \<Rightarrow> cons_step e s)"

fun mloan_run :: "nat levent list \<Rightarrow> mloan \<Rightarrow> mloan option" where
  "mloan_run [] s = Some s"
| "mloan_run (e # es) s = (case mloan_step e s of Some s' \<Rightarrow> mloan_run es s' | None \<Rightarrow> None)"

fun returned :: "m_pc \<Rightarrow> bool" where
  "returned (MTry k) = (k = ATTEMPTS)" | "returned (MDone a) = True" | "returned _ = False"

definition mloan_done :: "mloan \<Rightarrow> bool" where
  "mloan_done s \<longleftrightarrow>
     lp_pc (m_ring s) = PIdle \<and> m_v s = 3 \<and> (m_third s \<or> m_tries s = ATTEMPTS) \<and> returned (m_pc s)"

section \<open>The invariant\<close>

definition lcounting :: "nat lsys \<Rightarrow> bool" where
  "lcounting c \<longleftrightarrow> (\<forall>k < length (lpub c). lpub c ! k = Suc k)
     \<and> (\<forall>v. pushing (lp_pc c) = Some v \<longrightarrow> v = Suc (length (lpub c)))"

definition mloan_prod :: "mloan \<Rightarrow> bool" where
  "mloan_prod s \<longleftrightarrow>
     (let c = m_ring s in
      length (lpub c) = m_v s - 1 + (if lp_pc c = PCount \<or> m_third s then 1 else 0)
      \<and> 1 \<le> m_v s \<and> m_v s \<le> 3 \<and> m_tries s \<le> ATTEMPTS \<and> (m_third s \<longrightarrow> m_v s = 3 \<and> lp_pc c = PIdle)
      \<and> (m_v s \<le> 2 \<longrightarrow> m_tries s = 0))"

text \<open>The consumer's data: the bases and cursor messages so far, and its loans with their stages.\<close>

fun claim_pc :: "nat \<Rightarrow> nat c_pc \<Rightarrow> bool" where
  "claim_pc b CClaimW = True" | "claim_pc b (CClaimCursor w) = True" | "claim_pc b (CClaimBase w r) = (r = 0)"
| "claim_pc b (CClaimCas w r x) = (r = 0 \<and> x = b)" | "claim_pc b CClaimNone = True" | "claim_pc b _ = False"

definition loan_shape :: "nat lsys \<Rightarrow> nat \<Rightarrow> nat \<Rightarrow> (nat \<times> h_pc) list \<Rightarrow> bool" where
  "loan_shape c b n hs \<longleftrightarrow>
     last (bvals c 0) = b \<and> b_seen c 0 = length (bvals c 0) - 1 \<and> bvals c 0 \<noteq> [] \<and> length (cmsgs c 0) = Suc n
     \<and> map (\<lambda>h. (h_index h, h_pc h)) (loans c 0) = hs \<and> (\<forall>h \<in> set (gone c 0). \<not> aborted (h_pc h))"

fun m_pc_ok :: "nat lsys \<Rightarrow> m_pc \<Rightarrow> bool" where
  "m_pc_ok c (MTry k) = (lc_pc c 0 = CIdle \<and> k \<le> ATTEMPTS \<and> loan_shape c 0 0 [])"
| "m_pc_ok c (MClaim k) = (claim_pc 0 (lc_pc c 0) \<and> k < ATTEMPTS \<and> loan_shape c 0 0 [])"
| "m_pc_ok c MValue = (lc_pc c 0 = CIdle \<and> loan_shape c 1 0 [(0, Held)])"
| "m_pc_ok c MTry2 = (lc_pc c 0 = CIdle \<and> loan_shape c 1 0 [(0, Held)])"
| "m_pc_ok c MClaim2 = (claim_pc 1 (lc_pc c 0) \<and> loan_shape c 1 0 [(0, Held)])"
| "m_pc_ok c MCommit2 = (lc_pc c 0 = CIdle \<and> loan_shape c 2 0 [(0, Held), (1, Held)])"
| "m_pc_ok c MDrop2 = (lc_pc c 0 = CIdle \<and> loan_shape c 2 0 [(0, Held), (1, Held)])"
| "m_pc_ok c MResolve2 = (lc_pc c 0 = CIdle \<and> loan_shape c 2 0 [(0, Held), (1, Leaving False)])"
| "m_pc_ok c MCommit = (lc_pc c 0 = CIdle \<and> (loan_shape c 1 0 [(0, Held)] \<or> loan_shape c 2 0 [(0, Held)]))"
| "m_pc_ok c MStore = (lc_pc c 0 = CIdle \<and> (loan_shape c 1 0 [(0, Storing)] \<or> loan_shape c 2 0 [(0, Storing)]))"
| "m_pc_ok c MResolve = (lc_pc c 0 = CIdle \<and> (loan_shape c 1 1 [(0, Leaving False)] \<or> loan_shape c 2 1 [(0, Leaving False)]))"
| "m_pc_ok c (MDone a) = (lc_pc c 0 = CIdle \<and> (loan_shape c 1 1 [] \<or> loan_shape c 2 1 []))"

definition mloan_inv :: "mloan \<Rightarrow> bool" where
  "mloan_inv s \<longleftrightarrow> linv 1 2 (m_ring s) \<and> lcounting (m_ring s) \<and> mloan_prod s \<and> m_pc_ok (m_ring s) (m_pc s) \<and> \<not> m_failed s"

lemma mloan_inv_init: "mloan_inv (mloan_init junk)"
  using linv_init [of 2 1 junk]
  by (simp add: mloan_inv_def mloan_init_def mloan_prod_def lcounting_def loan_shape_def Let_def)
    (simp add: lsys_init_def)

lemma few_lmessages: "length (lpub c) \<le> 4 \<Longrightarrow> linv n cap c \<Longrightarrow> \<not> lcrashed c"
  using linvD(5) [of n cap c] by (auto simp: U64_MAX_def)

lemma mloan_invD:
  assumes "mloan_inv s"
  shows "linv 1 2 (m_ring s)" "lcounting (m_ring s)" "mloan_prod s" "m_pc_ok (m_ring s) (m_pc s)" "\<not> m_failed s"
    "length (lpub (m_ring s)) \<le> 3" "\<not> lcrashed (m_ring s)"
proof -
  show inv: "linv 1 2 (m_ring s)" and "lcounting (m_ring s)" "mloan_prod s" "m_pc_ok (m_ring s) (m_pc s)" "\<not> m_failed s"
    using assms by (simp_all add: mloan_inv_def)
  then show len: "length (lpub (m_ring s)) \<le> 3" by (auto simp: mloan_prod_def Let_def split: if_splits)
  then show "\<not> lcrashed (m_ring s)" using few_lmessages [OF _ inv] by simp
qed

lemma on_m_ringE:
  assumes "on_m_ring e f s = Some s'"
  obtains c where "lstep 1 2 e (m_ring s) = Some c" and "s' = f c (s\<lparr>m_ring := c\<rparr>)"
  using assms by (auto simp: on_m_ring_def)

lemma mloan_stepE:
  assumes "mloan_step e s = Some s'"
  obtains "prod_step e s = Some s'" | "cons_step e s = Some s'"
  using assms by (auto simp: mloan_step_def split: option.splits)

lemma mloan_step_simps:
  "prod_step e s = Some s' \<Longrightarrow> mloan_step e s = Some s'" "cons_step e s = Some s' \<Longrightarrow> mloan_step e s = Some s'"
  by (simp add: mloan_step_def) (cases e; simp add: mloan_step_def)

lemma prod_ring_step: "prod_step e s = Some s' \<Longrightarrow> lstep 1 2 e (m_ring s) = Some (m_ring s')"
  by (cases e) (auto elim!: on_m_ringE simp: check_def split: if_splits)

lemma cons_ring_step: "cons_step e s = Some s' \<Longrightarrow> lstep 1 2 e (m_ring s) = Some (m_ring s')"
  by (cases e) (auto elim!: on_m_ringE simp: check_def split: if_splits m_pc.splits)

lemma prod_runs_producer:
  assumes "prod_step e s = Some s'"
  shows "lp_step 1 2 e (m_ring s) = Some (m_ring s')"
  using prod_ring_step [OF assms] assms by (cases e) (auto simp: lstep_def split: if_splits option.splits)

lemma cons_runs_consumer:
  assumes "cons_step e s = Some s'"
  shows "lc_step 1 2 e (m_ring s) = Some (m_ring s') \<or> lh_step 1 2 e (m_ring s) = Some (m_ring s')"
  using cons_ring_step [OF assms] assms by (cases e) (auto simp: lstep_def split: if_splits option.splits)

text \<open>The consumer's data do not depend on the producer's, and the reverse.\<close>

lemma lp_step_frame:
  "lp_step n cap e c = Some c' \<Longrightarrow>
     lc_pc c' = lc_pc c \<and> bvals c' = bvals c \<and> b_seen c' = b_seen c \<and> cmsgs c' = cmsgs c \<and> loans c' = loans c
     \<and> gone c' = gone c"
  by (cases e) (auto simp: Let_def case_prod_beta split: p_pc.splits if_splits)

lemma lc_step_frame: "lc_step n cap e c = Some c' \<Longrightarrow> lpub c' = lpub c \<and> lp_pc c' = lp_pc c"
  by (cases e) (auto simp: Let_def case_prod_beta split: c_pc.splits if_splits)

lemma lh_step_frame: "lh_step n cap e c = Some c' \<Longrightarrow> lpub c' = lpub c \<and> lp_pc c' = lp_pc c"
  by (cases e) (auto simp: Let_def case_prod_beta split: if_splits)

lemma m_pc_ok_frame:
  assumes "lc_pc c' = lc_pc c \<and> bvals c' = bvals c \<and> b_seen c' = b_seen c \<and> cmsgs c' = cmsgs c \<and> loans c' = loans c
     \<and> gone c' = gone c"
  shows "m_pc_ok c' pc = m_pc_ok c pc"
  using assms by (cases pc) (simp_all add: loan_shape_def)

lemma loan_shape_aborted:
  assumes "loan_shape c b n hs" and "\<forall>(x, pc) \<in> set hs. \<not> aborted pc" and "h \<in> set (loans c 0 @ gone c 0)"
  shows "\<not> aborted (h_pc h)"
proof (cases "h \<in> set (gone c 0)")
  case False
  then have "(h_index h, h_pc h) \<in> set (map (\<lambda>h. (h_index h, h_pc h)) (loans c 0))" using assms(3) by auto
  then show ?thesis using assms(1,2) unfolding loan_shape_def by fastforce
qed (use assms(1) in \<open>simp add: loan_shape_def\<close>)

lemma m_pc_ok_shape:
  assumes "m_pc_ok c pc"
  shows "\<exists>b n hs. loan_shape c b n hs \<and> (\<forall>(x, pc) \<in> set hs. \<not> aborted pc)"
proof -
  have "loan_shape c b n hs \<Longrightarrow> \<forall>(x, pc) \<in> set hs. \<not> aborted pc \<Longrightarrow> ?thesis" for b n hs by blast
  then show ?thesis using assms by (cases pc) fastforce+
qed

lemma m_pc_ok_aborted: "m_pc_ok c pc \<Longrightarrow> h \<in> set (loans c 0 @ gone c 0) \<Longrightarrow> \<not> aborted (h_pc h)"
  using m_pc_ok_shape loan_shape_aborted by metis

lemma mloan_orderly:
  assumes "mloan_inv s" and "mloan_step e s = Some s'"
  shows "orderly e (m_ring s)"
  using assms(2)
proof (cases rule: mloan_stepE)
  case 1
  then show ?thesis by (cases e) simp_all
next
  case 2
  then have "i = 0" if "e = CCas i sp" for i sp
    using cons_ring_step [OF 2] that by (auto simp: lstep_def split: if_splits c_pc.splits)
  then show ?thesis using 2 m_pc_ok_aborted [OF mloan_invD(4) [OF assms(1)]] by (cases e) auto
qed

lemma mloan_linv:
  assumes "mloan_inv s" and "mloan_step e s = Some s'"
  shows "linv 1 2 (m_ring s')"
proof (rule lstep_inv [OF mloan_invD(1) [OF assms(1)] _ _ mloan_orderly [OF assms]])
  show "lstep 1 2 e (m_ring s) = Some (m_ring s')"
    using assms(2) by (rule mloan_stepE) (rule prod_ring_step cons_ring_step; assumption)+
qed simp_all

text \<open>The producer's steps: the first two pushes are never refused.\<close>

lemma first_pushes_accepted:
  assumes "linv 1 2 c" and "length (lpub c) < 2" and "lp_step 1 2 LDecide c = Some c'" and "\<not> lcrashed c'"
  shows "\<exists>v w. lp_pc c' = PWrite v w"
proof -
  obtain v w m where pc: "lp_pc c = PScan v w 1 m" using assms(3) by (auto split: p_pc.splits if_splits)
  note p = linvD(1) [OF assms(1)]
  have "w = length (lpub c)" using prod_okD(8) [OF p] pc by simp
  then show ?thesis using assms(2-4) pc by (auto split: if_splits)
qed

lemma lp_step_phase:
  assumes "lp_step n cap e c = Some c'" and "\<not> lcrashed c'"
  shows "e = LPush v \<Longrightarrow> lp_pc c = PIdle \<and> pushing (lp_pc c') = Some v \<and> lpub c' = lpub c"
    "e = LScan t \<or> e = LWrite \<Longrightarrow> \<exists>v. pushing (lp_pc c) = Some v \<and> pushing (lp_pc c') = Some v \<and> lpub c' = lpub c"
    "e = LDecide \<Longrightarrow> \<exists>v. pushing (lp_pc c) = Some v \<and> lpub c' = lpub c
      \<and> (pushing (lp_pc c') = Some v \<or> lp_pc c' = PIdle)"
    "e = LPublish \<Longrightarrow> \<exists>v. pushing (lp_pc c) = Some v \<and> lp_pc c' = PCount \<and> lpub c' = lpub c @ [v]"
    "e = LCount \<Longrightarrow> lp_pc c = PCount \<and> lp_pc c' = PIdle \<and> lpub c' = lpub c"
  using assms by (auto simp: Let_def case_prod_beta split: p_pc.splits if_splits)

lemma lp_step_published: "lp_step n cap e c = Some c' \<Longrightarrow> length (lpub c') \<le> Suc (length (lpub c))"
  by (cases e) (auto simp: Let_def case_prod_beta split: p_pc.splits if_splits)

lemma mloan_inv_prod:
  assumes inv: "mloan_inv s" and st: "prod_step e s = Some s'"
  shows "mloan_inv s'"
proof -
  let ?c = "m_ring s" and ?c' = "m_ring s'"
  note ok = mloan_invD [OF inv] and run = prod_runs_producer [OF st]
  have linv': "linv 1 2 ?c'" by (rule mloan_linv [OF inv mloan_step_simps(1) [OF st]])
  have live: "\<not> lcrashed ?c'" using few_lmessages [OF _ linv'] lp_step_published [OF run] ok(6) by simp
  have cons: "m_pc s' = m_pc s" "m_pc_ok ?c' (m_pc s)"
    using st m_pc_ok_frame [OF lp_step_frame [OF run]] ok(4) by (cases e; auto elim!: on_m_ringE simp: check_def split: if_splits)+
  note prod = ok(3) [unfolded mloan_prod_def Let_def]
  have "lcounting ?c' \<and> mloan_prod s' \<and> \<not> m_failed s'"
  proof (cases e)
    case (LPush v)
    have "length (lpub ?c) = m_v s - 1" "v = m_v s"
      using st prod run unfolding LPush by (auto elim!: on_m_ringE split: if_splits)
    with LPush show ?thesis using prod st ok(2,5) lp_step_phase(1) [OF run live LPush] pushing_phase
      by (auto simp: mloan_prod_def lcounting_def elim!: on_m_ringE split: if_splits)
  next
    case (LScan t)
    then show ?thesis using prod st ok(2,5) lp_step_phase(2) [OF run live] pushing_phase
      by (auto simp: mloan_prod_def lcounting_def elim!: on_m_ringE)
  next
    case LDecide
    obtain v where v: "pushing (lp_pc ?c) = Some v" "lpub ?c' = lpub ?c" "pushing (lp_pc ?c') = Some v \<or> lp_pc ?c' = PIdle"
      using lp_step_phase(3) [OF run live LDecide] by auto
    note busy = pushing_phase [OF v(1)] and after = pushing_phase [of "lp_pc ?c'"]
    have "length (lpub ?c) = m_v s - 1" using prod busy by auto
    then have "length (lpub ?c) < 2" if "m_v s \<le> 2" using that prod by linarith
    then have "m_v s \<le> 2 \<Longrightarrow> lp_pc ?c' \<noteq> PIdle"
      using first_pushes_accepted [OF ok(1) _ run [unfolded LDecide] live] by fastforce
    then have "m_v s' = m_v s \<and> m_tries s' = m_tries s \<and> m_third s' = m_third s \<and> m_failed s' = m_failed s"
      using st unfolding LDecide by (cases "m_v s \<le> 2") (auto elim!: on_m_ringE simp: check_def split: if_splits)
    with v busy after prod ok(2,5) show ?thesis unfolding mloan_prod_def lcounting_def Let_def by auto
  next
    case LWrite
    then show ?thesis using prod st ok(2,5) lp_step_phase(2) [OF run live] pushing_phase
      by (auto simp: mloan_prod_def lcounting_def elim!: on_m_ringE)
  next
    case LPublish
    then show ?thesis using prod st ok(2,5) lp_step_phase(4) [OF run live] pushing_phase
      by (auto simp: mloan_prod_def lcounting_def nth_append less_Suc_eq elim!: on_m_ringE)
  next
    case LCount
    then show ?thesis using prod st ok(2,5) lp_step_phase(5) [OF run live]
      by (auto simp: mloan_prod_def lcounting_def elim!: on_m_ringE split: if_splits)
  qed (use run in simp_all)
  with linv' cons show ?thesis by (simp add: mloan_inv_def)
qed

text \<open>The consumer's steps.\<close>

lemma loan_shape_cong:
  assumes "loan_shape c b n hs" and "bvals c' 0 = bvals c 0" "b_seen c' 0 = b_seen c 0" "cmsgs c' 0 = cmsgs c 0"
    "loans c' 0 = loans c 0" "gone c' 0 = gone c 0"
  shows "loan_shape c' b n hs"
  using assms by (simp add: loan_shape_def)

lemma only_first_cursor:
  assumes "linv n cap c" and "0 < n" and "t < length (cmsgs c 0)" and "loan_shape c b 0 hs"
  shows "fst (cmsgs c 0 ! t) = 0"
  using assms cmsgs_okD(2) [OF reader_okD(1) [OF linvD(2) [OF assms(1,2)]] assms(3)] by (simp add: loan_shape_def)

lemma claim_pc_idle [simp]: "\<not> claim_pc b CIdle" "\<not> claim_pc b CPopW"
  by simp_all

lemma cons_claim:
  assumes inv: "mloan_inv s" and st: "cons_step e s = Some s'"
    and e: "(\<exists>i. e = CClaim i) \<or> (\<exists>i t. e = CLoadW i t) \<or> (\<exists>i t. e = CLoadCursor i t) \<or> (\<exists>i t. e = CLoadBase i t)
      \<or> (\<exists>i sp. e = CCas i sp) \<or> (\<exists>i. e = CNone i)"
  shows "m_pc_ok (m_ring s') (m_pc s') \<and> \<not> m_failed s'"
proof -
  let ?c = "m_ring s" and ?c' = "m_ring s'"
  note ok = mloan_invD [OF inv]
  have run: "lc_step 1 2 e ?c = Some ?c'" using cons_runs_consumer [OF st] e by auto
  show ?thesis using e
  proof (elim disjE exE)
    fix i assume [simp]: "e = CClaim i"
    then show ?thesis using st run ok(4,5)
      by (auto elim!: on_m_ringE simp: loan_shape_def split: m_pc.splits if_splits)
  next
    fix i t assume [simp]: "e = CLoadW i t"
    have pc: "lc_pc ?c 0 = CClaimW" using ok(4) run by (cases "m_pc s") (auto split: if_splits)
    then show ?thesis using st run ok(4,5)
      by (cases "m_pc s") (auto elim!: on_m_ringE simp: loan_shape_def case_prod_beta Let_def split: if_splits)
  next
    fix i t assume [simp]: "e = CLoadCursor i t"
    show ?thesis using st run ok(4,5) only_first_cursor [OF ok(1)]
      by (cases "m_pc s") (auto elim!: on_m_ringE simp: loan_shape_def case_prod_beta Let_def split: if_splits c_pc.splits)
  next
    fix i t assume [simp]: "e = CLoadBase i t"
    have "b_seen ?c 0 = length (bvals ?c 0) - 1" using m_pc_ok_shape [OF ok(4)] by (auto simp: loan_shape_def)
    then have "t = length (bvals ?c 0) - 1" using run by (auto split: c_pc.splits if_splits)
    then show ?thesis using st run ok(4,5)
      by (cases "m_pc s") (auto elim!: on_m_ringE simp: loan_shape_def last_conv_nth Let_def split: if_splits c_pc.splits)
  next
    fix i sp assume [simp]: "e = CCas i sp"
    show ?thesis using st run ok(4,5)
      by (cases "m_pc s") (auto elim!: on_m_ringE simp: loan_shape_def claimed_index_def check_def split: if_splits c_pc.splits)
  next
    fix i assume [simp]: "e = CNone i"
    show ?thesis using st run ok(4,5)
      by (cases "m_pc s") (auto elim!: on_m_ringE simp: loan_shape_def split: if_splits)
  qed
qed

lemma read_first:
  assumes "linv n cap c" and "lcounting c" and "rlog c \<noteq> []" and "fst (snd (last (rlog c))) = 0"
  shows "snd (snd (last (rlog c))) = 1"
proof -
  have "0 < length (lpub c) \<and> snd (snd (last (rlog c))) = lpub c ! 0"
    using linvD(3) [OF assms(1), unfolded log_ok_def, rule_format, OF last_in_set [OF assms(3)]] assms(4) by auto
  then show ?thesis using assms(2) by (simp add: lcounting_def)
qed

lemma one_loan: "map f hs = [x] \<longleftrightarrow> (\<exists>h. hs = [h] \<and> f h = x)"
  by auto

lemma two_loans: "map f hs = [x, y] \<longleftrightarrow> (\<exists>h h'. hs = [h, h'] \<and> f h = x \<and> f h' = y)"
  by auto

lemma cons_loan:
  assumes inv: "mloan_inv s" and st: "cons_step e s = Some s'"
    and e: "(\<exists>i k. e = HDeref i k) \<or> (\<exists>i k t d. e = HCursor i k t d) \<or> (\<exists>i k. e = HStore i k) \<or> (\<exists>i k. e = HResolve i k)"
  shows "m_pc_ok (m_ring s') (m_pc s') \<and> \<not> m_failed s'"
proof -
  let ?c = "m_ring s" and ?c' = "m_ring s'"
  note ok = mloan_invD [OF inv]
  have run: "lh_step 1 2 e ?c = Some ?c'" using cons_runs_consumer [OF st] e by auto
  have linv': "linv 1 2 ?c'" and "lcounting ?c'"
    using mloan_linv [OF inv mloan_step_simps(2) [OF st]] lh_step_frame [OF run] ok(2) by (simp_all add: lcounting_def)
  show ?thesis using e
  proof (elim disjE exE)
    fix i k assume [simp]: "e = HDeref i k"
    show ?thesis using st run ok(4,5) read_first [OF linv' \<open>lcounting ?c'\<close>]
      by (auto elim!: on_m_ringE simp: loan_shape_def one_loan check_def Let_def split: if_splits)
  next
    fix i k t d assume [simp]: "e = HCursor i k t d"
    show ?thesis using st run ok(4,5) only_first_cursor [OF ok(1)]
      by (cases "m_pc s")
        (auto elim!: on_m_ringE simp: loan_shape_def one_loan two_loans check_def case_prod_beta Let_def split: if_splits)
  next
    fix i k assume [simp]: "e = HStore i k"
    show ?thesis using st run ok(4,5)
      by (auto elim!: on_m_ringE simp: loan_shape_def one_loan Let_def split: if_splits)
  next
    fix i k assume [simp]: "e = HResolve i k"
    then consider "m_pc s = MResolve2" "k = 1" | "m_pc s = MResolve" "k = 0" using st by (auto split: if_splits)
    then show ?thesis
    proof cases
      case 1
      then obtain h h' where "loans ?c 0 = [h, h']" "h_pc h' = Leaving False" using ok(4) by (auto simp: loan_shape_def two_loans)
      with 1 show ?thesis using st run ok(4,5) by (auto elim!: on_m_ringE simp: loan_shape_def split: if_splits)
    next
      case 2
      then obtain h where "loans ?c 0 = [h]" "h_pc h = Leaving False" using ok(4) by (auto simp: loan_shape_def one_loan)
      with 2 show ?thesis using st run ok(4,5) by (auto elim!: on_m_ringE simp: loan_shape_def split: if_splits)
    qed
  qed
qed

lemma mloan_inv_cons:
  assumes inv: "mloan_inv s" and st: "cons_step e s = Some s'"
  shows "mloan_inv s'"
proof -
  note ok = mloan_invD [OF inv]
  have frame: "lpub (m_ring s') = lpub (m_ring s) \<and> lp_pc (m_ring s') = lp_pc (m_ring s)"
    using cons_runs_consumer [OF st] lc_step_frame lh_step_frame by blast
  have "m_v s' = m_v s \<and> m_tries s' = m_tries s \<and> m_third s' = m_third s"
    using st by (cases e) (auto elim!: on_m_ringE simp: check_def split: if_splits m_pc.splits)
  with frame ok(2,3) have "lcounting (m_ring s')" "mloan_prod s'"
    by (auto simp: lcounting_def mloan_prod_def Let_def)
  moreover have "m_pc_ok (m_ring s') (m_pc s') \<and> \<not> m_failed s'"
    using cons_claim [OF inv st] cons_loan [OF inv st] st by (cases e) auto
  ultimately show ?thesis
    using mloan_linv [OF inv mloan_step_simps(2) [OF st]] by (simp add: mloan_inv_def)
qed

lemma mloan_inv_step: "mloan_inv s \<Longrightarrow> mloan_step e s = Some s' \<Longrightarrow> mloan_inv s'"
  by (blast elim: mloan_stepE intro: mloan_inv_prod mloan_inv_cons)

lemma mloan_inv_run: "mloan_inv s \<Longrightarrow> mloan_run es s = Some s' \<Longrightarrow> mloan_inv s'"
  by (induction es arbitrary: s) (auto split: option.splits dest: mloan_inv_step)

section \<open>The model ends\<close>

fun c_left :: "'v c_pc \<Rightarrow> nat" where
  "c_left CClaimW = 4" | "c_left (CClaimCursor w) = 3" | "c_left (CClaimBase w r) = 2" | "c_left (CClaimCas w r b) = 1"
| "c_left CClaimNone = 1" | "c_left _ = 0"

fun m_left :: "nat \<Rightarrow> m_pc \<Rightarrow> nat" where
  "m_left cl (MTry k) = 5 * (ATTEMPTS - k) + 12"
| "m_left cl (MClaim k) = 5 * (ATTEMPTS - Suc k) + 12 + cl"
| "m_left cl MValue = 12" | "m_left cl MTry2 = 11" | "m_left cl MClaim2 = 6 + cl" | "m_left cl MCommit2 = 6"
| "m_left cl MDrop2 = 5" | "m_left cl MResolve2 = 4" | "m_left cl MCommit = 3" | "m_left cl MStore = 2"
| "m_left cl MResolve = 1" | "m_left cl (MDone a) = 0"

definition mpushes_left :: "mloan \<Rightarrow> nat" where
  "mpushes_left s =
     (if m_third s then 0
      else 6 * ((3 - m_v s) + (ATTEMPTS - m_tries s) - (if m_v s \<le> 2 \<and> lp_pc (m_ring s) \<noteq> PIdle then 1 else 0))
        + p_left 1 (lp_pc (m_ring s)))"

definition mloan_left :: "mloan \<Rightarrow> nat" where
  "mloan_left s = mpushes_left s + m_left (c_left (lc_pc (m_ring s) 0)) (m_pc s)"

lemma cons_left:
  assumes inv: "mloan_inv s" and st: "cons_step e s = Some s'"
  shows "mloan_left s' < mloan_left s"
proof -
  note ok = mloan_invD [OF inv]
  have frame: "lpub (m_ring s') = lpub (m_ring s) \<and> lp_pc (m_ring s') = lp_pc (m_ring s)"
    using cons_runs_consumer [OF st] lc_step_frame lh_step_frame by blast
  have "m_v s' = m_v s \<and> m_tries s' = m_tries s \<and> m_third s' = m_third s"
    using st by (cases e) (auto elim!: on_m_ringE simp: check_def split: if_splits m_pc.splits)
  with frame have "mpushes_left s' = mpushes_left s" by (simp add: mpushes_left_def)
  moreover have "m_left (c_left (lc_pc (m_ring s') 0)) (m_pc s') < m_left (c_left (lc_pc (m_ring s) 0)) (m_pc s)"
    using st ok(4) cons_runs_consumer [OF st]
    by (cases "m_pc s"; cases e)
      (auto elim!: on_m_ringE simp: check_def loan_shape_def Let_def case_prod_beta split: if_splits c_pc.splits)
  ultimately show ?thesis by (simp add: mloan_left_def)
qed

lemma lp_step_left:
  "lp_step n cap e c = Some c' \<Longrightarrow> \<not> lcrashed c' \<Longrightarrow> (\<And>v. e \<noteq> LPush v) \<Longrightarrow>
     lp_pc c \<noteq> PIdle \<and> p_left n (lp_pc c') < p_left n (lp_pc c)"
  by (cases e) (auto simp: Let_def case_prod_beta split: p_pc.splits if_splits)

lemma prod_left:
  assumes inv: "mloan_inv s" and st: "prod_step e s = Some s'"
  shows "mloan_left s' < mloan_left s"
proof -
  let ?c = "m_ring s" and ?c' = "m_ring s'"
  note ok = mloan_invD [OF inv] and run = prod_runs_producer [OF st]
  note ok' = mloan_invD [OF mloan_inv_prod [OF inv st]]
  have "m_pc s' = m_pc s" using st by (cases e) (auto elim!: on_m_ringE simp: check_def split: if_splits)
  then have same: "m_left (c_left (lc_pc ?c' 0)) (m_pc s') = m_left (c_left (lc_pc ?c 0)) (m_pc s)"
    using lp_step_frame [OF run] by simp
  note prod = ok(3) [unfolded mloan_prod_def Let_def]
  have "mpushes_left s' < mpushes_left s"
  proof (cases "\<exists>v. e = LPush v")
    case True
    then obtain v where v: "e = LPush v" by blast
    have "lp_pc ?c = PIdle" "lp_pc ?c' \<noteq> PIdle" "p_left 1 (lp_pc ?c') = 5" using run by (auto simp: v split: if_splits dest!: sym [of _ ?c'])
    with st prod show ?thesis by (auto simp: v mpushes_left_def elim!: on_m_ringE split: if_splits)
  next
    case False
    then have busy: "lp_pc ?c \<noteq> PIdle" "p_left 1 (lp_pc ?c') < p_left 1 (lp_pc ?c)"
      using lp_step_left [OF run ok'(7)] by auto
    then show ?thesis
      using st prod ok'(5) False lp_step_phase [OF run ok'(7)]
      by (cases e) (auto simp: mpushes_left_def check_def elim!: on_m_ringE split: if_splits)
  qed
  with same show ?thesis by (simp add: mloan_left_def)
qed

lemma mloan_run_left:
  "mloan_inv s \<Longrightarrow> mloan_run es s = Some s' \<Longrightarrow> length es + mloan_left s' \<le> mloan_left s"
proof (induction es arbitrary: s)
  case (Cons e es)
  obtain s1 where s1: "mloan_step e s = Some s1" "mloan_run es s1 = Some s'"
    using Cons.prems(2) by (auto split: option.splits)
  have "mloan_left s1 < mloan_left s"
    using s1(1) by (rule mloan_stepE) (rule prod_left cons_left, rule Cons.prems(1), assumption)+
  with Cons.IH [OF mloan_inv_step [OF Cons.prems(1) s1(1)] s1(2)] show ?case by simp
qed simp

text \<open>Whatever thread is not done can make its next access.\<close>

lemma prod_enabled:
  assumes inv: "mloan_inv s" and "\<not> (lp_pc (m_ring s) = PIdle \<and> m_v s = 3 \<and> (m_third s \<or> m_tries s = ATTEMPTS))"
  shows "\<exists>e. prod_step e s \<noteq> None"
proof (cases "lp_pc (m_ring s)")
  note ok = mloan_invD [OF inv]
  note prod = ok(3) [unfolded mloan_prod_def Let_def] and p = linvD(1) [OF ok(1)]
  note simps = on_m_ring_def lstep_def
  {
    case PIdle
    have v: "\<not> m_third s" "m_tries s < ATTEMPTS" if "m_v s = 3" using assms(2) prod PIdle that by auto
    consider "m_v s \<le> 2" | "m_v s = 3" using prod by linarith
    then show ?thesis
      by cases (use v PIdle ok(7) in \<open>auto simp: simps intro!: exI [of _ "LPush (m_v s)"]\<close>)
  next
    case (PScan v w j m)
    consider "j < 1" | "j = 1" using prod_okD(8) [OF p] PScan by fastforce
    then show ?thesis
    proof cases
      case 1
      then show ?thesis using PScan ok(7) prod_okD(4) [OF p, of 0]
        by (intro exI [of _ "LScan (lp_seen (m_ring s) 0)"]) (auto simp: simps case_prod_beta Let_def)
    next
      case 2
      then show ?thesis using PScan ok(7) by (intro exI [of _ LDecide]) (simp add: simps)
    qed
  next
    case (PWrite v w)
    then show ?thesis using ok(7) by (intro exI [of _ LWrite]) (simp add: simps Let_def)
  next
    case (PPublish v w)
    then show ?thesis using ok(7) by (intro exI [of _ LPublish]) (simp add: simps)
  next
    case PCount
    then show ?thesis using ok(7) by (intro exI [of _ LCount]) (simp add: simps)
  }
qed

lemma claim_enabled:
  assumes inv: "mloan_inv s" and pc: "lc_pc (m_ring s) 0 \<noteq> CIdle"
  shows "\<exists>e. cons_step e s \<noteq> None"
proof -
  note ok = mloan_invD [OF inv]
  let ?c = "m_ring s"
  have r: "reader_ok 0 (rlog ?c) (length (lpub ?c)) (cmsgs ?c 0) (lc_pc ?c 0) (lc_clock ?c 0) (w_seen ?c 0) (c_seen ?c 0)
      (dvals ?c 0) (d_seen ?c 0) (bvals ?c 0) (loans ?c 0) (gone ?c 0)"
    by (rule linvD(2) [OF ok(1)]) simp
  have seen: "w_seen ?c 0 < length (wmsgs ?c)" "c_seen ?c 0 < length (cmsgs ?c 0)" "b_seen ?c 0 < length (bvals ?c 0)"
    using reader_okD(2,4) [OF r] cmsgs_okD(1) [OF reader_okD(1) [OF r]] prod_okD(2) [OF linvD(1) [OF ok(1)]]
      m_pc_ok_shape [OF ok(4)]
    by (auto simp: loan_shape_def less_Suc_eq_le length_greater_0_conv [symmetric] simp del: length_greater_0_conv)
  have "\<exists>b. claim_pc b (lc_pc ?c 0)" using ok(4) pc by (cases "m_pc s") auto
  then show ?thesis
    using seen ok(7) pc
    by (cases "lc_pc ?c 0")
      (auto simp: on_m_ring_def lstep_def case_prod_beta Let_def
         intro: exI [of _ "CLoadW 0 (w_seen ?c 0)"] exI [of _ "CLoadCursor 0 (c_seen ?c 0)"]
         exI [of _ "CLoadBase 0 (b_seen ?c 0)"] exI [of _ "CCas 0 False"] exI [of _ "CNone 0"])
qed

lemma loan_enabled:
  assumes inv: "mloan_inv s" and pc: "lc_pc (m_ring s) 0 = CIdle" and "\<not> returned (m_pc s)"
  shows "\<exists>e. cons_step e s \<noteq> None"
proof -
  note ok = mloan_invD [OF inv]
  let ?c = "m_ring s" and ?h = "\<lambda>k. loans (m_ring s) 0 ! k"
  have r: "reader_ok 0 (rlog ?c) (length (lpub ?c)) (cmsgs ?c 0) (lc_pc ?c 0) (lc_clock ?c 0) (w_seen ?c 0) (c_seen ?c 0)
      (dvals ?c 0) (d_seen ?c 0) (bvals ?c 0) (loans ?c 0) (gone ?c 0)"
    by (rule linvD(2) [OF ok(1)]) simp
  have seen: "h_seen (?h k) < length (cmsgs ?c 0)" if "k < length (loans ?c 0)" for k
    using reader_okD(8) [OF r, of "?h k"] that cmsgs_okD(1) [OF reader_okD(1) [OF r]]
    by (auto simp: holder_ok_def less_Suc_eq_le Suc_le_eq [symmetric] neq_Nil_conv)
  note simps = on_m_ring_def lstep_def case_prod_beta Let_def loan_shape_def one_loan two_loans
  show ?thesis
  proof (cases "m_pc s")
    case (MTry k)
    then show ?thesis using ok(4,7) pc assms(3) by (intro exI [of _ "CClaim 0"]) (simp add: simps)
  next
    case MTry2
    then show ?thesis using ok(7) pc by (intro exI [of _ "CClaim 0"]) (simp add: simps)
  next
    case MValue
    then show ?thesis using ok(4,7) pc by (intro exI [of _ "HDeref 0 0"]) (auto simp: simps)
  next
    case MCommit2
    then show ?thesis using ok(4,7) pc seen [of 1] by (intro exI [of _ "HCursor 0 1 (h_seen (?h 1)) False"]) (auto simp: simps)
  next
    case MDrop2
    then show ?thesis using ok(4,7) pc seen [of 1] by (intro exI [of _ "HCursor 0 1 (h_seen (?h 1)) True"]) (auto simp: simps)
  next
    case MResolve2
    then show ?thesis using ok(4,7) pc by (intro exI [of _ "HResolve 0 1"]) (auto simp: simps)
  next
    case MCommit
    then show ?thesis using ok(4,7) pc seen [of 0] by (intro exI [of _ "HCursor 0 0 (h_seen (?h 0)) False"]) (auto simp: simps)
  next
    case MStore
    then show ?thesis using ok(4,7) pc by (intro exI [of _ "HStore 0 0"]) (auto simp: simps)
  next
    case MResolve
    then show ?thesis using ok(4,7) pc by (intro exI [of _ "HResolve 0 0"]) (auto simp: simps)
  qed (use ok(4) pc assms(3) in simp_all)
qed

lemma mloan_enabled:
  assumes "mloan_inv s" and "\<not> mloan_done s"
  shows "\<exists>e. mloan_step e s \<noteq> None"
proof -
  have "mloan_done s" if "lp_pc (m_ring s) = PIdle \<and> m_v s = 3 \<and> (m_third s \<or> m_tries s = ATTEMPTS)" "returned (m_pc s)"
    using that by (simp add: mloan_done_def)
  then have "(\<exists>e. prod_step e s \<noteq> None) \<or> (\<exists>e. cons_step e s \<noteq> None)"
    using assms(2) prod_enabled [OF assms(1)] claim_enabled [OF assms(1)] loan_enabled [OF assms(1)] by blast
  then show ?thesis using mloan_step_simps by fast
qed

text \<open>
  C30. Model 3 passes: an open loan holds the producer back. In every interleaving no assertion fails: the first claim is index 0 and
  reads 1, the second is index 1, its commit is rejected and the commit of the first succeeds; if the third push
  succeeded the cursor had been stored; no access races, the two first messages are always written,
  and every execution ends after at most 57 accesses, with both threads joined.
\<close>

theorem loan_model_passes:
  assumes "mloan_run es (mloan_init junk) = Some s"
  shows "\<not> m_failed s \<and> \<not> lcrashed (m_ring s) \<and> \<not> lraced (m_ring s)
    \<and> (m_third s \<longrightarrow> 1 \<le> fst (last (cmsgs (m_ring s) 0)))
    \<and> (mloan_done s \<longrightarrow> 2 \<le> length (lpub (m_ring s)))
    \<and> length es \<le> 57 \<and> (mloan_done s \<or> (\<exists>e. mloan_step e s \<noteq> None))"
proof -
  have inv: "mloan_inv s" by (rule mloan_inv_run [OF mloan_inv_init assms])
  note ok = mloan_invD [OF inv]
  note prod = ok(3) [unfolded mloan_prod_def Let_def] and p = linvD(1) [OF ok(1)]
  note r = linvD(2) [OF ok(1), of 0, simplified]
  have "mloan_left (mloan_init junk) = 57"
    by (simp add: mloan_left_def mpushes_left_def mloan_init_def lsys_init_def ATTEMPTS_def)
  then have "length es \<le> 57" using mloan_run_left [OF mloan_inv_init assms] by simp
  moreover have "1 \<le> fst (last (cmsgs (m_ring s) 0))" if "m_third s"
  proof -
    have "length (lpub (m_ring s)) = 3" "lp_pc (m_ring s) = PIdle" using prod that by auto
    then have "3 \<le> cursor (cmsgs (m_ring s) 0) + 2"
      using prod_okD(6) [OF p, of 0] prod_okD(8) [OF p] by simp
    then show ?thesis using cmsgs_okD(1,2) [OF reader_okD(1) [OF r]] by (simp add: last_conv_nth)
  qed
  moreover have "2 \<le> length (lpub (m_ring s))" if "mloan_done s"
    using that prod by (auto simp: mloan_done_def)
  ultimately show ?thesis using ok(5,7) linvD(4) [OF ok(1)] mloan_enabled [OF inv] by blast
qed

text \<open>Two pushes, two claims, the commits in both orders, the third push.\<close>

definition mloan_events :: "nat levent list" where
  "mloan_events =
     [LPush 1, LScan 0, LDecide, LWrite, LPublish, CClaim 0, CLoadW 0 1, CLoadCursor 0 0, CLoadBase 0 0, CCas 0 False,
      LCount, HDeref 0 0, LPush 2, LScan 0, LDecide, LWrite, LPublish, LCount,
      CClaim 0, CLoadW 0 2, CLoadCursor 0 0, CLoadBase 0 1, CCas 0 False, LPush 3, LScan 0, LDecide,
      HCursor 0 1 0 False, HCursor 0 1 0 True, HResolve 0 1, HCursor 0 0 0 False, HStore 0 0,
      LPush 3, LScan 1, LDecide, LWrite, LPublish, LCount, HResolve 0 0]"

theorem loan_model_passes_witness:
  "\<exists>s. mloan_run mloan_events (mloan_init (\<lambda>_. 0)) = Some s \<and> m_third s \<and> mloan_done s \<and> \<not> m_failed s
     \<and> 1 \<le> fst (last (cmsgs (m_ring s) 0))"
proof -
  have "case mloan_run mloan_events (mloan_init (\<lambda>_. 0)) of None \<Rightarrow> False | Some s \<Rightarrow> m_third s \<and> mloan_done s"
    by (simp add: mloan_events_def mloan_init_def mloan_step_def mloan_done_def on_m_ring_def check_def claimed_index_def
        ATTEMPTS_def loan_run_simps)
  then obtain s where s: "mloan_run mloan_events (mloan_init (\<lambda>_. 0)) = Some s" "m_third s" "mloan_done s"
    by (auto split: option.splits)
  with loan_model_passes [OF s(1)] show ?thesis by blast
qed

end
