(* ===== verification/Handles.thy ===== *)
theory Handles
  imports File_Props
begin

text \<open>
  Several handles on one ring file, which is what the crate is for: the producer creates the file in
  one process, readers open it in others, and each pushes or pops through a handle of its own. The
  mapping is shared, the capacity, path, claim pipelines and loan counters are each handle's, and each process
  may have been built with or without overflow checks. Together the handles are one more
  implementation of the stream.
\<close>

section \<open>Operations through one of several handles\<close>

text \<open>Handle \<open>k\<close> runs an operation; every handle sees what it leaves in the mapping.\<close>

definition via :: "nat \<Rightarrow> (SpmcRingBuffer, 'e, 'a) act \<Rightarrow> (SpmcRingBuffer list, 'e, 'a) act" where
  "via k m hs =
     (case m (hs ! k) of (x, r) \<Rightarrow> (x, map (\<lambda>h. h\<lparr>mmap := mmap r\<rparr>) (hs[k := r])))"

lemma length_via [simp]: "length (snd (via k m hs)) = length hs"
  by (simp add: via_def case_prod_beta)

text \<open>
  Handles of one file that hold one stream. Reader \<open>i\<close> lives in the process with handle
  \<open>home i\<close>.
\<close>

definition handles_rel :: "'a pod \<Rightarrow> nat \<Rightarrow> (nat \<Rightarrow> nat) \<Rightarrow> SpmcRingBuffer list \<Rightarrow> 'a stream \<Rightarrow> bool" where
  "handles_rel T cap home hs S \<longleftrightarrow>
     hs \<noteq> [] \<and> (\<forall>h \<in> set hs. file_rel T cap h S \<and> mmap h = mmap (hs ! 0)) \<and> (\<forall>i < length (cursors S). home i < length hs)"

lemma file_rel_mmap:
  assumes "file_rel T cap r S" and "file_rel T cap h S'"
  shows "file_rel T cap (h\<lparr>mmap := mmap r\<rparr>) S"
proof -
  have "capacity h = capacity r"
    using assms by (simp add: file_rel_def queue_rel_def word_unat_eq_iff)
  with assms show ?thesis
    by (auto simp: file_rel_def queue_rel_def ring_rel_def ring_wf_def layout_ok_def no_loans_def)
qed

lemma via_refines:
  assumes rel: "handles_rel T cap home hs S" and k: "k < length hs"
    and run: "\<exists>r'. m (hs ! k) = (Done x, r') \<and> file_rel T cap r' S'" and S': "length (cursors S') = length (cursors S)"
  shows "\<exists>hs'. via k m hs = (Done x, hs') \<and> handles_rel T cap home hs' S'"
proof -
  obtain r' where r': "m (hs ! k) = (Done x, r')" "file_rel T cap r' S'" using run by blast
  let ?hs = "map (\<lambda>h. h\<lparr>mmap := mmap r'\<rparr>) (hs[k := r'])"
  have "file_rel T cap (h\<lparr>mmap := mmap r'\<rparr>) S'" if "h \<in> set (hs[k := r'])" for h
  proof -
    have "h = r' \<or> h \<in> set hs" using that set_update_subset_insert by fastforce
    then show ?thesis using r'(2) file_rel_mmap [OF r'(2)] rel by (auto simp: handles_rel_def)
  qed
  then have "handles_rel T cap home ?hs S'"
    using rel S' by (auto simp: handles_rel_def)
  with r'(1) show ?thesis by (simp add: via_def)
qed

interpretation handles: spmc_queue "\<lambda>v. via 0 (try_push (bs 0) T v)" "\<lambda>i. via (home i) (try_pop (bs (home i)) T (of_nat i))"
  "handles_rel T cap home" cap "2 ^ 64 - 1"
proof unfold_locales
  fix hs S
  assume "handles_rel T cap home hs S"
  then have "file_rel T cap (hs ! 0) S" by (simp add: handles_rel_def)
  then show "stream_ok cap S" by (rule durable.rel_ok)
next
  fix hs S v
  assume rel: "handles_rel T cap home hs S" and bound: "length (msgs S) < 2 ^ 64 - 1"
  then have "file_rel T cap (hs ! 0) S" by (simp add: handles_rel_def)
  from durable.push_refines [OF this bound, of "bs 0" v] rel
  show "\<exists>hs'. via 0 (try_push (bs 0) T v) hs = (Done (fst (stream_push cap v S)), hs')
      \<and> handles_rel T cap home hs' (snd (stream_push cap v S))"
    by (intro via_refines [OF rel]) (auto simp: handles_rel_def)
next
  fix hs S i
  assume rel: "handles_rel T cap home hs S" and i: "i < length (cursors S)"
  then have k: "home i < length hs" "file_rel T cap (hs ! home i) S" by (auto simp: handles_rel_def)
  from durable.pop_refines [OF k(2) i, of "bs (home i)"]
  show "\<exists>hs'. via (home i) (try_pop (bs (home i)) T (of_nat i)) hs = (Done (fst (stream_pop i S)), hs')
      \<and> handles_rel T cap home hs' (snd (stream_pop i S))"
    by (intro via_refines [OF rel k(1)]) auto
qed

section \<open>Processes\<close>

lemma handles_opened:
  assumes "file_rel T cap r S" and "file_rel T cap r' S" and "mmap r' = mmap r" and "\<forall>i < length (cursors S). home i \<le> k"
  shows "handles_rel T cap home (r # replicate k r') S"
  using assms by (auto simp: handles_rel_def)

text \<open>
  C3. Processes share the stream. A ring created in one process and opened in \<open>k\<close> others, each in a build
  of its own, answers every sequence of pushes by the creator and pops by readers spread over the
  processes exactly as the abstract stream does.
\<close>

theorem processes_share_stream:
  assumes "pod_type T" and "pod_align T \<le> 64" and "0 < pod_size T" and "is_power_of_two c" and "c \<noteq> 1"
    and "1 \<le> n" and "n \<le> MAX_READERS" and "256 + unat c * unat (pod_size T) < 2 ^ 64"
    and "fs p = None" and "os_grants os p" and "\<forall>i < unat n. home i \<le> k"
    and "list_all (op_valid (unat n)) ops" and "push_count ops \<le> 2 ^ 64 - 1"
  shows "\<exists>r fs' r' hs. create_new_with_readers (bs 0) T os p c n fs = (Done r, fs')
    \<and> (\<forall>j. open_existing (bs j) T os p fs' = Done r')
    \<and> run_ops (\<lambda>v. via 0 (try_push (bs 0) T v)) (\<lambda>i. via (home i) (try_pop (bs (home i)) T (of_nat i))) ops
        (r # replicate k r')
      = (Done (fst (stream_run (unat c) ops (stream_new (unat n)))), hs)"
proof -
  obtain r where r: "create_new_with_readers (bs 0) T os p c n fs = (Done r, fs(p \<mapsto> bytes_of (mmap r)))"
    "file_rel T (unat c) r (stream_new (unat n))"
    by (rule create_file_rel [where fs = fs and p = p and os = os and b = "bs 0", OF assms(1-4,6-10)])
  let ?S = "stream_new (unat n) :: 'a stream" and ?fs = "fs(p \<mapsto> bytes_of (mmap r))"
  let ?r = "new_handle (mmap r) (capacity r) p"
  have c: "unat c \<noteq> 1" using assms(5) by (simp add: word_unat_eq_iff)
  have op: "open_existing b T os p ?fs = Done ?r" and rel: "file_rel T (unat c) ?r ?S" for b
    using reopen [OF r(2) c assms(2,3,10), of ?fs] by simp_all
  have "handles_rel T (unat c) home (r # replicate k ?r) ?S"
    by (rule handles_opened [OF r(2) rel]) (use assms(11) in \<open>simp_all add: new_handle_def stream_new_def\<close>)
  from handles.run_refines [OF this, of ops bs] assms(12,13)
  obtain hs where "run_ops (\<lambda>v. via 0 (try_push (bs 0) T v)) (\<lambda>i. via (home i) (try_pop (bs (home i)) T (of_nat i))) ops
        (r # replicate k ?r) = (Done (fst (stream_run (unat c) ops ?S)), hs)"
    by (auto simp: stream_new_def)
  with r(1) op show ?thesis by blast
qed

text \<open>A release-build producer, one reader in its own process and one in a process built with overflow checks.\<close>

theorem processes_share_stream_witness:
  "\<exists>r fs' r' hs. create_new_with_readers Release u64_pod quiet_os ''ring'' 2 2 Map.empty = (Done r, fs')
     \<and> open_existing Debug u64_pod quiet_os ''ring'' fs' = Done r'
     \<and> run_ops (\<lambda>v. via 0 (try_push Release u64_pod v))
         (\<lambda>i. via i (try_pop (if i = 0 then Release else Debug) u64_pod (of_nat i))) [Push 7, Pop 1, Push 9, Pop 1, Pop 0] [r, r']
       = (Done [Pushed True, Popped (Some 7), Pushed True, Popped (Some 9), Popped (Some 7)], hs)"
proof -
  let ?ops = "[Push 7, Pop 1, Push 9, Pop 1, Pop 0] :: u64 ring_op list"
  have "list_all (op_valid 2) ?ops" "push_count ?ops \<le> 2 ^ 64 - 1" by (simp_all add: op_valid_def)
  moreover have "fst (stream_run 2 ?ops (stream_new 2))
      = [Pushed True, Popped (Some 7), Pushed True, Popped (Some 9), Popped (Some 7)]"
    by code_simp
  moreover have "\<forall>i < unat (2 :: usize). i \<le> 1" by simp
  moreover let ?bs = "\<lambda>i :: nat. if i = 0 then Release else Debug"
  obtain r fs' r' hs where "create_new_with_readers (?bs 0) u64_pod quiet_os ''ring'' 2 2 Map.empty = (Done r, fs')"
    and op: "\<forall>j. open_existing (?bs j) u64_pod quiet_os ''ring'' fs' = Done r'"
    and "run_ops (\<lambda>v. via 0 (try_push (?bs 0) u64_pod v)) (\<lambda>i. via i (try_pop (?bs i) u64_pod (of_nat i))) ?ops
        (r # replicate 1 r') = (Done (fst (stream_run (unat (2 :: usize)) ?ops (stream_new (unat (2 :: usize))))), hs)"
    using processes_share_stream [where bs = ?bs and n = 2 and k = 1 and home = "\<lambda>i. i" and ops = ?ops,
        OF u64_pod.pod_type_axioms sample_args(1,2) power_of_two_2 _ sample_args(3,4) _ sample_args(5,6)] calculation
    by auto
  moreover from op have "open_existing (?bs 1) u64_pod quiet_os ''ring'' fs' = Done r'" by blast
  ultimately show ?thesis by auto
qed

end
