(* ===== verification/Fuzz.thy ===== *)
theory Fuzz
  imports Handles
begin

text \<open>
  The fuzz targets (\<open>fuzz/fuzz_targets/\<close>): the program each runs on the fuzzer's bytes, with
  its assertions, and for which inputs it fails one. \<open>fuzz_open\<close> drives the constructors,
  \<open>fuzz_ring\<close> a producer handle and a reader handle against an oracle. A temporary directory is a
  prefix of paths under which nothing exists.
\<close>

section \<open>Vocabulary\<close>

text \<open>\<open>match\<close> on a \<open>Result\<close>, \<open>assert!\<close>, and what a file name or an integer is made of.\<close>

definition match_result ::
  "('s, 'e, 'a) act \<Rightarrow> ('a \<Rightarrow> ('s, 'e, 'b) act) \<Rightarrow> ('e \<Rightarrow> ('s, 'e, 'b) act) \<Rightarrow> ('s, 'e, 'b) act" where
  "match_result m on_ok on_err s =
     (case m s of (r, s') \<Rightarrow>
       (case r of Done x \<Rightarrow> on_ok x s' | Fail e \<Rightarrow> on_err e s' | Panic \<Rightarrow> (Panic, s') | Fault \<Rightarrow> (Fault, s')))"

definition panic :: "('s, 'e, 'a) act" where
  "panic = lift_out Panic"

definition assert_that :: "bool \<Rightarrow> ('s, 'e, unit) act" where
  "assert_that b = (if b then ret () else panic)"

definition unwrap :: "('s, 'e, 'a) act \<Rightarrow> ('s, 'e, 'a) act" where
  "unwrap m = match_result m ret (\<lambda>_. panic)"

definition byte_at :: "nat \<Rightarrow> u8 list \<Rightarrow> u8" where
  "byte_at k bs = (if k < length bs then bs ! k else 0)"

definition hex_byte :: "u8 \<Rightarrow> string" where
  "hex_byte w = map (\<lambda>d. ''0123456789abcdef'' ! d) [unat w div 16, unat w mod 16]"

lemma match_result_simps:
  "m s = (Done x, s') \<Longrightarrow> match_result m f g s = f x s'" "m s = (Fail e, s') \<Longrightarrow> match_result m f g s = g e s'"
  by (simp_all add: match_result_def)

section \<open>The constructors\<close>

definition fuzz_name :: "u8 list \<Rightarrow> string" where
  "fuzz_name bs = (let name = concat (map hex_byte (take 4 bs)) in if name = [] then ''empty'' else name)"

definition raw_capacity :: "u8 list \<Rightarrow> usize" where
  "raw_capacity bs = ucast (of_le [byte_at 0 bs, byte_at 1 bs, byte_at 2 bs, byte_at 3 bs] :: u32)"

definition pow2_capacity :: "u8 list \<Rightarrow> usize" where
  "pow2_capacity bs = push_bit (unat (byte_at 0 bs) mod 12) 1"

definition fuzz_open :: "build \<Rightarrow> os_env \<Rightarrow> string \<Rightarrow> u8 list \<Rightarrow> (fs, ShmRingError, unit) act" where
  "fuzz_open b os dir bs =
     (let p = dir @ ''/'' @ fuzz_name bs; raw = raw_capacity bs; pow2 = pow2_capacity bs;
          missing = dir @ ''/does-not-exist'' in
      bind_act
        (match_result (create_new b u64_pod os p pow2)
          (\<lambda>ring.
            bind_act (assert_that (capacity ring = pow2)) (\<lambda>_.
            bind_act (assert_that (path ring = p)) (\<lambda>_.
            bind_act (match_result (create_new b u64_pod os p pow2) (\<lambda>_. panic)
                (\<lambda>e. if e = AlreadyExists then ret () else panic)) (\<lambda>_.
            bind_act (unwrap (asks (open_existing b u64_pod os p))) (\<lambda>opened.
            assert_that (capacity opened = pow2))))))
          (\<lambda>e. case e of AlreadyExists \<Rightarrow> ret () | Io k \<Rightarrow> ret () | _ \<Rightarrow> panic)) (\<lambda>_.
      bind_act
        (match_result (create_new b u64_pod os p raw) (\<lambda>_. ret ())
          (\<lambda>e. assert_that (case e of InvalidCapacity c \<Rightarrow> True | AlreadyExists \<Rightarrow> True | Io k \<Rightarrow> True | _ \<Rightarrow> False))) (\<lambda>_.
      match_result (asks (open_existing b u64_pod os missing)) (\<lambda>_. panic)
        (\<lambda>e. case e of Io k \<Rightarrow> ret () | _ \<Rightarrow> panic))))"

lemma pow2_capacity_eq: "pow2_capacity bs = 2 ^ (unat (byte_at 0 bs) mod 12)"
  by (simp add: pow2_capacity_def push_bit_eq_mult)

lemma pow2_capacity:
  "is_power_of_two (pow2_capacity bs)" "unat (pow2_capacity bs) = 2 ^ (unat (byte_at 0 bs) mod 12)"
  "pow2_capacity bs = 1 \<longleftrightarrow> unat (byte_at 0 bs) mod 12 = 0"
proof -
  let ?k = "unat (byte_at 0 bs) mod 12"
  have k: "?k < 12" by simp
  show u: "unat (pow2_capacity bs) = 2 ^ ?k" using k by (simp add: pow2_capacity_eq unat_pow2)
  then show "is_power_of_two (pow2_capacity bs)"
    using k by (auto simp: is_power_of_two_iff intro!: exI [of _ ?k])
  have "pow2_capacity bs = 1 \<longleftrightarrow> unat (pow2_capacity bs) = 1" by (simp add: word_unat_eq_iff)
  then show "pow2_capacity bs = 1 \<longleftrightarrow> ?k = 0" by (simp only: u) simp
qed

text \<open>Once the file exists every creation is refused, one way or the other.\<close>

lemma create_refused:
  assumes "fs p \<noteq> None"
  shows "create_new b u64_pod os p c fs = (Fail (if c = 0 \<or> \<not> is_power_of_two c then InvalidCapacity c else AlreadyExists), fs)"
  using assms by (auto simp: create_new_def create_new_with_readers_def act_simps MAX_READERS_def)

lemma fuzz_name_not_missing: "fuzz_name bs \<noteq> ''does-not-exist''"
proof
  assume a: "fuzz_name bs = ''does-not-exist''"
  have "length (hex_byte w) = 2" for w by (simp add: hex_byte_def)
  then have "length (concat (map hex_byte xs)) = 2 * length xs" for xs by (induction xs) simp_all
  then have "length (fuzz_name bs) \<le> 8" by (auto simp: fuzz_name_def Let_def)
  then show False using a by simp
qed

text \<open>
  C33. What the constructor target finds: in a fresh directory, with an operating system that refuses nothing, it fails
  exactly when the first input byte (0 when there is none) is a multiple of 12, since the
  ring of capacity 1 that it then creates does not open; so it fails on the empty input.
\<close>

theorem fuzz_open_fails_iff:
  assumes "\<And>name. fs (dir @ ''/'' @ name) = None" and "\<And>name. os_grants os (dir @ ''/'' @ name)"
  shows "fst (fuzz_open b os dir bs fs) = (if unat (byte_at 0 bs) mod 12 = 0 then Panic else Done ())"
proof -
  let ?p = "dir @ ''/'' @ fuzz_name bs" and ?c = "pow2_capacity bs"
  have "unat ?c \<le> 2 ^ 11"
    using power_increasing [of "unat (byte_at 0 bs) mod 12" 11 "2 :: nat"] by (simp add: pow2_capacity(2))
  then have small: "256 + unat ?c * unat (pod_size u64_pod) < 2 ^ 64" by simp
  have n: "1 \<le> MAX_READERS" "MAX_READERS \<le> MAX_READERS" by (simp_all add: MAX_READERS_def)
  have fresh: "fs ?p = None" "os_grants os ?p" using assms by blast+
  note args = u64_pod.pod_type_axioms sample_args(1,2) pow2_capacity(1) [of bs] n small fresh
  obtain r where r: "create_new b u64_pod os ?p ?c fs = (Done r, fs(?p \<mapsto> bytes_of (mmap r)))"
    "capacity r = ?c" "path r = ?p"
    unfolding create_new_def by (rule create_success [where b = b and fs = fs and p = ?p and os = os, OF args])
  let ?fs = "fs(?p \<mapsto> bytes_of (mmap r))"
  have op: "open_existing b u64_pod os ?p ?fs = (if ?c = 1 then Fail (HeaderCorruption ''capacity_mask'' 0 0) else Done r)"
    by (rule create_open [OF args r(1) [unfolded create_new_def]])
  have ref: "create_new b u64_pod os ?p c ?fs = (Fail (if c = 0 \<or> \<not> is_power_of_two c then InvalidCapacity c else AlreadyExists), ?fs)" for c
    by (rule create_refused) simp
  have ref2: "create_new b u64_pod os ?p ?c ?fs = (Fail AlreadyExists, ?fs)"
    using ref [of ?c] pow2_capacity(1) [of bs] is_power_of_two_nonzero [OF pow2_capacity(1) [of bs]] by simp
  have "?fs (dir @ ''/does-not-exist'') = None"
    using assms(1) [of "''does-not-exist''"] fuzz_name_not_missing [of bs] by auto
  then have missing: "open_existing b u64_pod os (dir @ ''/does-not-exist'') ?fs = Fail (Io IoNotFound)"
    by (simp add: open_existing_def)
  note run = fuzz_open_def Let_def bind_act_def match_result_def assert_that_def unwrap_def panic_def
  show ?thesis
  proof (cases "?c = 1")
    case True
    then show ?thesis using op r ref2 pow2_capacity(3) [of bs]
      by (simp add: run act_simps)
  next
    case False
    then show ?thesis using op r ref2 ref [of "raw_capacity bs"] missing pow2_capacity(3) [of bs]
      by (simp add: run act_simps)
  qed
qed

theorem fuzz_open_fails_iff_witness:
  "fst (fuzz_open Debug quiet_os ''/tmp/x'' [] Map.empty) = Panic
   \<and> fst (fuzz_open Release quiet_os ''/tmp/x'' [12, 7] Map.empty) = Panic
   \<and> fst (fuzz_open Debug quiet_os ''/tmp/x'' [3, 255] Map.empty) = Done ()"
  using fuzz_open_fails_iff [of Map.empty "''/tmp/x''" quiet_os]
  by (simp add: byte_at_def)

section \<open>Pushes and pops\<close>

text \<open>
  The locals of the target: the producer's handle and the reader's, the accepted values, the
  index each of the three readers is at, and the last total.
\<close>

record fuzz =
  fz_handles :: "SpmcRingBuffer list"
  fz_pushed :: "u64 list"
  fz_next :: "nat list"
  fz_total :: u64

definition CAPACITY :: usize where "CAPACITY = 4"
definition READERS :: nat where "READERS = 3"

definition on_handle :: "nat \<Rightarrow> (SpmcRingBuffer, ShmRingError, 'a) act \<Rightarrow> (fuzz, ShmRingError, 'a) act" where
  "on_handle k m s = (case via k m (fz_handles s) of (x, hs) \<Rightarrow> (x, s\<lparr>fz_handles := hs\<rparr>))"

definition check_lag :: "(fuzz, ShmRingError, unit) act" where
  "check_lag = bind_act (asks (\<lambda>s. slowest_lag (fz_handles s ! 0))) (\<lambda>lag. assert_that (lag \<le> CAPACITY))"

definition fuzz_push :: "build \<Rightarrow> u64 \<Rightarrow> (fuzz, ShmRingError, unit) act" where
  "fuzz_push b v =
     bind_act (on_handle 0 (try_push b u64_pod v)) (\<lambda>pushed.
     if pushed then modify (\<lambda>s. s\<lparr>fz_pushed := fz_pushed s @ [v]\<rparr>) else check_lag)"

definition fuzz_pop :: "build \<Rightarrow> nat \<Rightarrow> (fuzz, ShmRingError, unit) act" where
  "fuzz_pop b i =
     bind_act (unwrap (on_handle 1 (try_pop b u64_pod (of_nat i)))) (\<lambda>got.
     bind_act (gets (\<lambda>s. (fz_next s ! i, fz_pushed s))) (\<lambda>(k, pushed).
     if k < length pushed
     then bind_act (assert_that (got = Some (pushed ! k))) (\<lambda>_.
          modify (\<lambda>s. s\<lparr>fz_next := (fz_next s)[i := Suc k]\<rparr>))
     else assert_that (got = None)))"

definition check_total :: "(fuzz, ShmRingError, unit) act" where
  "check_total =
     bind_act (gets (\<lambda>s. (total_written (rhdr (fz_handles s ! 0)), fz_total s))) (\<lambda>(total, prev).
     bind_act (assert_that (prev \<le> total)) (\<lambda>_.
     bind_act (modify (\<lambda>s. s\<lparr>fz_total := total\<rparr>)) (\<lambda>_. check_lag)))"

definition next_byte :: "u8 list \<Rightarrow> u8" where
  "next_byte bs = (case bs of [] \<Rightarrow> 0 | x # xs \<Rightarrow> x)"

fun fuzz_loop :: "build \<Rightarrow> u8 list \<Rightarrow> (fuzz, ShmRingError, unit) act" where
  "fuzz_loop b [] = ret ()"
| "fuzz_loop b (op # bs) =
     (let k = unat op mod 4 in
      bind_act
        (if k \<le> 1 then fuzz_push b (ucast (next_byte bs))
         else if k = 2 then fuzz_pop b (unat (next_byte bs) mod READERS)
         else ret ()) (\<lambda>_.
      bind_act check_total (\<lambda>_. fuzz_loop b (if k \<le> 2 then tl bs else bs))))"

definition fuzz_ring :: "build \<Rightarrow> os_env \<Rightarrow> string \<Rightarrow> u8 list \<Rightarrow> (fs, ShmRingError, fuzz) act" where
  "fuzz_ring b os dir bs =
     (let p = dir @ ''/fuzz.ring'' in
      bind_act (unwrap (create_new b u64_pod os p CAPACITY)) (\<lambda>ring.
      bind_act (unwrap (asks (open_existing b u64_pod os p))) (\<lambda>reader.
      lift_out
        (case fuzz_loop b bs \<lparr>fz_handles = [ring, reader], fz_pushed = [], fz_next = replicate READERS 0, fz_total = 0\<rparr> of
           (x, s) \<Rightarrow> bind_out x (\<lambda>_. Done s)))))"

text \<open>The oracle is the stream; the five readers that nobody pops for stay at 0.\<close>

definition fuzz_rel :: "fuzz \<Rightarrow> u64 stream \<Rightarrow> bool" where
  "fuzz_rel s S \<longleftrightarrow>
     handles_rel u64_pod 4 (\<lambda>_. 1) (fz_handles s) S \<and> msgs S = fz_pushed s
     \<and> length (cursors S) = 8 \<and> cursors S ! 7 = 0 \<and> length (fz_next s) = READERS
     \<and> (\<forall>i < READERS. cursors S ! i = fz_next s ! i)"

definition fuzz_inv :: "fuzz \<Rightarrow> bool" where
  "fuzz_inv s \<longleftrightarrow> (\<exists>S. fuzz_rel s S) \<and> unat (fz_total s) \<le> length (fz_pushed s)"

text \<open>An action that returns and keeps the invariant.\<close>

definition passes :: "(fuzz, ShmRingError, 'a) act \<Rightarrow> bool" where
  "passes m \<longleftrightarrow> (\<forall>s. fuzz_inv s \<longrightarrow> (\<exists>x s'. m s = (Done x, s') \<and> fuzz_inv s'))"

lemma passes_bind: "passes m \<Longrightarrow> (\<And>x. passes (f x)) \<Longrightarrow> passes (bind_act m f)"
  unfolding passes_def by (metis bind_act_Done)

lemma passes_ret: "passes (ret x)"
  by (simp add: passes_def act_simps)

lemma fuzz_few:
  assumes "fuzz_rel s S"
  shows "slowest S = 0" "length (fz_pushed s) \<le> 4"
proof -
  have rel: "handles_rel u64_pod 4 (\<lambda>_. 1) (fz_handles s) S" and c: "cursors S ! 7 = 0" "length (cursors S) = 8"
    and m: "msgs S = fz_pushed s"
    using assms by (simp_all add: fuzz_rel_def)
  show z: "slowest S = 0" using slowest_le [of 7 S] c by simp
  then show "length (fz_pushed s) \<le> 4" using stream_okD(3) [OF handles.rel_ok [OF rel]] m by simp
qed

lemma check_lag_Done:
  assumes "fuzz_rel s S"
  shows "check_lag s = (Done (), s)"
proof -
  have "file_rel u64_pod 4 (fz_handles s ! 0) S" using assms by (simp add: fuzz_rel_def handles_rel_def)
  then have "ring_rel u64_pod (fz_handles s ! 0) S" by (simp add: file_rel_def queue_rel_def)
  then obtain n where n: "slowest_lag (fz_handles s ! 0) = Done n" "unat n = length (msgs S) - slowest S"
    using slowest_lag_exec by blast
  then have "n \<le> CAPACITY" using fuzz_few [OF assms] assms by (simp add: fuzz_rel_def CAPACITY_def word_le_nat_alt)
  with n(1) show ?thesis by (simp add: check_lag_def act_simps assert_that_def)
qed

lemma check_total_passes: "passes check_total"
  unfolding passes_def
proof (intro allI impI)
  fix s assume "fuzz_inv s"
  then obtain S where S: "fuzz_rel s S" and t: "unat (fz_total s) \<le> length (fz_pushed s)" by (auto simp: fuzz_inv_def)
  let ?t = "total_written (rhdr (fz_handles s ! 0))"
  have "file_rel u64_pod 4 (fz_handles s ! 0) S" "msgs S = fz_pushed s" using S by (simp_all add: fuzz_rel_def handles_rel_def)
  then have tot: "unat ?t = length (fz_pushed s)" by (simp add: file_rel_def queue_rel_def ring_rel_def)
  then have "fz_total s \<le> ?t" using t by (simp add: word_le_nat_alt)
  moreover have "fuzz_rel (s\<lparr>fz_total := ?t\<rparr>) S" using S by (simp add: fuzz_rel_def)
  moreover from this have "fuzz_inv (s\<lparr>fz_total := ?t\<rparr>)" using tot by (auto simp: fuzz_inv_def)
  ultimately show "\<exists>x s'. check_total s = (Done x, s') \<and> fuzz_inv s'"
    using check_lag_Done [of "s\<lparr>fz_total := ?t\<rparr>" S] by (simp add: check_total_def act_simps assert_that_def)
qed

lemma fuzz_push_passes: "passes (fuzz_push b v)"
  unfolding passes_def
proof (intro allI impI)
  fix s assume "fuzz_inv s"
  then obtain S where S: "fuzz_rel s S" and t: "unat (fz_total s) \<le> length (fz_pushed s)" by (auto simp: fuzz_inv_def)
  have "handles_rel u64_pod 4 (\<lambda>_. 1) (fz_handles s) S" "length (msgs S) < 2 ^ 64 - 1"
    using S fuzz_few [OF S] by (simp_all add: fuzz_rel_def)
  from handles.push_refines [OF this, of "\<lambda>_. b" v] obtain hs where
    hs: "via 0 (try_push b u64_pod v) (fz_handles s) = (Done (fst (stream_push 4 v S)), hs)"
      "handles_rel u64_pod 4 (\<lambda>_. 1) hs (snd (stream_push 4 v S))" by blast
  let ?s = "s\<lparr>fz_handles := hs\<rparr>"
  show "\<exists>x s'. fuzz_push b v s = (Done x, s') \<and> fuzz_inv s'"
  proof (cases "fst (stream_push 4 v S)")
    case True
    then have "fuzz_rel (?s\<lparr>fz_pushed := fz_pushed s @ [v]\<rparr>) (snd (stream_push 4 v S))"
      using S hs(2) by (auto simp: fuzz_rel_def stream_push_def split: if_splits)
    then have "fuzz_inv (?s\<lparr>fz_pushed := fz_pushed s @ [v]\<rparr>)" using t by (auto simp: fuzz_inv_def)
    with True hs(1) show ?thesis by (simp add: fuzz_push_def bind_act_def on_handle_def act_simps)
  next
    case False
    then have rel: "fuzz_rel ?s S"
      using S hs(2) by (auto simp: fuzz_rel_def stream_push_def split: if_splits)
    then have "fuzz_inv ?s" using t by (auto simp: fuzz_inv_def)
    with False hs(1) check_lag_Done [OF rel] show ?thesis by (simp add: fuzz_push_def bind_act_def on_handle_def)
  qed
qed

lemma fuzz_pop_passes:
  assumes i: "i < READERS"
  shows "passes (fuzz_pop b i)"
  unfolding passes_def
proof (intro allI impI)
  fix s assume "fuzz_inv s"
  then obtain S where S: "fuzz_rel s S" and t: "unat (fz_total s) \<le> length (fz_pushed s)" by (auto simp: fuzz_inv_def)
  have rel: "handles_rel u64_pod 4 (\<lambda>_. 1) (fz_handles s) S" and i8: "i < length (cursors S)"
    and m: "msgs S = fz_pushed s" and cur: "cursors S ! i = fz_next s ! i"
    using S i by (simp_all add: fuzz_rel_def READERS_def)
  from handles.pop_refines [OF rel i8, of "\<lambda>_. b"] obtain hs where
    hs: "via 1 (try_pop b u64_pod (of_nat i)) (fz_handles s) = (Done (fst (stream_pop i S)), hs)"
      "handles_rel u64_pod 4 (\<lambda>_. 1) hs (snd (stream_pop i S))" by blast
  let ?s = "s\<lparr>fz_handles := hs\<rparr>" and ?k = "fz_next s ! i"
  show "\<exists>x s'. fuzz_pop b i s = (Done x, s') \<and> fuzz_inv s'"
  proof (cases "?k < length (fz_pushed s)")
    case True
    then have "fuzz_rel (?s\<lparr>fz_next := (fz_next s)[i := Suc ?k]\<rparr>) (snd (stream_pop i S))"
      using S hs(2) i cur m by (auto simp: fuzz_rel_def stream_pop_def Let_def READERS_def nth_list_update)
    then have "fuzz_inv (?s\<lparr>fz_next := (fz_next s)[i := Suc ?k]\<rparr>)" using t by (auto simp: fuzz_inv_def)
    with True hs(1) cur m show ?thesis
      by (simp add: fuzz_pop_def unwrap_def match_result_def bind_act_def on_handle_def act_simps assert_that_def stream_pop_def Let_def)
  next
    case False
    then have "fuzz_rel ?s S" using S hs(2) cur m by (auto simp: fuzz_rel_def stream_pop_def Let_def)
    then have "fuzz_inv ?s" using t by (auto simp: fuzz_inv_def)
    with False hs(1) cur m show ?thesis
      by (simp add: fuzz_pop_def unwrap_def match_result_def bind_act_def on_handle_def act_simps assert_that_def stream_pop_def Let_def)
  qed
qed

lemma fuzz_loop_passes: "passes (fuzz_loop b bs)"
proof (induction b bs rule: fuzz_loop.induct)
  case (2 b op bs)
  have "passes (if unat op mod 4 \<le> 1 then fuzz_push b (ucast (next_byte bs))
      else if unat op mod 4 = 2 then fuzz_pop b (unat (next_byte bs) mod READERS) else ret ())"
    using fuzz_push_passes fuzz_pop_passes [of "unat (next_byte bs) mod READERS" b] passes_ret
    by (auto simp: READERS_def)
  with 2 show ?case by (simp only: fuzz_loop.simps Let_def) (blast intro: passes_bind check_total_passes)
qed (simp add: passes_ret)

text \<open>
  C32. The push and pop target passes on every input, in both builds: no panic, no reader error, FIFO against
  the oracle, the lag within the capacity, a total that never falls. But it exercises no more than
  one lap: \<open>create_new\<close> registers eight readers and the target pops for three, so at most four messages
  are ever accepted.
\<close>

theorem fuzz_ring_passes:
  assumes "fs (dir @ ''/fuzz.ring'') = None" and "os_grants os (dir @ ''/fuzz.ring'')"
  shows "\<exists>s. fst (fuzz_ring b os dir bs fs) = Done s \<and> length (fz_pushed s) \<le> 4"
proof -
  let ?p = "dir @ ''/fuzz.ring''"
  have args: "is_power_of_two CAPACITY" "CAPACITY \<noteq> 1" "1 \<le> MAX_READERS" "MAX_READERS \<le> MAX_READERS"
    "256 + unat CAPACITY * unat (pod_size u64_pod) < 2 ^ 64"
    by (auto simp: is_power_of_two_iff CAPACITY_def MAX_READERS_def intro!: exI [of _ 2])
  note T = u64_pod.pod_type_axioms sample_args(1,2)
  obtain r where r: "create_new b u64_pod os ?p CAPACITY fs = (Done r, fs(?p \<mapsto> bytes_of (mmap r)))"
    "file_rel u64_pod (unat CAPACITY) r (stream_new (unat MAX_READERS))"
    unfolding create_new_def
    by (rule create_file_rel [where b = b and fs = fs and p = ?p and os = os, OF T args(1,3,4,5) assms])
  let ?fs = "fs(?p \<mapsto> bytes_of (mmap r))" and ?r = "new_handle (mmap r) (capacity r) ?p"
  have op: "open_existing b u64_pod os ?p ?fs = Done ?r" and rel: "file_rel u64_pod 4 ?r (stream_new 8)"
    using reopen [OF r(2) _ T(2,3) assms(2), of ?fs] by (simp_all add: CAPACITY_def)
  let ?s = "\<lparr>fz_handles = [r, ?r], fz_pushed = [], fz_next = replicate READERS 0, fz_total = 0\<rparr>"
  have "handles_rel u64_pod 4 (\<lambda>_. 1) [r, ?r] (stream_new 8)"
    using handles_opened [of u64_pod 4 r "stream_new 8" ?r "\<lambda>_. 1" 1] r(2) rel by (simp add: new_handle_def CAPACITY_def)
  then have "fuzz_inv ?s"
    by (auto simp: fuzz_inv_def fuzz_rel_def stream_new_def READERS_def intro!: exI [of _ "stream_new 8 :: u64 stream"])
  then obtain s where s: "fuzz_loop b bs ?s = (Done (), s)" "fuzz_inv s"
    using fuzz_loop_passes [of b bs] by (auto simp: passes_def)
  have "fst (fuzz_ring b os dir bs fs) = Done s"
    using r(1) op s(1) by (simp add: fuzz_ring_def Let_def unwrap_def match_result_def bind_act_def act_simps)
  moreover have "length (fz_pushed s) \<le> 4" using s(2) fuzz_few(2) by (auto simp: fuzz_inv_def)
  ultimately show ?thesis by blast
qed

theorem fuzz_ring_passes_witness:
  "\<exists>s. fst (fuzz_ring Debug quiet_os ''/tmp/x'' [0, 7, 1, 8, 0, 9, 2, 0, 2, 1, 0, 5, 0, 6, 3, 2, 2] Map.empty) = Done s
     \<and> length (fz_pushed s) \<le> 4"
  using fuzz_ring_passes [of Map.empty "''/tmp/x''" quiet_os Debug "[0, 7, 1, 8, 0, 9, 2, 0, 2, 1, 0, 5, 0, 6, 3, 2, 2]"] by simp

end
