(* ===== verification/Crash.thy ===== *)
theory Crash
  imports Handles
begin

text \<open>
  Processes that die. A producer may be killed at any store of \<open>try_push\<close> (\<open>src/ring.rs\<close>), even
  halfway through the volatile write of the slot, and the file is what the stores so far have made of
  it; a handle opened afterwards continues the stream, with the message if its index was published and
  without it if not. What may be lost is the diagnostic counter \<open>total_written\<close>, so the relation of
  this theory is that of \<open>Ring_File\<close> up to that counter.
\<close>

section \<open>Up to the counter of messages\<close>

definition settle :: "SpmcRingBuffer \<Rightarrow> SpmcRingBuffer" where
  "settle = upd_hdr (\<lambda>h. h\<lparr>total_written := write_idx h\<rparr>)"

definition crash_rel :: "'a pod \<Rightarrow> nat \<Rightarrow> SpmcRingBuffer \<Rightarrow> 'a stream \<Rightarrow> bool" where
  "crash_rel T cap r S \<longleftrightarrow> file_rel T cap (settle r) S"

lemma settle_simps [simp]:
  "write_idx (rhdr (settle r)) = write_idx (rhdr r)" "num_readers (rhdr (settle r)) = num_readers (rhdr r)"
  "read_indices (rhdr (settle r)) = read_indices (rhdr r)" "rdata (settle r) = rdata r"
  "capacity (settle r) = capacity r" "loan_depth (settle r) = loan_depth r" "claim_base (settle r) = claim_base r"
  "magic (rhdr (settle r)) = magic (rhdr r)" "version (rhdr (settle r)) = version (rhdr r)"
  "capacity_mask (rhdr (settle r)) = capacity_mask (rhdr r)" "path (settle r) = path r"
  "settle (settle r) = settle r" "reader_count_of (rhdr (settle r)) = reader_count_of (rhdr r)"
  by (simp_all add: settle_def upd_hdr_def reader_count_of_def)

lemma slowest_settle [simp]: "slowest_read_idx n (rhdr (settle r)) = slowest_read_idx n (rhdr r)"
  by (simp add: slowest_read_idx_def settle_def upd_hdr_def)

lemma settled: "file_rel T cap r S \<Longrightarrow> settle r = r"
  using ring_relD(3) [OF file_relD(1)] by (cases r; cases "mmap r"; cases "rhdr r") (fastforce simp: settle_def upd_hdr_def)

lemma crash_relI: "file_rel T cap r S \<Longrightarrow> crash_rel T cap r S"
  by (simp add: crash_rel_def settled)

lemma crash_rel_settle: "settle r = settle r' \<Longrightarrow> crash_rel T cap r S = crash_rel T cap r' S"
  by (simp add: crash_rel_def)

lemma try_push_settle:
  "fst (try_push b T v (settle r)) = fst (try_push b T v r)"
  "settle (snd (try_push b T v (settle r))) = settle (snd (try_push b T v r))"
  by (simp_all add: try_push_def act_simps bind_act_def settle_def upd_hdr_def upd_data_def slot_ptr_def write_volatile_def
      in_slot_area_def slowest_read_idx_def reader_count_of_def set_write_idx_def bump_total_written_def
      split: outcome.split prod.split)

lemma try_pop_settle:
  "fst (try_pop b T rid (settle r)) = fst (try_pop b T rid r)"
  "settle (snd (try_pop b T rid (settle r))) = settle (snd (try_pop b T rid r))"
  by (simp_all add: try_pop_def act_simps bind_act_def settle_def upd_hdr_def check_reader_def slot_ptr_def read_volatile_def
      in_slot_area_def read_idx_def reader_count_of_def array_get_def store_read_idx_def set_read_idx_def Let_def
      split: outcome.split prod.split)

interpretation surviving: spmc_queue "try_push b T" "\<lambda>i. try_pop b T (of_nat i)" "crash_rel T cap" cap "2 ^ 64 - 1"
proof unfold_locales
  fix r S
  assume "crash_rel T cap r S"
  then show "stream_ok cap S" unfolding crash_rel_def by (rule durable.rel_ok)
next
  fix r S v
  assume "crash_rel T cap r S" and bound: "length (msgs S) < 2 ^ 64 - 1"
  then obtain r1 where r1: "try_push b T v (settle r) = (Done (fst (stream_push cap v S)), r1)"
    "file_rel T cap r1 (snd (stream_push cap v S))"
    using durable.push_refines [of T cap "settle r" S b v] by (auto simp: crash_rel_def)
  obtain x r2 where r2: "try_push b T v r = (x, r2)" by force
  then have "x = Done (fst (stream_push cap v S))" "settle r1 = settle r2"
    using try_push_settle [of b T v r] r1(1) by simp_all
  then show "\<exists>r'. try_push b T v r = (Done (fst (stream_push cap v S)), r') \<and> crash_rel T cap r' (snd (stream_push cap v S))"
    using r2 crash_relI [OF r1(2)] crash_rel_settle by blast
next
  fix r S i
  assume "crash_rel T cap r S" and i: "i < length (cursors S)"
  then obtain r1 where r1: "try_pop b T (of_nat i) (settle r) = (Done (fst (stream_pop i S)), r1)"
    "file_rel T cap r1 (snd (stream_pop i S))"
    using durable.pop_refines [of T cap "settle r" S i b] by (auto simp: crash_rel_def)
  obtain x r2 where r2: "try_pop b T (of_nat i) r = (x, r2)" by force
  then have "x = Done (fst (stream_pop i S))" "settle r1 = settle r2"
    using try_pop_settle [of b T "of_nat i" r] r1(1) by simp_all
  then show "\<exists>r'. try_pop b T (of_nat i) r = (Done (fst (stream_pop i S)), r') \<and> crash_rel T cap r' (snd (stream_pop i S))"
    using r2 crash_relI [OF r1(2)] crash_rel_settle by blast
qed

section \<open>A push that is killed\<close>

text \<open>
  Where the producer dies: before it writes the slot, in the slot write, which leaves any bytes in the slot
  (also the message's own, when the write was over), or after the store of \<open>write_idx\<close>.
\<close>

datatype kill = BeforeSlot | InSlot "u8 list" | AfterPublish

definition torn_write :: "'a pod \<Rightarrow> usize \<Rightarrow> u8 list \<Rightarrow> unit ring_act" where
  "torn_write T p bs r =
     (if in_slot_area T p r then (Done (), upd_data (store (unat p - unat DATA_OFFSET) bs) r) else (Fault, r))"

definition killed_push :: "build \<Rightarrow> 'a pod \<Rightarrow> 'a \<Rightarrow> kill \<Rightarrow> unit ring_act" where
  "killed_push b T v k =
     bind_act (gets (\<lambda>r. write_idx (rhdr r))) (\<lambda>w.
     bind_act (gets (\<lambda>r. reader_count_of (rhdr r))) (\<lambda>n.
     bind_act (asks (\<lambda>r. slowest_read_idx n (rhdr r))) (\<lambda>min_read.
     bind_act (lift_out (sub_w b w min_read)) (\<lambda>lag.
     bind_act (gets capacity) (\<lambda>c.
     if c \<le> lag then ret ()
     else
       bind_act (asks (slot_ptr b T w)) (\<lambda>slot.
       case k of
         BeforeSlot \<Rightarrow> ret ()
       | InSlot bs \<Rightarrow> torn_write T slot bs
       | AfterPublish \<Rightarrow>
           bind_act (write_volatile T slot v) (\<lambda>_.
           bind_act (lift_out (add_w b w 1)) (\<lambda>w'. modify (upd_hdr (set_write_idx w')))))))))) "

definition stream_killed :: "nat \<Rightarrow> 'v \<Rightarrow> kill \<Rightarrow> 'v stream \<Rightarrow> 'v stream" where
  "stream_killed cap v k S = (if k = AfterPublish then snd (stream_push cap v S) else S)"

text \<open>A slot outside the window may hold anything.\<close>

lemma live_window_torn:
  assumes "slots_ok T cap d" and "live_window (slot_read T) cap xs lo d" and "length xs < lo + cap"
    and "length bs = unat (pod_size T)"
  shows "live_window (slot_read T) cap xs lo (store (length xs mod cap * unat (pod_size T)) bs d)"
    and "slots_ok T cap (store (length xs mod cap * unat (pod_size T)) bs d)"
proof -
  let ?n = "unat (pod_size T)" and ?i = "length xs mod cap"
  have fits: "i * ?n + ?n \<le> length d" if "i < cap" for i
    using assms(1) that by (simp add: slots_ok_def slot_in_bounds)
  have "slot_read T (store (?i * ?n) bs d) (k mod cap) = xs ! k" if k: "lo \<le> k" "k < length xs" for k
  proof -
    have cap: "0 < cap" using k assms(3) by linarith
    have "k mod cap \<noteq> ?i" using mod_window_inj [of lo k cap "length xs"] k assms(3) by auto
    then show ?thesis
      using cap k fits [of "k mod cap"] fits [of ?i] slots_disjoint [of "k mod cap" ?i ?n] assms(4)
        live_windowD [OF assms(2), of k]
      by (auto simp: slot_read_def load_store_disjoint)
  qed
  then show "live_window (slot_read T) cap xs lo (store (?i * ?n) bs d)" by (simp add: live_window_def)
  show "slots_ok T cap (store (?i * ?n) bs d)"
    using assms(1,4) fits [of ?i] by (cases "cap = 0") (simp_all add: slots_ok_def)
qed

lemma killed_push_refines:
  assumes rel: "crash_rel T cap r S" and bound: "length (msgs S) < 2 ^ 64 - 1"
    and bs: "\<And>bs. k = InSlot bs \<Longrightarrow> length bs = unat (pod_size T)"
  shows "\<exists>r'. killed_push b T v k r = (Done (), r') \<and> crash_rel T cap r' (stream_killed cap v k S)"
proof -
  let ?s = "settle r" and ?w = "write_idx (rhdr r)"
  have fl: "file_rel T cap ?s S" using rel by (simp add: crash_rel_def)
  note fr = file_relD [OF fl]
  note ring = ring_relD [OF fr(1)] and lay = ring_rel_layout [OF fr(1)]
  obtain m where m: "slowest_read_idx (reader_count_of (rhdr r)) (rhdr r) = (Done m :: (ShmRingError, u64) outcome)"
    and um: "unat m = slowest S"
    by (rule slowest_Done [OF fr(1)]) simp
  note lag = lag_Done(1) [OF fr(1) um, of b, simplified] lag_Done(2) [OF fr(1) um, simplified]
  have room: "capacity r \<le> ?w - m \<longleftrightarrow> \<not> length (msgs S) < slowest S + cap"
    using lag(2) slowest_le_length [OF ring(5)] fr(7) by (auto simp: word_le_nat_alt)
  show ?thesis
  proof (cases "length (msgs S) < slowest S + cap")
    case False
    then have "killed_push b T v k r = (Done (), r)"
      using room by (simp add: killed_push_def act_simps m lag(1))
    with False rel show ?thesis by (auto simp: stream_killed_def stream_push_def)
  next
    case True
    have sp: "slot_ptr b T i ?s = slot_ptr b T i r" for i by (simp add: slot_ptr_def)
    obtain p where p: "slot_ptr b T ?w r = Done p" "unat p = 256 + (unat ?w mod cap) * unat (pod_size T)"
      using slot_ptr_Done [OF lay, of b ?w] fr(7) sp by auto
    have area: "in_slot_area T p r"
      using slot_in_area [OF lay, of p ?w] p(2) fr(7) by (simp add: in_slot_area_def)
    have w: "unat ?w = length (msgs S)" using ring(2) by simp
    show ?thesis
    proof (cases k)
      case BeforeSlot
      then have "killed_push b T v k r = (Done (), r)"
        using room True by (simp add: killed_push_def act_simps m lag(1) p(1))
      with BeforeSlot rel show ?thesis by (auto simp: stream_killed_def)
    next
      case (InSlot bs)
      let ?r = "upd_data (store (unat p - unat DATA_OFFSET) bs) r"
      have off: "unat p - unat DATA_OFFSET = length (msgs S) mod cap * unat (pod_size T)"
        using p(2) w by (simp add: DATA_OFFSET_def HEADER_SIZE_def)
      have ok: "slots_ok T cap (rdata r)" "live_window (slot_read T) cap (msgs S) (slowest S) (rdata r)"
        using ring_wfD(3) [OF fr(2)] ring(6) fr(7) by simp_all
      note torn = live_window_torn [OF ok True bs [OF InSlot]]
      have "length (msgs S) mod cap * unat (pod_size T) + length bs \<le> length (rdata r)"
        using area p(2) [unfolded w] bs [OF InSlot] by (simp add: in_slot_area_def DATA_OFFSET_def HEADER_SIZE_def)
      then have len: "length (store (unat p - unat DATA_OFFSET) bs (rdata r)) = length (rdata r)" using off by simp
      have "killed_push b T v k r = (Done (), ?r)"
        using room True area InSlot by (simp add: killed_push_def act_simps m lag(1) p(1) torn_write_def)
      moreover have "settle ?r = upd_data (store (unat p - unat DATA_OFFSET) bs) ?s"
        by (simp add: settle_def upd_hdr_def upd_data_def)
      moreover have "file_rel T cap (upd_data (store (unat p - unat DATA_OFFSET) bs) ?s) S"
        using fl torn True fr(7) len off
        by (auto simp: file_rel_def queue_rel_def ring_rel_def ring_wf_def layout_ok_def no_loans_def upd_data_def)
      ultimately show ?thesis using InSlot by (auto simp: crash_rel_def stream_killed_def)
    next
      case AfterPublish
      let ?r = "upd_hdr (set_write_idx (?w + 1)) (upd_data (slot_write T (unat ?w mod cap) v) r)"
      have "write_volatile T p v r = (Done (), upd_data (slot_write T (unat ?w mod cap) v) r)"
        using area p(2) by (simp add: write_volatile_def slot_write_def DATA_OFFSET_def HEADER_SIZE_def)
      moreover have "add_w b ?w 1 = (Done (?w + 1) :: (ShmRingError, u64) outcome)"
        using w bound by (intro add_w_Done) simp
      ultimately have run: "killed_push b T v k r = (Done (), ?r)"
        using room True AfterPublish by (simp add: killed_push_def act_simps m lag(1) p(1) bind_act_Done)
      have "try_push b T v ?s = (Done True, pushed_state T v ?s)"
        using try_push_exec [OF fr(1) bound, of b v] True fr(7) by simp
      then have "file_rel T cap (pushed_state T v ?s) (snd (stream_push cap v S))"
        using durable.push_refines [OF fl bound, of b v] by auto
      moreover have "settle ?r = pushed_state T v ?s"
        using ring(3) fr(7) by (simp add: settle_def pushed_state_def upd_hdr_def upd_data_def set_write_idx_def bump_total_written_def)
      ultimately show ?thesis using run AfterPublish by (auto simp: crash_rel_def stream_killed_def)
    qed
  qed
qed

section \<open>Lives of a ring file\<close>

text \<open>
  What happens to a ring file: calls that return, and pushes that are killed, after each of which the
  file is opened again.
\<close>

datatype 'v life = Live "'v ring_op" | Killed 'v kill

definition reopen_file :: "build \<Rightarrow> 'a pod \<Rightarrow> os_env \<Rightarrow> string \<Rightarrow> unit ring_act" where
  "reopen_file b T os p =
     bind_act (asks (\<lambda>r. open_existing b T os p [p \<mapsto> bytes_of (mmap r)])) (\<lambda>r. modify (\<lambda>_. r))"

primrec life_run :: "build \<Rightarrow> 'a pod \<Rightarrow> os_env \<Rightarrow> string \<Rightarrow> 'a life list \<Rightarrow> 'a answer list ring_act" where
  "life_run b T os p [] = ret []"
| "life_run b T os p (x # xs) =
     bind_act
       (case x of
          Live op \<Rightarrow> run_ops (try_push b T) (\<lambda>i. try_pop b T (of_nat i)) [op]
        | Killed v k \<Rightarrow>
            bind_act (killed_push b T v k) (\<lambda>_. bind_act (reopen_file b T os p) (\<lambda>_. ret [])))
       (\<lambda>a. bind_act (life_run b T os p xs) (\<lambda>as. ret (a @ as)))"

primrec stream_life :: "nat \<Rightarrow> 'v life list \<Rightarrow> 'v stream \<Rightarrow> 'v answer list \<times> 'v stream" where
  "stream_life cap [] S = ([], S)"
| "stream_life cap (x # xs) S =
     (let (a, S1) = (case x of Live op \<Rightarrow> stream_run cap [op] S | Killed v k \<Rightarrow> ([], stream_killed cap v k S));
          (as, S2) = stream_life cap xs S1
      in (a @ as, S2))"

fun life_valid :: "nat \<Rightarrow> nat \<Rightarrow> 'v life \<Rightarrow> bool" where
  "life_valid n sz (Live op) = op_valid n op"
| "life_valid n sz (Killed v (InSlot bs)) = (length bs = sz)"
| "life_valid n sz (Killed v k) = True"

lemma reopen_survives:
  assumes rel: "crash_rel T cap r S" and cap: "cap \<noteq> 1" and T: "pod_align T \<le> 64" "0 < pod_size T" and os: "os_grants os p"
  shows "\<exists>r'. reopen_file b T os p r = (Done (), r') \<and> crash_rel T cap r' S"
proof -
  have fl: "file_rel T cap (settle r) S" using rel by (simp add: crash_rel_def)
  note fr = file_relD [OF fl]
  let ?r = "new_handle (mmap r) (capacity r) p"
  have "ring_wf T r" using fr(2) by (simp add: ring_wf_def layout_ok_def settle_def upd_hdr_def header_wf_def)
  then have "open_existing b T os p [p \<mapsto> bytes_of (mmap r)] = Done ?r"
    using reopen_identity [where fs = "[p \<mapsto> bytes_of (mmap r)]" and r = r, OF _ _ _ _ _ _ T os] fr(3-7) cap by simp
  moreover have "settle ?r = new_handle (mmap (settle r)) (capacity (settle r)) p"
    by (simp add: settle_def upd_hdr_def new_handle_def)
  then have "crash_rel T cap ?r S" using file_rel_new_handle [OF fl] by (simp add: crash_rel_def)
  ultimately show ?thesis by (simp add: reopen_file_def act_simps)
qed

lemma stream_killed_grows:
  "length (msgs (stream_killed cap v k S)) \<le> Suc (length (msgs S))" "cursors (stream_killed cap v k S) = cursors S"
  by (simp_all add: stream_killed_def stream_push_def)

lemma stream_run_one:
  "length (msgs (snd (stream_run cap [op] S))) \<le> Suc (length (msgs S))"
  "length (cursors (snd (stream_run cap [op] S))) = length (cursors S)"
  by (cases op; simp add: case_prod_beta stream_push_def)+

lemma life_run_refines:
  "crash_rel T cap r S \<Longrightarrow> list_all (life_valid (length (cursors S)) (unat (pod_size T))) xs \<Longrightarrow>
     length (msgs S) + length xs \<le> 2 ^ 64 - 1 \<Longrightarrow> cap \<noteq> 1 \<Longrightarrow> pod_align T \<le> 64 \<Longrightarrow> 0 < pod_size T \<Longrightarrow> os_grants os p \<Longrightarrow>
     \<exists>r'. life_run b T os p xs r = (Done (fst (stream_life cap xs S)), r') \<and> crash_rel T cap r' (snd (stream_life cap xs S))"
proof (induction xs arbitrary: r S)
  case Nil
  then show ?case by (simp add: act_simps)
next
  case (Cons x xs)
  let ?n = "length (cursors S)"
  obtain a S1 r1 where step: "(case x of Live op \<Rightarrow> stream_run cap [op] S | Killed v k \<Rightarrow> ([], stream_killed cap v k S)) = (a, S1)"
    "(case x of Live op \<Rightarrow> run_ops (try_push b T) (\<lambda>i. try_pop b T (of_nat i)) [op]
        | Killed v k \<Rightarrow> bind_act (killed_push b T v k) (\<lambda>_. bind_act (reopen_file b T os p) (\<lambda>_. ret []))) r = (Done a, r1)"
    "crash_rel T cap r1 S1" "length (msgs S1) \<le> Suc (length (msgs S))" "length (cursors S1) = ?n"
  proof (cases x)
    case (Live op)
    then have ok: "list_all (op_valid ?n) [op]" "length (msgs S) + push_count [op] \<le> 2 ^ 64 - 1"
      using Cons.prems(2,3) by (auto simp: push_count_def)
    from surviving.run_refines [OF Cons.prems(1) ok, of b] stream_run_one [of cap op S]
    show ?thesis using that [of "fst (stream_run cap [op] S)" "snd (stream_run cap [op] S)"] Live by fastforce
  next
    case (Killed v k)
    have len: "length bs = unat (pod_size T)" if "k = InSlot bs" for bs using Cons.prems(2) Killed that by simp
    have bound: "length (msgs S) < 2 ^ 64 - 1" using Cons.prems(3) by simp
    obtain r0 where r0: "killed_push b T v k r = (Done (), r0)" "crash_rel T cap r0 (stream_killed cap v k S)"
      using killed_push_refines [OF Cons.prems(1) bound len] by blast
    obtain r1 where r1: "reopen_file b T os p r0 = (Done (), r1)" "crash_rel T cap r1 (stream_killed cap v k S)"
      using reopen_survives [OF r0(2) Cons.prems(4-7)] by blast
    show ?thesis
      using that [of "[]" "stream_killed cap v k S" r1] Killed r0(1) r1 stream_killed_grows [of cap v k S]
      by (simp add: bind_act_Done act_simps)
  qed
  have "length (msgs S1) + length xs \<le> 2 ^ 64 - 1" "list_all (life_valid (length (cursors S1)) (unat (pod_size T))) xs"
    using step(4,5) Cons.prems(2,3) by simp_all
  from Cons.IH [OF step(3) this(2,1) Cons.prems(4-7)] step(1,2) show ?case
    by (auto simp: bind_act_Done act_simps case_prod_beta)
qed

text \<open>
  C18. Killed producers do no harm. Over any life of a created ring file, in which pushes return, are killed at
  any of their stores or in the middle of the slot write, and the file is opened again after each death, all
  answers are those of the stream in which a killed push counts exactly when its index was published.
\<close>

theorem killed_producers_recover:
  assumes "pod_type T" and "pod_align T \<le> 64" and "0 < pod_size T" and "is_power_of_two c" and "c \<noteq> 1"
    and "1 \<le> n" and "n \<le> MAX_READERS" and "256 + unat c * unat (pod_size T) < 2 ^ 64"
    and "fs p = None" and "os_grants os p"
    and "list_all (life_valid (unat n) (unat (pod_size T))) xs" and "length xs \<le> 2 ^ 64 - 1"
  shows "\<exists>r fs' r'. create_new_with_readers b T os p c n fs = (Done r, fs')
    \<and> life_run b T os p xs r = (Done (fst (stream_life (unat c) xs (stream_new (unat n)))), r')"
proof -
  obtain r where r: "create_new_with_readers b T os p c n fs = (Done r, fs(p \<mapsto> bytes_of (mmap r)))"
    "file_rel T (unat c) r (stream_new (unat n))"
    by (rule create_file_rel [where fs = fs and p = p and os = os and b = b, OF assms(1-4,6-10)])
  have "unat c \<noteq> 1" using assms(5) by (simp add: word_unat_eq_iff)
  from life_run_refines [OF crash_relI [OF r(2)] _ _ this assms(2,3,10), of xs b] assms(11,12) r(1)
  show ?thesis by (auto simp: stream_new_def)
qed

theorem killed_producers_recover_witness:
  "\<exists>r fs' r'. create_new_with_readers Debug u64_pod quiet_os ''ring'' 2 2 Map.empty = (Done r, fs')
     \<and> life_run Debug u64_pod quiet_os ''ring''
         [Live (Push 7), Killed 8 (InSlot (replicate 8 255)), Live (Pop 0), Live (Pop 0), Killed 9 AfterPublish,
          Live (Push 10), Live (Pop 0), Live (Pop 1)] r
       = (Done [Pushed True, Popped (Some 7), Popped None, Pushed False, Popped (Some 9), Popped (Some 7)], r')"
proof -
  let ?xs = "[Live (Push 7), Killed 8 (InSlot (replicate 8 255)), Live (Pop 0), Live (Pop 0), Killed 9 AfterPublish,
      Live (Push 10), Live (Pop 0), Live (Pop 1)] :: u64 life list"
  have "list_all (life_valid 2 8) ?xs" by (simp add: op_valid_def)
  moreover have "fst (stream_life 2 ?xs (stream_new 2))
      = [Pushed True, Popped (Some 7), Popped None, Pushed False, Popped (Some 9), Popped (Some 7)]"
    by code_simp
  ultimately show ?thesis
    using killed_producers_recover [where b = Debug and n = 2 and xs = ?xs,
      OF u64_pod.pod_type_axioms sample_args(1,2) power_of_two_2 _ sample_args(3,4) _ sample_args(5,6)]
    by auto
qed

end
