(* ===== verification/Status_Race.thy ===== *)
theory Status_Race
  imports Status
begin

text \<open>
  A status file read while it is updated (\<open>src/status.rs\<close>). The copy of \<open>update\<close> into the mapping and
  the copy that \<open>read\<close> takes out of it are plain, not atomic: their bytes interleave in any order, and
  either process may stop at any byte.
\<close>

section \<open>The two copies\<close>

datatype copy_event = WriteByte nat | ReadByte nat

text \<open>The file and the reader's copy, as far as it has got.\<close>

fun copy_step :: "u8 list \<Rightarrow> copy_event \<Rightarrow> u8 list \<times> u8 option list \<Rightarrow> u8 list \<times> u8 option list" where
  "copy_step img (WriteByte i) (bs, buf) = (if i < length bs then bs[i := img ! i] else bs, buf)"
| "copy_step img (ReadByte i) (bs, buf) = (bs, if i < length bs then buf[i := Some (bs ! i)] else buf)"

text \<open>What \<open>read\<close> does with the value it has copied out.\<close>

definition validated :: "'a status_type \<Rightarrow> 'a \<Rightarrow> (ShmRingError, 'a) outcome" where
  "validated T value =
     (if \<not> magic_matches T value then Fail (HeaderCorruption ''magic'' (st_MAGIC T) (st_magic T value))
      else if \<not> version_matches T value then Fail (VersionMismatch (st_VERSION T) (st_version T value))
      else Done value)"

definition racing_read :: "'a status_type \<Rightarrow> 'a \<Rightarrow> 'a \<Rightarrow> copy_event list \<Rightarrow> (ShmRingError, 'a) outcome option" where
  "racing_read T old new es =
     (case fold (copy_step (pod_enc T new)) es (pod_enc T old, replicate (unat (pod_size T)) None) of
        (bs, buf) \<Rightarrow> if None \<in> set buf then None else Some (validated T (pod_dec T (map the buf))))"

text \<open>Every byte, in the file and in the copy, is one of the two values'.\<close>

definition mixed :: "u8 list \<Rightarrow> u8 list \<Rightarrow> u8 list \<Rightarrow> bool" where
  "mixed xs ys zs \<longleftrightarrow> length zs = length xs \<and> (\<forall>i < length xs. zs ! i = xs ! i \<or> zs ! i = ys ! i)"

lemma copies_mixed:
  assumes "length ys = length xs" and "mixed xs ys bs" and "length buf = length xs"
    and "\<forall>i < length xs. buf ! i = None \<or> buf ! i = Some (xs ! i) \<or> buf ! i = Some (ys ! i)"
    and "fold (copy_step ys) es (bs, buf) = (bs', buf')"
  shows "length buf' = length xs" and "\<forall>i < length xs. buf' ! i = None \<or> buf' ! i = Some (xs ! i) \<or> buf' ! i = Some (ys ! i)"
proof -
  have "length buf' = length xs \<and> (\<forall>i < length xs. buf' ! i = None \<or> buf' ! i = Some (xs ! i) \<or> buf' ! i = Some (ys ! i))"
    using assms(2-5)
  proof (induction es arbitrary: bs buf)
    case (Cons e es)
    obtain bs1 buf1 where s1: "copy_step ys e (bs, buf) = (bs1, buf1)" by force
    have "mixed xs ys bs1" "length buf1 = length xs"
      "\<forall>i < length xs. buf1 ! i = None \<or> buf1 ! i = Some (xs ! i) \<or> buf1 ! i = Some (ys ! i)"
      using s1 Cons.prems(1-3) by (cases e; auto simp: mixed_def nth_list_update split: if_splits)+
    moreover have "fold (copy_step ys) es (bs1, buf1) = (bs', buf')" using Cons.prems(4) s1 by simp
    ultimately show ?case by (rule Cons.IH)
  qed auto
  then show "length buf' = length xs" "\<forall>i < length xs. buf' ! i = None \<or> buf' ! i = Some (xs ! i) \<or> buf' ! i = Some (ys ! i)"
    by blast+
qed

text \<open>Where two images agree, so does any mixture of them.\<close>

lemma mixed_load:
  assumes "mixed xs ys zs" and "load i n xs = load i n ys" and "i + n \<le> length xs" and "length ys = length xs"
  shows "load i n zs = load i n xs"
proof (rule nth_equalityI)
  show "length (load i n zs) = length (load i n xs)" using assms(1) by (simp add: mixed_def)
next
  fix k assume k: "k < length (load i n zs)"
  have "load i n xs ! k = load i n ys ! k" using assms(2) by simp
  then have "xs ! (i + k) = ys ! (i + k)" using k assms(1,3,4) by (simp add: load_def mixed_def)
  moreover have "i + k < length xs" using k assms(1,3) by (simp add: mixed_def)
  ultimately have "zs ! (i + k) = xs ! (i + k)" using assms(1) by (auto simp: mixed_def)
  then show "load i n zs ! k = load i n xs ! k" using k assms(1,3) by (simp add: load_def mixed_def)
qed


lemma same_head:
  assumes "pod_status T" and "magic_matches T a" "version_matches T a" and "magic_matches T b" "version_matches T b"
  shows "load 0 8 (pod_enc T a) = load 0 8 (pod_enc T b)" and "load 8 4 (pod_enc T a) = load 8 4 (pod_enc T b)"
proof -
  have len: "12 \<le> length (pod_enc T v)" for v
    using pod_status.image_length [OF assms(1)] pod_status.head_size [OF assms(1)] by simp
  have "(of_le (load 0 8 (pod_enc T a)) :: u64) = of_le (load 0 8 (pod_enc T b))"
    "(of_le (load 8 4 (pod_enc T a)) :: u32) = of_le (load 8 4 (pod_enc T b))"
    using assms(2-5)
    by (simp_all add: magic_matches_def version_matches_def pod_status.magic_at_0 [OF assms(1)] pod_status.version_at_8 [OF assms(1)])
  then have "le_bytes 8 (of_le (load 0 8 (pod_enc T a)) :: u64) = le_bytes 8 (of_le (load 0 8 (pod_enc T b)) :: u64)"
    "le_bytes 4 (of_le (load 8 4 (pod_enc T a)) :: u32) = le_bytes 4 (of_le (load 8 4 (pod_enc T b)) :: u32)"
    by simp_all
  then show "load 0 8 (pod_enc T a) = load 0 8 (pod_enc T b)" "load 8 4 (pod_enc T a) = load 8 4 (pod_enc T b)"
    using len [of a] len [of b] by (simp_all add: le_bytes_of_le)
qed

text \<open>
  C40. What a read that races with an update returns. Whatever the order of the two copies' bytes, and wherever
  the writer stops, a read that completes passes both identity checks, and each byte of its value is the old
  value's or the new one's. So a change confined to one byte is atomic; a wider one is not.
\<close>

theorem racing_read_mixes:
  assumes "pod_status T" and "magic_matches T old" "version_matches T old" and "magic_matches T new" "version_matches T new"
    and "racing_read T old new es = Some x"
  shows "\<exists>bs. x = Done (pod_dec T bs) \<and> mixed (pod_enc T old) (pod_enc T new) bs
    \<and> ((\<exists>i. \<forall>j < unat (pod_size T). j \<noteq> i \<longrightarrow> pod_enc T old ! j = pod_enc T new ! j) \<longrightarrow> x = Done old \<or> x = Done new)"
proof -
  let ?o = "pod_enc T old" and ?n = "pod_enc T new" and ?size = "unat (pod_size T)"
  note len = pod_status.image_length [OF assms(1)]
  obtain bs' buf where run: "fold (copy_step ?n) es (?o, replicate ?size None) = (bs', buf)" by force
  have full: "None \<notin> set buf" and x: "x = validated T (pod_dec T (map the buf))"
    using assms(6) run by (auto simp: racing_read_def split: if_splits)
  let ?bs = "map the buf"
  have buf: "length buf = ?size" "\<forall>i < ?size. buf ! i = None \<or> buf ! i = Some (?o ! i) \<or> buf ! i = Some (?n ! i)"
    using copies_mixed [OF _ _ _ _ run, of ?o] len by (simp_all add: mixed_def)
  have "buf ! i \<noteq> None" if "i < ?size" for i using full that buf(1) nth_mem by metis
  then have mix: "mixed ?o ?n ?bs" using buf len by (fastforce simp: mixed_def)
  have size: "12 \<le> ?size" by (rule pod_status.head_size [OF assms(1)])
  note head = same_head [OF assms(1-5)]
  have "load 0 8 ?bs = load 0 8 ?o" "load 8 4 ?bs = load 8 4 ?o"
    using mixed_load [OF mix head(1)] mixed_load [OF mix head(2)] len size by simp_all
  then have "magic_matches T (pod_dec T ?bs)" "version_matches T (pod_dec T ?bs)"
    using pod_status.enc_dec_head [OF assms(1), of ?bs] buf(1) assms(2,3)
    by (simp_all add: magic_matches_def version_matches_def pod_status.magic_at_0 [OF assms(1)] pod_status.version_at_8 [OF assms(1)])
  then have val: "x = Done (pod_dec T ?bs)" by (simp add: x validated_def)
  moreover have "x = Done old \<or> x = Done new" if one: "\<forall>j < ?size. j \<noteq> i \<longrightarrow> ?o ! j = ?n ! j" for i
  proof -
    have "?bs = ?o \<or> ?bs = ?n"
    proof (cases "i < ?size \<and> ?bs ! i \<noteq> ?o ! i")
      case True
      then have "?bs = ?n" using mix one len by (intro nth_equalityI) (auto simp: mixed_def, metis)
      then show ?thesis ..
    next
      case False
      then have "?bs = ?o" using mix one len by (intro nth_equalityI) (auto simp: mixed_def, metis)
      then show ?thesis ..
    qed
    then show ?thesis using val pod_status.image_decodes [OF assms(1)] by auto
  qed
  ultimately show ?thesis using mix by blast
qed

text \<open>
  With a wider change the read can return a value that was never written: the counter goes from 1 to
  256 and the reader sees 257.
\<close>

definition torn_events :: "copy_event list" where
  "torn_events = map ReadByte [0..<13] @ map WriteByte [0..<16] @ map ReadByte [13..<16]"

lemma torn_status_read:
  "racing_read mount_status (sample_mount\<lparr>ms_is_mounted := 1\<rparr>) (sample_mount\<lparr>ms_is_mounted := 256\<rparr>) torn_events
     = Some (Done (sample_mount\<lparr>ms_is_mounted := 257\<rparr>))"
  by code_simp

theorem racing_read_mixes_witness:
  "\<exists>bs. Done (sample_mount\<lparr>ms_is_mounted := 257\<rparr>) = (Done (pod_dec mount_status bs) :: (ShmRingError, MountStatus) outcome)
     \<and> mixed (pod_enc mount_status (sample_mount\<lparr>ms_is_mounted := 1\<rparr>)) (pod_enc mount_status (sample_mount\<lparr>ms_is_mounted := 256\<rparr>)) bs"
  using racing_read_mixes [OF mount_status.pod_status_axioms sample_mount_ok(3,4) sample_mount_ok(3,4) torn_status_read]
  by blast

end
