(* ===== verification/Wakeup_Memory.thy ===== *)
theory Wakeup_Memory
  imports Wakeup Protocol_Acquire
begin

text \<open>
  The handshake of \<open>src/notify.rs\<close> one memory access at a time: any number of \<open>push_notified\<close> calls, a
  reader that calls \<open>pop_blocking\<close> on the eventfd, and other readers that pop without it. A
  load of \<open>write_idx\<close> may be stale, so the reader may find a ring empty that is not; what keeps it from sleeping on
  a message is the order in which the counter of the eventfd is written and read. \<open>Wakeup\<close> takes
  each ring operation as one step; here the producer is preempted inside a push and the reader inside a pop.

  The counter is one object of the kernel: the read that takes the units synchronises with
  the writes made before it. Finding it empty, and being woken by \<open>poll\<close>, synchronise with nothing.
\<close>

section \<open>The system\<close>

text \<open>
  \<open>m_sig\<close>, \<open>m_view\<close>: the last message of \<open>write_idx\<close> and the view the producer had at its
  last signal. \<open>m_owes\<close>: a push has returned \<open>true\<close> and is not signalled yet. \<open>m_phase\<close>: where the
  reader stands in \<open>pop_blocking\<close>; in \<open>Checking\<close> it is in \<open>try_pop\<close> or about to call it.
\<close>

record 'v wmem =
  m_ring :: "'v proto"
  m_units :: nat
  m_sig :: nat
  m_view :: view
  m_owes :: bool
  m_phase :: wphase

definition wmem_init :: "(nat \<Rightarrow> 'v) \<Rightarrow> 'v wmem" where
  "wmem_init junk =
     \<lparr>m_ring = proto_init junk, m_units = 0, m_sig = 0, m_view = view_zero, m_owes = False, m_phase = Checking\<rparr>"

datatype 'v wm_event = Access "'v event" | Notify | Drain | Poll | Interrupt

definition on_wm_ring :: "nat \<Rightarrow> nat \<Rightarrow> 'v event \<Rightarrow> ('v proto \<Rightarrow> 'v wmem \<Rightarrow> 'v wmem) \<Rightarrow> 'v wmem \<Rightarrow> 'v wmem option" where
  "on_wm_ring n cap e f s = map_option (\<lambda>c. f c (s\<lparr>m_ring := c\<rparr>)) (step n cap e (m_ring s))"

text \<open>
  \<open>push_notified\<close>: the next push starts when the signal is given. \<open>pop_blocking\<close>: a pop that found nothing
  goes to \<open>wait\<close>, a pop with a message returns and is called again.
\<close>

fun wm_step :: "nat \<Rightarrow> nat \<Rightarrow> nat \<Rightarrow> 'v wm_event \<Rightarrow> 'v wmem \<Rightarrow> 'v wmem option" where
  "wm_step n cap i (Access (PushCall v)) s = (if m_owes s then None else on_wm_ring n cap (PushCall v) (\<lambda>_ s. s) s)"
| "wm_step n cap i (Access Count) s = on_wm_ring n cap Count (\<lambda>_ s. s\<lparr>m_owes := True\<rparr>) s"
| "wm_step n cap i (Access (PopCall j t)) s =
     (if j = i \<and> m_phase s \<noteq> Checking then None else on_wm_ring n cap (PopCall j t) (\<lambda>_ s. s) s)"
| "wm_step n cap i (Access (Cursor j)) s =
     on_wm_ring n cap (Cursor j) (\<lambda>c s. if j = i \<and> r_pc c i = RIdle then s\<lparr>m_phase := Draining\<rparr> else s) s"
| "wm_step n cap i (Access e) s = on_wm_ring n cap e (\<lambda>_ s. s) s"
| "wm_step n cap i Notify s =
     (if m_owes s then
        Some (s\<lparr>m_units := min (Suc (m_units s)) EFD_MAX, m_sig := wcount (m_ring s), m_view := p_view (m_ring s),
                m_owes := False\<rparr>)
      else None)"
| "wm_step n cap i Drain s =
     (if m_phase s \<noteq> Draining then None
      else if 0 < m_units s then
        Some (s\<lparr>m_ring := acquire i (m_view s) (m_sig s) (m_ring s), m_units := 0, m_phase := Checking\<rparr>)
      else Some (s\<lparr>m_phase := Parked\<rparr>))"
| "wm_step n cap i Poll s = (if m_phase s = Parked \<and> 0 < m_units s then Some (s\<lparr>m_phase := Draining\<rparr>) else None)"
| "wm_step n cap i Interrupt s = (if m_phase s = Parked then Some (s\<lparr>m_phase := Draining\<rparr>) else None)"

fun wm_run :: "nat \<Rightarrow> nat \<Rightarrow> nat \<Rightarrow> 'v wm_event list \<Rightarrow> 'v wmem \<Rightarrow> 'v wmem option" where
  "wm_run n cap i [] s = Some s"
| "wm_run n cap i (e # es) s = (case wm_step n cap i e s of Some s' \<Rightarrow> wm_run n cap i es s' | None \<Rightarrow> None)"

inductive wm_reachable :: "nat \<Rightarrow> nat \<Rightarrow> nat \<Rightarrow> 'v wmem \<Rightarrow> bool" for n cap i where
  init: "wm_reachable n cap i (wmem_init junk)"
| step: "wm_reachable n cap i s \<Longrightarrow> wm_step n cap i e s = Some s' \<Longrightarrow> wm_reachable n cap i s'"

lemma wm_reachable_run: "wm_reachable n cap i s \<Longrightarrow> wm_run n cap i es s = Some s' \<Longrightarrow> wm_reachable n cap i s'"
  by (induction es arbitrary: s) (auto split: option.splits intro: wm_reachable.step)

section \<open>The invariant\<close>

text \<open>The producer's side: what is published is signalled, or the signal is due.\<close>

definition signal_due :: "'v wmem \<Rightarrow> bool" where
  "signal_due s \<longleftrightarrow> m_owes s \<or> p_pc (m_ring s) = PCount"

definition wm_prod :: "nat \<Rightarrow> 'v wmem \<Rightarrow> bool" where
  "wm_prod n s \<longleftrightarrow>
     m_sig s \<le> wcount (m_ring s) \<and> m_sig s \<le> vw (m_view s)
     \<and> below n (vw (p_view (m_ring s))) (\<lambda>j. vr (r_view (m_ring s) j) j) (m_view s)
     \<and> (m_owes s \<longrightarrow> p_pc (m_ring s) = PIdle) \<and> (\<not> signal_due s \<longrightarrow> m_sig s = wcount (m_ring s))"

text \<open>
  The reader's side: on its way to sleep it has taken everything up to the message of \<open>write_idx\<close> it loaded last, and
  without a unit that message is the signalled one or a newer one.
\<close>

definition wm_cons :: "nat \<Rightarrow> 'v wmem \<Rightarrow> bool" where
  "wm_cons i s \<longleftrightarrow>
     (m_phase s \<noteq> Checking \<longrightarrow> r_pc (m_ring s) i = RIdle \<and> rcount (m_ring s) i = r_seen (m_ring s) i)
     \<and> (m_units s = 0 \<longrightarrow> m_sig s \<le> r_seen (m_ring s) i)"

definition wm_inv :: "nat \<Rightarrow> nat \<Rightarrow> nat \<Rightarrow> 'v wmem \<Rightarrow> bool" where
  "wm_inv n cap i s \<longleftrightarrow> proto_inv n cap (m_ring s) \<and> wm_prod n s \<and> wm_cons i s"

lemma wm_inv_init:
  assumes "0 < n" and "0 < cap"
  shows "wm_inv n cap i (wmem_init junk)"
  using proto_init_inv [OF assms, of junk]
  by (simp add: wm_inv_def wmem_init_def wm_prod_def wm_cons_def signal_due_def)
    (simp add: proto_init_def view_zero_def below_def)

lemma on_wm_ringE:
  assumes "on_wm_ring n cap e f s = Some s'"
  obtains c where "step n cap e (m_ring s) = Some c" and "s' = f c (s\<lparr>m_ring := c\<rparr>)"
  using assms by (auto simp: on_wm_ring_def)

lemma wm_access:
  assumes "wm_step n cap i (Access e) s = Some s'"
  shows "step n cap e (m_ring s) = Some (m_ring s')" "m_units s' = m_units s" "m_sig s' = m_sig s" "m_view s' = m_view s"
    "m_owes s' = (m_owes s \<or> e = Count)"
    "m_phase s' = (if e = Cursor i \<and> r_pc (m_ring s') i = RIdle then Draining else m_phase s)"
    "\<And>v. e = PushCall v \<Longrightarrow> \<not> m_owes s" "\<And>t. e = PopCall i t \<Longrightarrow> m_phase s = Checking"
  using assms by (cases e; auto elim!: on_wm_ringE split: if_splits)+



text \<open>What an access does to the counters.\<close>

lemma p_step_signal:
  assumes "p_step n cap e c = Some c'"
  shows "p_pc c = PIdle \<Longrightarrow> \<exists>v. e = PushCall v" "p_pc c = PCount \<Longrightarrow> e = Count" "e = Count \<Longrightarrow> p_pc c' = PIdle"
    "w_hist c' = w_hist c \<or> p_pc c' = PCount \<and> length (w_hist c') = Suc (length (w_hist c))"
    "r_hist c' = r_hist c" "r_seen c' = r_seen c" "r_pc c' = r_pc c"
  using assms by (cases e; auto simp: Let_def case_prod_beta split: p_pc.splits if_splits)+

lemma r_step_signal:
  assumes "r_step n cap e c = Some c'"
  shows "w_hist c' = w_hist c" "p_pc c' = p_pc c" "e \<noteq> Count" "e \<noteq> PushCall v"
    "\<not> pop_event i e \<Longrightarrow> r_hist c' i = r_hist c i \<and> r_seen c' i = r_seen c i \<and> r_pc c' i = r_pc c i"
  using assms by (cases e; auto simp: Let_def case_prod_beta split: r_pc.splits if_splits)+

lemma step_other_reader:
  assumes "step n cap e c = Some c'" and "\<not> pop_event i e"
  shows "r_hist c' i = r_hist c i" "r_seen c' i = r_seen c i" "r_pc c' i = r_pc c i"
  using assms by (elim stepE; simp add: p_step_signal(5-7) r_step_signal(5))+

lemma step_idle_reader:
  assumes "step n cap e c = Some c'" and "r_pc c i = RIdle" and "\<And>t. e \<noteq> PopCall i t"
  shows "\<not> pop_event i e"
proof
  assume "pop_event i e"
  then show False using assms by (cases e) (auto simp: step_def split: if_splits option.splits)
qed

lemma wm_prod_access:
  assumes prod: "wm_prod n s" and st: "wm_step n cap i (Access e) s = Some s'"
  shows "wm_prod n s'"
proof -
  let ?c = "m_ring s" and ?c' = "m_ring s'"
  note acc = wm_access [OF st]
  have "below n (vw (p_view ?c')) (\<lambda>j. vr (r_view ?c' j) j) (m_view s')"
    using prod below_mono [OF _ step_views_grow [OF acc(1)]] acc(4) by (simp add: wm_prod_def)
  moreover have "m_sig s' \<le> wcount ?c'" "m_owes s' \<longrightarrow> p_pc ?c' = PIdle" "\<not> signal_due s' \<longrightarrow> m_sig s' = wcount ?c'"
    using acc(1)
  proof (atomize (full), cases rule: stepE)
    case 1
    note p = p_step_signal [OF 1]
    have "\<not> m_owes s" using prod p(1) acc(7) by (auto simp: wm_prod_def)
    then show "m_sig s' \<le> wcount ?c' \<and> (m_owes s' \<longrightarrow> p_pc ?c' = PIdle) \<and> (\<not> signal_due s' \<longrightarrow> m_sig s' = wcount ?c')"
      using prod p(2-4) acc(3,5) by (auto simp: wm_prod_def signal_due_def)
  next
    case 2
    then show "m_sig s' \<le> wcount ?c' \<and> (m_owes s' \<longrightarrow> p_pc ?c' = PIdle) \<and> (\<not> signal_due s' \<longrightarrow> m_sig s' = wcount ?c')"
      using prod r_step_signal(1-3) [OF 2] acc(3,5) by (simp add: wm_prod_def signal_due_def)
  qed
  ultimately show ?thesis using prod acc(3,4) by (simp add: wm_prod_def)
qed

lemma cursor_step:
  assumes "r_step n cap (Cursor i) c = Some c'" and "proto_inv n cap c" and "i < n"
  shows "r_hist c' = r_hist c" "r_seen c' = r_seen c" "r_pc c i = RCursor (r_seen c i)"
    "r_pc c' i = (if rcount c i = r_seen c i then RIdle else RRead (rcount c i))"
  using assms(1) r_okD(7) [OF proto_invD(2) [OF assms(2,3)]] inv_counts(5) [OF assms(2,3)] assms(3)
  by (auto split: r_pc.splits if_splits simp del: last_val.simps)

lemma wm_cons_access:
  assumes inv: "proto_inv n cap (m_ring s)" and cons: "wm_cons i s" and i: "i < n" and st: "wm_step n cap i (Access e) s = Some s'"
  shows "wm_cons i s'"
proof -
  let ?c = "m_ring s" and ?c' = "m_ring s'"
  note acc = wm_access [OF st]
  have "m_sig s' \<le> r_seen ?c' i" if "m_units s' = 0"
    using cons that acc(2,3) step_seen_grows [OF acc(1), of i] by (simp add: wm_cons_def)
  moreover have "r_pc ?c' i = RIdle \<and> rcount ?c' i = r_seen ?c' i" if phase: "m_phase s' \<noteq> Checking"
  proof (cases "m_phase s = Checking")
    case True
    then have e: "e = Cursor i" "r_pc ?c' i = RIdle" using phase acc(6) by (auto split: if_splits)
    from acc(1) have run: "r_step n cap (Cursor i) ?c = Some ?c'" using e(1) by (auto elim!: stepE)
    note cursor_step [OF run inv i]
    then show ?thesis using e(2) by (simp split: if_splits)
  next
    case False
    have idle: "r_pc ?c i = RIdle" "rcount ?c i = r_seen ?c i" using cons False by (simp_all add: wm_cons_def)
    then have "\<not> pop_event i e" using step_idle_reader [OF acc(1)] acc(8) False by blast
    then show ?thesis using step_other_reader [OF acc(1)] idle by simp
  qed
  ultimately show ?thesis by (simp add: wm_cons_def)
qed

lemma wm_inv_access:
  assumes inv: "wm_inv n cap i s" and pos: "0 < n" "0 < cap" "i < n" and st: "wm_step n cap i (Access e) s = Some s'"
  shows "wm_inv n cap i s'"
  using inv step_inv [OF _ pos(1,2) wm_access(1) [OF st]] wm_prod_access [OF _ st] wm_cons_access [OF _ _ pos(3) st]
  by (simp add: wm_inv_def)

text \<open>The system calls.\<close>

lemma signal_leaves_unit [simp]: "min (Suc u) EFD_MAX = 0 \<longleftrightarrow> False"
  using EFD_MAX_pos by (simp add: min_def)

lemma wm_inv_call:
  assumes inv: "wm_inv n cap i s" and i: "i < n" and st: "wm_step n cap i e s = Some s'" and e: "\<And>a. e \<noteq> Access a"
  shows "wm_inv n cap i s'"
proof (cases e)
  case Notify
  note views = views_okD(3) [OF proto_invD(4)]
  note p = p_okD [OF proto_invD(1)]
  have ring: "proto_inv n cap (m_ring s)" using inv by (simp add: wm_inv_def)
  have "p_pc (m_ring s) = PIdle" using inv st Notify by (auto simp: wm_inv_def wm_prod_def split: if_splits)
  then have "wcount (m_ring s) \<le> vw (p_view (m_ring s))" using p(5) [OF ring] by simp
  then show ?thesis using inv st Notify views [OF ring]
    by (auto simp: wm_inv_def wm_prod_def wm_cons_def signal_due_def split: if_splits)
next
  case Drain
  show ?thesis
  proof (cases "0 < m_units s")
    case True
    let ?c = "acquire i (m_view s) (m_sig s) (m_ring s)"
    have ring: "proto_inv n cap (m_ring s)" and prod: "wm_prod n s" and idle: "r_pc (m_ring s) i = RIdle"
      using inv st Drain by (auto simp: wm_inv_def wm_cons_def split: if_splits)
    have below: "below n (vw (p_view (m_ring s))) (\<lambda>j. vr (r_view (m_ring s) j) j) (m_view s)"
      and sig: "m_sig s \<le> wcount (m_ring s)" "m_sig s \<le> vw (m_view s)"
      using prod by (simp_all add: wm_prod_def)
    have "proto_inv n cap ?c" by (rule proto_inv_acquire [OF ring i idle sig below])
    moreover have "below n (vw (p_view ?c)) (\<lambda>j. vr (r_view ?c j) j) (m_view s)"
      by (rule below_mono [OF below]) (simp_all add: acquire_def)
    ultimately show ?thesis using prod True st Drain
      by (auto simp: wm_inv_def wm_prod_def wm_cons_def signal_due_def split: if_splits)
  next
    case False
    then show ?thesis using inv st Drain by (auto simp: wm_inv_def wm_prod_def wm_cons_def signal_due_def split: if_splits)
  qed
qed (use inv st e in \<open>auto simp: wm_inv_def wm_prod_def wm_cons_def signal_due_def split: if_splits\<close>)

lemma wm_reachable_inv:
  assumes "wm_reachable n cap i s" and "0 < n" and "0 < cap" and "i < n"
  shows "wm_inv n cap i s"
  using assms(1)
proof induction
  case (init junk)
  show ?case by (rule wm_inv_init [OF assms(2,3)])
next
  case (step s e s')
  show ?case
  proof (cases "\<exists>a. e = Access a")
    case True
    then show ?thesis using wm_inv_access [OF step.IH assms(2-4)] step.hyps(2) by blast
  next
    case False
    then show ?thesis using wm_inv_call [OF step.IH assms(4) step.hyps(2)] by blast
  qed
qed

section \<open>How soon a signalled message is returned\<close>

text \<open>The reader's own accesses and system calls.\<close>

fun own_event :: "nat \<Rightarrow> 'v wm_event \<Rightarrow> bool" where
  "own_event i (Access e) = pop_event i e" | "own_event i Notify = False" | "own_event i _ = True"

text \<open>
  The steps it has left until it returns a message that is signalled. A pop that started from a stale
  \<open>write_idx\<close> finds nothing, drains, and then cannot miss the message.
\<close>

fun turns_of :: "wphase \<Rightarrow> nat \<Rightarrow> nat \<Rightarrow> 'v r_pc \<Rightarrow> nat" where
  "turns_of Parked R seen pc = 6"
| "turns_of Draining R seen pc = 5"
| "turns_of Checking R seen RIdle = (if R < seen then 4 else 7)"
| "turns_of Checking R seen (RCursor w) = (if R < w then 3 else 6)"
| "turns_of Checking R seen (RRead r) = 2"
| "turns_of Checking R seen (RStore r v) = 1"

definition turns :: "nat \<Rightarrow> 'v wmem \<Rightarrow> nat" where
  "turns i s = turns_of (m_phase s) (rcount (m_ring s) i) (r_seen (m_ring s) i) (r_pc (m_ring s) i)"

lemma turns_le: "turns i s \<le> 7" and turns_pos: "0 < turns i s"
  by (cases "m_phase s"; cases "r_pc (m_ring s) i"; simp add: turns_def)+

lemma pop_call_step:
  assumes "r_step n cap (PopCall i t) c = Some c'" and "proto_inv n cap c"
  shows "r_pc c i = RIdle" "r_pc c' i = RCursor (r_seen c' i)" "r_seen c i \<le> r_seen c' i" "r_hist c' = r_hist c"
  using assms(1) hist_okD(2) [OF p_okD(1) [OF proto_invD(1) [OF assms(2)]], of t]
  by (auto simp: Let_def case_prod_beta split: if_splits)

lemma read_step:
  assumes "r_step n cap (Read i) c = Some c'"
  shows "\<exists>r. r_pc c i = RRead r" "\<exists>r v. r_pc c' i = RStore r v" "r_hist c' = r_hist c"
  using assms by (auto simp: Let_def split: r_pc.splits if_splits)

lemma store_step:
  assumes "r_step n cap (Store i) c = Some c'" and "proto_inv n cap c" and "i < n"
  shows "rcount c' i = Suc (rcount c i)" "\<not> crashed c \<Longrightarrow> \<not> crashed c'"
proof -
  obtain r v where rv: "r_pc c i = RStore r v" using assms(1) by (auto split: r_pc.splits)
  then have "r < U64_MAX"
    using r_okD(3,7) [OF proto_invD(2) [OF assms(2,3)]] p_okD(2,3) [OF proto_invD(1) [OF assms(2)]] by simp
  then show "rcount c' i = Suc (rcount c i)" "\<not> crashed c \<Longrightarrow> \<not> crashed c'"
    using assms(1,3) rv inv_counts(3) [OF assms(2,3)] by auto
qed

lemma m_sig_grows:
  assumes "wm_prod n s" and "wm_step n cap i e s = Some s'"
  shows "m_sig s \<le> m_sig s'"
proof (cases e)
  case (Access a)
  then show ?thesis using wm_access(3) assms(2) by fastforce
qed (use assms in \<open>auto simp: wm_prod_def split: if_splits\<close>)

lemma other_turn:
  assumes "wm_step n cap i e s = Some s'" and "\<not> own_event i e"
  shows "r_hist (m_ring s') i = r_hist (m_ring s) i" "turns i s' = turns i s"
proof -
  have "r_hist (m_ring s') i = r_hist (m_ring s) i \<and> turns i s' = turns i s"
  proof (cases e)
    case (Access a)
    with assms have no: "\<not> pop_event i a" and st: "wm_step n cap i (Access a) s = Some s'" by simp_all
    then have "a \<noteq> Cursor i" by auto
    with step_other_reader [OF wm_access(1) [OF st] no] wm_access(6) [OF st] show ?thesis
      by (simp add: turns_def)
  qed (use assms in \<open>auto simp: turns_def split: if_splits\<close>)
  then show "r_hist (m_ring s') i = r_hist (m_ring s) i" "turns i s' = turns i s" by simp_all
qed

lemma own_turn:
  assumes inv: "wm_inv n cap i s" and i: "i < n" and st: "wm_step n cap i e s = Some s'" and own: "own_event i e"
    and behind: "rcount (m_ring s) i < m_sig s"
  shows "rcount (m_ring s') i = Suc (rcount (m_ring s) i)
    \<or> rcount (m_ring s') i = rcount (m_ring s) i \<and> turns i s' < turns i s"
proof -
  let ?c = "m_ring s" and ?c' = "m_ring s'"
  have ring: "proto_inv n cap ?c" and cons: "wm_cons i s" using inv by (simp_all add: wm_inv_def)
  have wait: "m_phase s \<noteq> Checking \<Longrightarrow> r_pc ?c i = RIdle \<and> rcount ?c i = r_seen ?c i \<and> 0 < m_units s"
    using cons behind by (auto simp: wm_cons_def)
  show ?thesis
  proof (cases e)
    case (Access a)
    note acc = wm_access [OF st [unfolded Access]]
    have pop: "pop_event i a" using own Access by simp
    then have "\<not> push_event a" by (cases a) simp_all
    then have run: "r_step n cap a ?c = Some ?c'" using acc(1) by (auto elim!: stepE dest: p_step_others)
    show ?thesis
    proof (cases a)
      case (PopCall j t)
      then have j: "a = PopCall i t" using pop by simp
      note p = pop_call_step [OF run [unfolded j] ring]
      have "m_phase s = Checking" "m_phase s' = Checking" using acc(6,8) j by auto
      then show ?thesis using p by (simp add: turns_def)
    next
      case (Cursor j)
      then have j: "a = Cursor i" using pop by simp
      note p = cursor_step [OF run [unfolded j] ring i]
      have "m_phase s = Checking" using wait p(3) by (cases "m_phase s") simp_all
      moreover have "rcount ?c i \<le> r_seen ?c i" using r_okD(2) [OF proto_invD(2) [OF ring i]] .
      ultimately show ?thesis using p acc(6) j by (auto simp: turns_def)
    next
      case (Read j)
      then have j: "a = Read i" using pop by simp
      note p = read_step [OF run [unfolded j]]
      have "m_phase s = Checking" using wait p(1) by (cases "m_phase s") auto
      then have "m_phase s' = Checking" using acc(6) j by simp
      then show ?thesis using p \<open>m_phase s = Checking\<close> by (auto simp: turns_def)
    next
      case (Store j)
      then have j: "a = Store i" using pop by simp
      show ?thesis using store_step(1) [OF run [unfolded j] ring i] by blast
    qed (use pop in simp_all)
  next
    case Drain
    then have "m_phase s = Draining" using st by (auto split: if_splits)
    then show ?thesis using wait behind st Drain by (auto simp: turns_def)
  qed (use own st in \<open>auto simp: turns_def split: if_splits\<close>)
qed

lemma rcount_grows:
  assumes "wm_step n cap i e s = Some s'"
  shows "rcount (m_ring s) j \<le> rcount (m_ring s') j"
proof (cases e)
  case (Access a)
  have "length (r_hist c j) \<le> length (r_hist c' j)" if "step n cap a c = Some c'" for c c' :: "'a proto"
    using that by (elim stepE; cases a; auto simp: Let_def case_prod_beta split: p_pc.splits r_pc.splits if_splits)
  then show ?thesis using wm_access(1) assms Access diff_le_mono by blast
qed (use assms in \<open>auto split: if_splits\<close>)

lemma rcount_run_grows: "wm_run n cap i es s = Some s' \<Longrightarrow> rcount (m_ring s) j \<le> rcount (m_ring s') j"
proof (induction es arbitrary: s)
  case (Cons e es)
  then obtain s1 where s1: "wm_step n cap i e s = Some s1" "wm_run n cap i es s1 = Some s'" by (auto split: option.splits)
  show ?case by (rule order_trans [OF rcount_grows [OF s1(1)] Cons.IH [OF s1(2)]])
qed simp

text \<open>Enough own steps, with any steps of the others between them.\<close>

lemma wm_run_delivers:
  assumes "wm_inv n cap i s" and "0 < n" and "0 < cap" and "i < n" and "wm_run n cap i es s = Some s'"
    and "R = rcount (m_ring s) i" and "R < m_sig s" and "turns i s \<le> length (filter (own_event i) es)"
  shows "R < rcount (m_ring s') i"
  using assms
proof (induction es arbitrary: s)
  case Nil
  then show ?case using turns_pos [of i s] by simp
next
  case (Cons e es)
  from Cons.prems(5) obtain s1 where s1: "wm_step n cap i e s = Some s1" "wm_run n cap i es s1 = Some s'"
    by (auto split: option.splits)
  have inv1: "wm_inv n cap i s1"
  proof (cases "\<exists>a. e = Access a")
    case True
    then show ?thesis using wm_inv_access [OF Cons.prems(1-4)] s1(1) by blast
  next
    case False
    then show ?thesis using wm_inv_call [OF Cons.prems(1,4) s1(1)] by blast
  qed
  have sig: "R < m_sig s1" using m_sig_grows [OF _ s1(1)] Cons.prems(1,7) by (fastforce simp: wm_inv_def)
  show ?case
  proof (cases "own_event i e")
    case True
    from own_turn [OF Cons.prems(1,4) s1(1) True] Cons.prems(6,7)
    consider "rcount (m_ring s1) i = Suc R" | "rcount (m_ring s1) i = R" "turns i s1 < turns i s" by auto
    then show ?thesis
    proof cases
      case 1
      then show ?thesis using rcount_run_grows [OF s1(2), of i] by simp
    next
      case 2
      then show ?thesis using Cons.IH [OF inv1 Cons.prems(2-4) s1(2) _ sig] Cons.prems(8) True by simp
    qed
  next
    case False
    then show ?thesis
      using Cons.IH [OF inv1 Cons.prems(2-4) s1(2) _ sig] other_turn [OF s1(1) False] Cons.prems(6,8) by simp
  qed
qed

text \<open>The reader can always go on while a message is signalled.\<close>

lemma own_enabled:
  assumes inv: "wm_inv n cap i s" and i: "i < n" and live: "\<not> crashed (m_ring s)" and behind: "rcount (m_ring s) i < m_sig s"
  shows "\<exists>e. own_event i e \<and> wm_step n cap i e s \<noteq> None"
proof -
  let ?c = "m_ring s"
  have ring: "proto_inv n cap ?c" and cons: "wm_cons i s" using inv by (simp_all add: wm_inv_def)
  show ?thesis
  proof (cases "m_phase s")
    case Checking
    show ?thesis
    proof (cases "r_pc ?c i = RIdle")
      case True
      have "r_seen ?c i < length (w_hist ?c)"
        using r_okD(3) [OF proto_invD(2) [OF ring i]] inv_counts(1,2) [OF ring] by simp
      then have "step n cap (PopCall i (r_seen ?c i)) ?c \<noteq> None"
        using True i live by (simp add: step_def Let_def case_prod_beta)
      then show ?thesis using Checking
        by (intro exI [of _ "Access (PopCall i (r_seen ?c i))"]) (simp add: on_wm_ring_def)
    next
      case False
      then obtain a where "pop_event i a" "step n cap a ?c \<noteq> None" using pop_enabled [OF i live] by blast
      moreover from this Checking have "wm_step n cap i (Access a) s \<noteq> None"
        by (cases a) (auto simp: on_wm_ring_def)
      ultimately show ?thesis by (intro exI [of _ "Access a"]) simp
    qed
  next
    case Draining
    then show ?thesis by (intro exI [of _ Drain]) simp
  next
    case Parked
    then show ?thesis by (intro exI [of _ Interrupt]) simp
  qed
qed

section \<open>Properties\<close>

lemma got_rcount: "proto_inv n cap c \<Longrightarrow> i < n \<Longrightarrow> length (got c i) = rcount c i \<and> got c i = take (rcount c i) (published c)"
  using r_okD(5) [OF proto_invD(2), of n cap c i] inv_counts(4) [of n cap c i] by simp

text \<open>
  C12. No wakeup is lost, at the level of memory accesses. Except between a publish and its signal, every published
  message is signalled. While a signalled message waits for the reader on the eventfd, the reader never
  sleeps without a pending unit, it can always go on, and within seven accesses and system calls of its own it has
  returned a message, whatever the producer and the other readers do in between and however stale the
  loads of \<open>write_idx\<close> are. What it returns is the stream, without a race.
\<close>

theorem signalled_message_returned:
  assumes "wm_reachable n cap i s" and "0 < n" and "0 < cap" and "i < n"
  shows "(\<not> m_owes s \<and> p_pc (m_ring s) \<noteq> PCount \<longrightarrow> m_sig s = length (published (m_ring s)))
    \<and> (length (got (m_ring s) i) < m_sig s \<longrightarrow>
        (m_phase s \<noteq> Checking \<longrightarrow> 0 < m_units s)
        \<and> (\<not> crashed (m_ring s) \<longrightarrow> (\<exists>e. own_event i e \<and> wm_step n cap i e s \<noteq> None))
        \<and> (\<forall>es s'. wm_run n cap i es s = Some s' \<and> 7 \<le> length (filter (own_event i) es) \<longrightarrow>
              length (got (m_ring s) i) < length (got (m_ring s') i)))
    \<and> got (m_ring s) i = take (length (got (m_ring s) i)) (published (m_ring s)) \<and> \<not> raced (m_ring s)"
proof -
  note inv = wm_reachable_inv [OF assms]
  then have ring: "proto_inv n cap (m_ring s)" and prod: "wm_prod n s" and cons: "wm_cons i s" by (simp_all add: wm_inv_def)
  note R = conjunct1 [OF got_rcount [OF ring assms(4)]]
  let ?g = "length (got (m_ring s) i)"
  have "?g < length (got (m_ring s') i)"
    if "?g < m_sig s" "wm_run n cap i es s = Some s'" "7 \<le> length (filter (own_event i) es)" for es s'
  proof -
    have "wm_inv n cap i s'" by (rule wm_reachable_inv [OF wm_reachable_run [OF assms(1) that(2)] assms(2-4)])
    then have "length (got (m_ring s') i) = rcount (m_ring s') i" using got_rcount assms(4) unfolding wm_inv_def by blast
    then show ?thesis
      using wm_run_delivers [OF inv assms(2-4) that(2) refl] turns_le [of i s] that(1,3) R by simp
  qed
  moreover have "0 < m_units s" if "?g < m_sig s" "m_phase s \<noteq> Checking"
    using that cons R by (auto simp: wm_cons_def)
  moreover have "\<exists>e. own_event i e \<and> wm_step n cap i e s \<noteq> None" if "?g < m_sig s" "\<not> crashed (m_ring s)"
    using that own_enabled [OF inv assms(4)] R by simp
  moreover have "m_sig s = length (published (m_ring s))" if "\<not> m_owes s" "p_pc (m_ring s) \<noteq> PCount"
    using that prod inv_counts(1) [OF ring] by (simp add: wm_prod_def signal_due_def)
  moreover have "got (m_ring s) i = take ?g (published (m_ring s))"
    unfolding R by (rule conjunct2 [OF got_rcount [OF ring assms(4)]])
  ultimately show ?thesis using proto_invD(5) [OF ring] by blast
qed

text \<open>The reader looks at the ring before the push, sleeps, and is woken.\<close>

definition sleeper_events :: "nat wm_event list" where
  "sleeper_events =
     map Access [PushCall 5, Scan 0, Decide, Write, PopCall 0 0, Publish, Cursor 0] @ [Drain, Access Count, Notify]"

definition sleeper :: "nat wmem" where
  "sleeper = the (wm_run 1 2 0 sleeper_events (wmem_init (\<lambda>_. 0)))"

definition woken_events :: "nat wm_event list" where
  "woken_events = [Poll, Drain] @ map Access [PopCall 0 1, Cursor 0, Read 0, PushCall 7, Store 0, PopCall 0 1]"

lemmas wm_run_simps = wmem_init_def proto_init_def on_wm_ring_def step_def Let_def view_zero_def view_join_def acquire_def

lemma sleeper_facts:
  "wm_reachable 1 2 0 sleeper" "m_phase sleeper = Parked" "m_sig sleeper = 1" "got (m_ring sleeper) 0 = []"
  "\<exists>s. wm_run 1 2 0 woken_events sleeper = Some s \<and> got (m_ring s) 0 = [5]"
proof -
  have "case wm_run 1 2 0 sleeper_events (wmem_init (\<lambda>_. 0)) of None \<Rightarrow> False
    | Some s \<Rightarrow> m_phase s = Parked \<and> m_sig s = 1 \<and> got (m_ring s) 0 = []
        \<and> (\<exists>s'. wm_run 1 2 0 woken_events s = Some s' \<and> got (m_ring s') 0 = [5])"
    by (simp add: sleeper_events_def woken_events_def wm_run_simps U64_MAX_def EFD_MAX_def)
  then have run: "wm_run 1 2 0 sleeper_events (wmem_init (\<lambda>_. 0)) = Some sleeper"
    and "m_phase sleeper = Parked" "m_sig sleeper = 1" "got (m_ring sleeper) 0 = []"
      "\<exists>s. wm_run 1 2 0 woken_events sleeper = Some s \<and> got (m_ring s) 0 = [5]"
    by (auto simp: sleeper_def split: option.splits)
  then show "m_phase sleeper = Parked" "m_sig sleeper = 1" "got (m_ring sleeper) 0 = []"
      "\<exists>s. wm_run 1 2 0 woken_events sleeper = Some s \<and> got (m_ring s) 0 = [5]"
    by simp_all
  from run show "wm_reachable 1 2 0 sleeper" by (blast intro: wm_reachable_run wm_reachable.init)
qed

theorem signalled_message_returned_witness:
  "wm_reachable 1 2 0 sleeper \<and> m_phase sleeper = Parked \<and> 0 < m_units sleeper
     \<and> (\<exists>s. wm_run 1 2 0 woken_events sleeper = Some s \<and> 0 < length (got (m_ring s) 0))"
proof -
  have "7 \<le> length (filter (own_event 0) woken_events)" by (simp add: woken_events_def)
  then show ?thesis
    using signalled_message_returned [OF sleeper_facts(1)] sleeper_facts by fastforce
qed

end
