(* ===== verification/Formatting.thy ===== *)
theory Formatting
  imports Loan
begin

text \<open>
  What the crate prints: the messages of \<open>src/error.rs\<close> (its \<open>#[error]\<close> attributes, which \<open>thiserror\<close> turns
  into \<open>Display\<close>), and the \<open>Debug\<close> output of the ring, a loan and an eventfd, with the
  numbers, strings and \<open>debug_struct\<close> of the standard library. A message tells its error: two errors
  with the same text are the same. The text of a wrapped \<open>io::Error\<close>, and the \<open>Debug\<close> of the message type, are
  parameters. Paths are printable ASCII.
\<close>

section \<open>Numbers\<close>

definition digit_char :: "nat \<Rightarrow> char" where
  "digit_char d = ''0123456789abcdef'' ! d"

function digits :: "nat \<Rightarrow> nat \<Rightarrow> string" where
  "digits b n = (if b < 2 \<or> n < b then [digit_char n] else digits b (n div b) @ [digit_char (n mod b)])"
  by pat_completeness auto

termination
  by (relation "measure snd") auto

declare digits.simps [simp del]

definition dec :: "nat \<Rightarrow> string" where
  "dec = digits 10"

text \<open>\<open>{:#x}\<close>\<close>

definition hex :: "nat \<Rightarrow> string" where
  "hex n = ''0x'' @ digits 16 n"

definition is_digit :: "char \<Rightarrow> bool" where
  "is_digit c \<longleftrightarrow> c \<in> set ''0123456789abcdef''"

fun digit_value :: "char list \<Rightarrow> char \<Rightarrow> nat" where
  "digit_value [] c = 0"
| "digit_value (x # xs) c = (if c = x then 0 else Suc (digit_value xs c))"

definition read_digits :: "nat \<Rightarrow> string \<Rightarrow> nat" where
  "read_digits b s = foldl (\<lambda>a c. a * b + digit_value ''0123456789abcdef'' c) 0 s"

lemma all_less_16: "(\<forall>d < (16 :: nat). P d) \<longleftrightarrow> list_all P [0..<16]"
  by (auto simp: list_all_iff)

lemma digit_char:
  assumes "d < 16"
  shows "is_digit (digit_char d)" "digit_value ''0123456789abcdef'' (digit_char d) = d"
proof -
  have "\<forall>d < 16. is_digit (digit_char d) \<and> digit_value ''0123456789abcdef'' (digit_char d) = d"
    unfolding all_less_16 by code_simp
  with assms show "is_digit (digit_char d)" "digit_value ''0123456789abcdef'' (digit_char d) = d" by simp_all
qed

lemma read_digits:
  assumes "2 \<le> b" and "b \<le> 16"
  shows "read_digits b (digits b n) = n \<and> (\<forall>c \<in> set (digits b n). is_digit c)"
proof (induction n rule: less_induct)
  case (less n)
  show ?case
  proof (cases "n < b")
    case True
    then show ?thesis
      using digit_char [of n] assms by (simp_all add: digits.simps [of b n] read_digits_def)
  next
    case False
    then have "n div b < n" "n mod b < 16" using assms by (auto intro: less_le_trans [OF mod_less_divisor])
    with less [of "n div b"] digit_char [of "n mod b"] False assms
    show ?thesis
      by (simp_all add: digits.simps [of b n] read_digits_def)
  qed
qed

text \<open>A number ends where the digits end.\<close>

lemma digits_cut:
  assumes "2 \<le> b" and "b \<le> 16" and "digits b m @ x = digits b n @ y"
    and "x = [] \<or> \<not> is_digit (hd x)" and "y = [] \<or> \<not> is_digit (hd y)"
  shows "m = n \<and> x = y"
proof -
  have cut: "takeWhile is_digit (digits b k @ z) = digits b k" if "z = [] \<or> \<not> is_digit (hd z)" for k z
    using read_digits [OF assms(1,2), of k] that by (cases z) (simp_all add: takeWhile_append)
  have "digits b m = digits b n" using cut [OF assms(4), of m] cut [OF assms(5), of n] assms(3) by simp
  then show ?thesis using assms(3) read_digits [OF assms(1,2)] by (metis same_append_eq)
qed

section \<open>Error messages\<close>

fun display :: "(IoErrorKind \<Rightarrow> string) \<Rightarrow> ShmRingError \<Rightarrow> string" where
  "display io (InvalidCapacity got) =
     ''invalid capacity '' @ dec (unat got) @ '': must be a non-zero power of two''"
| "display io AlreadyExists = ''ring file already exists: refusing to overwrite''"
| "display io (FileTooShort expected got) =
     ''file too short: expected at least '' @ dec (unat expected) @ '' bytes, got '' @ dec (unat got)"
| "display io (HeaderCorruption field expected got) =
     ''header corruption in `'' @ field @ ''`: expected '' @ hex (unat expected) @ '', got '' @ hex (unat got)"
| "display io (VersionMismatch expected got) =
     ''format version mismatch: file has '' @ dec (unat got) @ '', this build expects '' @ dec (unat expected)"
| "display io (Io k) = io k"
| "display io (InvalidReaderId i m) = ''invalid reader id '' @ dec (unat i) @ '': max valid id is '' @ dec (unat m)"
| "display io (LoanOutstanding rid) =
     ''reader '' @ dec (unat rid) @ '' has an outstanding loan; commit or abort it before popping''"
| "display io (LoanNotAtCursor index cursor) =
     ''loan at index '' @ dec (unat index) @ '' cannot commit: reader cursor is at '' @ dec (unat cursor)
     @ '' (commit earlier loans first, or abort to rewind the claim pipeline)''"

text \<open>The errors the crate constructs, other than wrapped ones: the field is one of two.\<close>

fun own_error :: "ShmRingError \<Rightarrow> bool" where
  "own_error (Io k) = False"
| "own_error (HeaderCorruption field expected got) = (field = ''magic'' \<or> field = ''capacity_mask'')"
| "own_error _ = True"

lemma number_end:
  "dec m = dec n \<longleftrightarrow> m = n" "hex m = hex n \<longleftrightarrow> m = n"
  using digits_cut [of 10 m "[]" n "[]"] digits_cut [of 16 m "[]" n "[]"] by (auto simp: dec_def hex_def)

lemma number_then:
  assumes "\<not> is_digit c"
  shows "dec m @ c # x = dec n @ c # y \<longleftrightarrow> m = n \<and> x = y" "hex m @ c # x = hex n @ c # y \<longleftrightarrow> m = n \<and> x = y"
  using digits_cut [of 10 m "c # x" n "c # y"] digits_cut [of 16 m "c # x" n "c # y"] assms by (auto simp: dec_def hex_def)

lemma not_digits [simp]: "\<not> is_digit CHR '' ''" "\<not> is_digit CHR '':''" "\<not> is_digit CHR '',''"
  by (simp_all add: is_digit_def)

lemma display_distinguishes:
  assumes "own_error e" and "own_error e'" and "display io e = display io e'"
  shows "e = e'"
  using assms by (cases e; cases e'; auto simp: number_end number_then word_unat_eq_iff)

section \<open>Debug output\<close>

fun fields :: "(string \<times> string) list \<Rightarrow> string" where
  "fields [] = ''''"
| "fields [(k, v)] = k @ '': '' @ v"
| "fields ((k, v) # kvs) = k @ '': '' @ v @ '', '' @ fields kvs"

definition debug_struct :: "string \<Rightarrow> (string \<times> string) list \<Rightarrow> string" where
  "debug_struct name kvs = name @ '' { '' @ fields kvs @ '' }''"

text \<open>A path is quoted, quotes and backslashes in it are escaped.\<close>

definition quoted :: "string \<Rightarrow> string" where
  "quoted p =
     CHR 0x22 # concat (map (\<lambda>c. if c = CHR 0x22 \<or> c = CHR 0x5C then [CHR 0x5C, c] else [c]) p) @ [CHR 0x22]"

definition ring_debug :: "SpmcRingBuffer \<Rightarrow> string" where
  "ring_debug r =
     debug_struct ''SpmcRingBuffer''
       [(''path'', quoted (path r)), (''capacity'', dec (unat (capacity r))),
        (''write_idx'', dec (unat (write_idx (rhdr r)))), (''total_written'', dec (unat (total_written (rhdr r))))]"

text \<open>\<open>&**self\<close> reads the slot.\<close>

definition loan_debug :: "('a \<Rightarrow> string) \<Rightarrow> 'a pod \<Rightarrow> Loan \<Rightarrow> SpmcRingBuffer \<Rightarrow> (ShmRingError, string) outcome" where
  "loan_debug dbg T l r =
     bind_out (loan_deref T l r) (\<lambda>v.
       Done (debug_struct ''Loan''
         [(''reader_id'', dec (unat (ln_reader l))), (''index'', dec (unat (ln_index l))), (''record'', dbg v)]))"

definition notify_debug :: "nat \<Rightarrow> string" where
  "notify_debug fd = debug_struct ''EventNotify'' [(''fd'', dec fd)]"

text \<open>The output of a ring that holds a stream counts its messages; that of a pinned loan shows its message.\<close>

lemma ring_debug_stream:
  assumes "ring_rel T r S"
  shows "ring_debug r =
     ''SpmcRingBuffer { path: '' @ quoted (path r) @ '', capacity: '' @ dec (cap_of r)
     @ '', write_idx: '' @ dec (length (msgs S)) @ '', total_written: '' @ dec (length (msgs S)) @ '' }''"
  using ring_relD(2,3) [OF assms] by (simp add: ring_debug_def debug_struct_def)

lemma loan_debug_pinned:
  assumes "loan_inv T r ls S" and "l \<in> set ls"
  shows "loan_debug dbg T l r =
     Done (''Loan { reader_id: '' @ dec (unat (ln_reader l)) @ '', index: '' @ dec (unat (ln_index l))
       @ '', record: '' @ dbg (msgs S ! unat (ln_index l)) @ '' }'')"
  using loan_deref_pinned [OF assms] by (simp add: loan_debug_def debug_struct_def)

lemma notify_debug_example: "notify_debug 17 = ''EventNotify { fd: 17 }''"
  by (simp add: notify_debug_def debug_struct_def dec_def digits.simps digit_char_def)

end
