(* ===== verification/Loan_Protocol_Progress.thy ===== *)
theory Loan_Protocol_Progress
  imports Protocol_Progress Loan_Protocol_Props
begin

text \<open>
  Lock-freedom of \<open>claim\<close>. Its loop goes round again when the compare-exchange on \<open>claim_base\<close> fails: spuriously,
  or because an abort on another thread has rewound \<open>claim_base\<close> since it was loaded. Each round costs four
  accesses, so the number of accesses a claim makes is bounded by the number of those events. Nothing here asks for
  the discipline of \<open>orderly\<close>.
\<close>

section \<open>The accesses a claim has left\<close>

text \<open>The messages of \<open>claim_base\<close> the consuming thread has not passed.\<close>

definition unseen :: "nat \<Rightarrow> 'v lsys \<Rightarrow> nat" where
  "unseen i c = length (bvals c i) - Suc (b_seen c i)"

fun c_left :: "nat \<Rightarrow> 'v c_pc \<Rightarrow> nat" where
  "c_left u CClaimW = 4 + 4 * u"
| "c_left u (CClaimCursor w) = 3 + 4 * u"
| "c_left u (CClaimBase w r) = 2 + 4 * u"
| "c_left u (CClaimCas w r b) = 1 + 4 * u"
| "c_left u CClaimNone = 1"
| "c_left u _ = 0"

definition claim_left :: "nat \<Rightarrow> 'v lsys \<Rightarrow> nat" where
  "claim_left i c = c_left (unseen i c) (lc_pc c i)"

fun claiming :: "'v c_pc \<Rightarrow> bool" where
  "claiming CClaimW = True" | "claiming (CClaimCursor w) = True" | "claiming (CClaimBase w r) = True"
| "claiming (CClaimCas w r b) = True" | "claiming CClaimNone = True" | "claiming _ = False"

text \<open>The accesses of the claim, and what makes it go round again.\<close>

fun claim_event :: "nat \<Rightarrow> 'v levent \<Rightarrow> bool" where
  "claim_event i (CClaim j) = (j = i)" | "claim_event i (CLoadW j t) = (j = i)"
| "claim_event i (CLoadCursor j t) = (j = i)" | "claim_event i (CLoadBase j t) = (j = i)"
| "claim_event i (CCas j spurious) = (j = i)" | "claim_event i (CNone j) = (j = i)" | "claim_event i _ = False"

fun retry_cost :: "nat \<Rightarrow> 'v levent \<Rightarrow> nat" where
  "retry_cost i (CCas j spurious) = (if j = i \<and> spurious then 4 else 0)"
| "retry_cost i (HAbort j k) = (if j = i then 4 else 0)"
| "retry_cost i _ = 0"

lemma c_left_simps: "c_left u pc = 0 \<longleftrightarrow> \<not> claiming pc" "c_left u pc \<le> 4 + 4 * u"
  by (cases pc; simp)+

section \<open>What the consuming thread has seen\<close>

text \<open>It has seen messages that exist, and the one of \<open>claim_base\<close> it loaded is the one it compares with.\<close>

definition seen_ok :: "nat \<Rightarrow> 'v lsys \<Rightarrow> bool" where
  "seen_ok i c \<longleftrightarrow>
     w_seen c i < length (wmsgs c) \<and> c_seen c i < length (cmsgs c i) \<and> b_seen c i < length (bvals c i)
     \<and> (\<forall>h \<in> set (loans c i @ gone c i). h_seen h < length (cmsgs c i))
     \<and> (\<forall>w r b. lc_pc c i = CClaimCas w r b \<longrightarrow> bvals c i ! b_seen c i = b)"

lemma seen_ok_init: "seen_ok i (lsys_init junk)"
  by (simp add: seen_ok_def lsys_init_def)

lemma seen_prod: "lp_step n cap e c = Some c' \<Longrightarrow> seen_ok i c \<Longrightarrow> seen_ok i c'"
  by (cases e) (auto simp: seen_ok_def Let_def case_prod_beta split: p_pc.splits if_splits)

lemma fold_max_less: "m < (k :: nat) \<Longrightarrow> \<forall>x \<in> set xs. x < k \<Longrightarrow> fold max xs m < k"
  by (induction xs arbitrary: m) simp_all

lemma last_later:
  assumes "k < length xs" and "last xs \<noteq> xs ! k"
  shows "Suc k < length xs"
proof (rule ccontr)
  assume "\<not> Suc k < length xs"
  then have "length xs = Suc k" using assms(1) by simp
  then show False using assms last_conv_nth [of xs] by fastforce
qed

lemma seen_cons:
  assumes "lc_step n cap e c = Some c'" and "seen_ok i c"
  shows "seen_ok i c'"
proof (cases e)
  case (CStore j)
  have "\<forall>h \<in> set (loans c i @ gone c i). h_seen h < Suc (length (cmsgs c i))"
    using assms(2) by (auto simp: seen_ok_def intro: less_SucI)
  then show ?thesis using assms CStore by (auto simp: seen_ok_def split: c_pc.splits if_splits)
qed (use assms in \<open>auto simp: seen_ok_def Let_def case_prod_beta nth_append last_later split: c_pc.splits if_splits
  intro!: fold_max_less\<close>)

lemma seen_hold:
  assumes "lh_step n cap e c = Some c'" and "seen_ok i c"
  shows "seen_ok i c'"
  using assms
  by (cases e)
    (auto simp: seen_ok_def Let_def case_prod_beta nth_append less_Suc_eq split: if_splits
      dest!: in_set_takeD in_set_dropD set_update_subset_insert [THEN subsetD])

lemma lstepE:
  assumes "lstep n cap e c = Some c'"
  obtains "lp_step n cap e c = Some c'" | "lc_step n cap e c = Some c'" | "lh_step n cap e c = Some c'"
  using assms by (auto simp: lstep_def split: if_splits option.splits)

lemma seen_step: "lstep n cap e c = Some c' \<Longrightarrow> seen_ok i c \<Longrightarrow> seen_ok i c'"
  by (elim lstepE) (rule seen_prod seen_cons seen_hold; assumption)+

lemma seen_run: "lrun n cap es c = Some c' \<Longrightarrow> seen_ok i c \<Longrightarrow> seen_ok i c'"
  by (induction es arbitrary: c) (auto split: option.splits intro: seen_step)

section \<open>What a step does to the accesses left\<close>

lemma claim_prod_left: "lp_step n cap e c = Some c' \<Longrightarrow> claim_left i c' = claim_left i c \<and> \<not> claim_event i e"
  by (cases e) (auto simp: claim_left_def unseen_def Let_def case_prod_beta split: p_pc.splits if_splits)

lemma claim_cons_own:
  assumes "lc_step n cap e c = Some c'" and "seen_ok i c" and "claim_event i e" and "0 < claim_left i c"
  shows "claim_left i c' < claim_left i c + retry_cost i e"
proof (cases e)
  case (CClaim j)
  then show ?thesis using assms by (auto simp: claim_left_def split: if_splits)
next
  case (CLoadW j t)
  then show ?thesis using assms by (auto simp: claim_left_def unseen_def Let_def case_prod_beta split: if_splits)
next
  case (CLoadCursor j t)
  then show ?thesis
    using assms by (auto simp: claim_left_def unseen_def Let_def case_prod_beta split: c_pc.splits if_splits)
next
  case (CLoadBase j t)
  then obtain w r where pc: "lc_pc c i = CClaimBase w r" using assms(1,3) by (auto split: c_pc.splits)
  have "unseen i c' \<le> unseen i c"
    using assms(1,3) CLoadBase pc by (auto simp: unseen_def Let_def split: if_splits)
  then show ?thesis using assms(1,3) CLoadBase pc by (auto simp: claim_left_def Let_def split: if_splits)
next
  case (CCas j spurious)
  then obtain w r b where pc: "lc_pc c i = CClaimCas w r b" and j: "j = i" using assms(1,3) by (auto split: c_pc.splits)
  show ?thesis
  proof (cases "\<not> spurious \<and> last (bvals c i) \<noteq> b")
    case True
    then have "Suc (b_seen c i) < length (bvals c i)"
      using assms(2) pc by (intro last_later) (auto simp: seen_ok_def)
    then show ?thesis
      using assms(1) CCas pc j True by (auto simp: claim_left_def unseen_def split: if_splits)
  next
    case False
    then show ?thesis using assms(1) CCas pc j by (auto simp: claim_left_def unseen_def split: if_splits)
  qed
next
  case (CNone j)
  then show ?thesis using assms by (auto simp: claim_left_def split: if_splits)
qed (use assms(3) in simp_all)

lemma claim_cons_other:
  assumes "lc_step n cap e c = Some c'" and "\<not> claim_event i e"
  shows "claim_left i c' = claim_left i c"
  using assms by (cases e) (auto simp: claim_left_def unseen_def Let_def case_prod_beta split: c_pc.splits if_splits)

lemma claim_hold_left:
  assumes "lh_step n cap e c = Some c'"
  shows "claim_left i c' \<le> claim_left i c + retry_cost i e" "\<not> claim_event i e"
  using assms by (cases e; cases "lc_pc c i"; auto simp: claim_left_def unseen_def Let_def case_prod_beta split: if_splits)+

interpretation claim: lock_free "lstep n cap" "lrun n cap" "claim_event i" "claim_left i" lcrashed "retry_cost i" "seen_ok i"
proof unfold_locales
  show "lcrashed c' \<or> claim_left i c' < claim_left i c + retry_cost i e"
    if "seen_ok i c" "lstep n cap e c = Some c'" "claim_event i e" "0 < claim_left i c" for c c' and e :: "'a levent"
    using that(2) by (rule lstepE) (use that claim_prod_left claim_cons_own claim_hold_left(2) in blast)+
  show "lcrashed c' \<or> claim_left i c' \<le> claim_left i c + retry_cost i e"
    if "lstep n cap e c = Some c'" "\<not> claim_event i e" for c c' and e :: "'a levent"
    using that(1) by (rule lstepE) (use that(2) in \<open>simp_all add: claim_prod_left claim_cons_other claim_hold_left(1)\<close>)
qed (simp_all add: seen_step)

text \<open>A claim under way can always make its next access.\<close>

lemma claim_can_step:
  assumes "seen_ok i c" and "i < n" and "\<not> lcrashed c" and "claiming (lc_pc c i)"
  shows "\<exists>e. claim_event i e \<and> lstep n cap e c \<noteq> None"
proof -
  have "\<exists>e. claim_event i e \<and> lc_step n cap e c \<noteq> None \<and> lp_step n cap e c = None"
  proof (cases "lc_pc c i")
    case CClaimW
    then show ?thesis using assms(1,2)
      by (intro exI [of _ "CLoadW i (w_seen c i)"]) (simp add: seen_ok_def case_prod_beta)
  next
    case (CClaimCursor w)
    then show ?thesis using assms(1,2)
      by (intro exI [of _ "CLoadCursor i (c_seen c i)"]) (simp add: seen_ok_def case_prod_beta Let_def)
  next
    case (CClaimBase w r)
    then show ?thesis using assms(1,2)
      by (intro exI [of _ "CLoadBase i (b_seen c i)"]) (simp add: seen_ok_def Let_def)
  next
    case (CClaimCas w r b)
    then show ?thesis using assms(2) by (intro exI [of _ "CCas i False"]) simp
  next
    case CClaimNone
    then show ?thesis using assms(2) by (intro exI [of _ "CNone i"]) simp
  qed (use assms(4) in simp_all)
  then show ?thesis using assms(3) by (auto simp: lstep_def)
qed

section \<open>Properties\<close>

text \<open>
  C27. Claims are lock-free. In every execution, disciplined or not, a claim under way can make its next access,
  and it returns within four accesses of its own for the round it is in, four for each modification of
  \<open>claim_base\<close> its thread has not seen when it starts, and four for each spurious failure of its
  compare-exchange and each abort on another thread while it runs.
\<close>

theorem claims_lock_free:
  assumes "lrun n cap es (lsys_init junk) = Some c" and "i < n" and "\<not> lcrashed c"
  shows "(claiming (lc_pc c i) \<longrightarrow> (\<exists>e. claim_event i e \<and> lstep n cap e c \<noteq> None))
    \<and> returns_despite (retry_cost i) (4 + 4 * unseen i c) (claim_event i) (lrun n cap)
        (\<lambda>c'. \<not> claiming (lc_pc c' i) \<or> lcrashed c') c"
proof -
  have seen: "seen_ok i c" by (rule seen_run [OF assms(1) seen_ok_init])
  have "returns_despite (retry_cost i) (4 + 4 * unseen i c) (claim_event i) (lrun n cap)
      (\<lambda>c'. \<not> claiming (lc_pc c' i) \<or> lcrashed c') c"
    by (rule claim.returns_despite [OF seen]) (auto simp: claim_left_def c_left_simps)
  then show ?thesis using claim_can_step [OF seen assms(2,3)] by blast
qed

text \<open>
  Two loans of one reader; the newer is aborted on another thread between the load of \<open>claim_base\<close> and the
  compare-exchange of a third claim, which fails, then fails spuriously, and then claims the aborted index again.
\<close>

definition retried_claim_events :: "nat levent list" where
  "retried_claim_events =
     [LPush 5, LScan 0, LDecide, LWrite, LPublish, LCount, LPush 6, LScan 0, LDecide, LWrite, LPublish, LCount,
      CClaim 0, CLoadW 0 2, CLoadCursor 0 0, CLoadBase 0 0, CCas 0 False,
      CClaim 0, CLoadW 0 2, CLoadCursor 0 0, CLoadBase 0 1, HAbort 0 0]"

definition retried_claim :: "nat lsys" where
  "retried_claim = the (lrun 1 2 retried_claim_events (lsys_init (\<lambda>_. 0)))"

definition retries :: "nat levent list" where
  "retries =
     [CCas 0 False, CLoadW 0 2, CLoadCursor 0 0, CLoadBase 0 2, CCas 0 True, CLoadW 0 2, CLoadCursor 0 0,
      CLoadBase 0 2, CCas 0 False, CClaim 0, CLoadW 0 2, CLoadCursor 0 0]"

lemma retried_claim_facts:
  "lrun 1 2 retried_claim_events (lsys_init (\<lambda>_. 0)) = Some retried_claim" "\<not> lcrashed retried_claim"
  "claiming (lc_pc retried_claim 0)" "unseen 0 retried_claim = 1" "\<exists>c'. lrun 1 2 retries retried_claim = Some c'"
proof -
  have "case lrun 1 2 retried_claim_events (lsys_init (\<lambda>_. 0)) of None \<Rightarrow> False
    | Some c \<Rightarrow> \<not> lcrashed c \<and> claiming (lc_pc c 0) \<and> unseen 0 c = 1 \<and> (\<exists>c'. lrun 1 2 retries c = Some c')"
    by (simp add: retried_claim_events_def retries_def unseen_def loan_run_simps)
  then show "lrun 1 2 retried_claim_events (lsys_init (\<lambda>_. 0)) = Some retried_claim" "\<not> lcrashed retried_claim"
    "claiming (lc_pc retried_claim 0)" "unseen 0 retried_claim = 1" "\<exists>c'. lrun 1 2 retries retried_claim = Some c'"
    by (auto simp: retried_claim_def split: option.splits)
qed

theorem claims_lock_free_witness:
  "(\<exists>e. claim_event 0 e \<and> lstep 1 2 e retried_claim \<noteq> None)
     \<and> (\<exists>es1 es2 c1. retries = es1 @ es2 \<and> lrun 1 2 es1 retried_claim = Some c1
          \<and> (\<not> claiming (lc_pc c1 0) \<or> lcrashed c1))"
proof -
  note free = claims_lock_free [OF retried_claim_facts(1) _ retried_claim_facts(2), of 0]
  have "8 + sum_list (map (retry_cost 0) retries) \<le> length (filter (claim_event 0) retries)"
    by (simp add: retries_def)
  then show ?thesis
    using free retried_claim_facts(3-5) unfolding returns_despite_def by fastforce
qed

end
