(* ===== verification/Spec2Isabelle.thy ===== *)
theory Spec2Isabelle
  imports Ring_Props File_Props Loan_Props Status Protocol_Props Notify_Props Wakeup Loom_Ring
    Loan_Protocol_Props Loan_Protocol_Solo Hostile Protocol_Progress Loom_Models Loom_Backpressure Loom_Notify Loom_Loans Fuzz
    Crash Status_Race Wakeup_Memory Formatting Loan_Protocol_Progress
begin

text \<open>
  A verification of the crate \<open>shm-rings\<close>: single-producer multi-consumer broadcast
  rings of fixed-size messages in a shared memory-mapped file. One producer appends to an unbounded
  stream of messages; up to eight readers each consume the whole stream through a cursor of their
  own; a message lives in slot \<open>index mod capacity\<close>, and the producer refuses a message while the
  slowest reader lags by the capacity. On top of that the crate has zero-copy loans of the next message, eventfd
  notification, and a status file for values that fit no ring.

  \<^bold>\<open>The theories and the code.\<close>

  \<^item> \<open>Prelude\<close>, \<open>Shm_Error\<close>, \<open>File_Sys\<close>: machine integers with the overflow behaviour of
    checked and release builds (\<open>build\<close>), outcomes (value, \<open>Err\<close>, panic, access outside the
    mapping), the state-passing actions every operation is written in; \<open>src/error.rs\<close>; the
    files and mappings of the operating system, as a map from paths to bytes and an
    environment \<open>os_env\<close> of calls that may fail.

  \<^item> \<open>Stream_Spec\<close>: the abstract specification. A stream is the list of accepted messages and a
    cursor per reader; \<open>stream_push\<close> and \<open>stream_pop\<close> are what the ring promises. The
    locale \<open>spmc_queue\<close> is that contract, with broadcast FIFO proved in it once.

  \<^item> \<open>Slot_Array\<close>: slots, with the locale \<open>slot_array\<close> as the interface of the storage
    (interpreted on the bytes of the mapping) and \<open>pod_type\<close> as what the crate uses of its type
    parameter.

  \<^item> \<open>Ring_Header\<close>, \<open>Ring\<close>, \<open>Ring_File\<close>: \<open>src/header.rs\<close> and \<open>src/ring.rs\<close>. The header
    record and its 256-byte image, validation; a handle (\<open>SpmcRingBuffer\<close>), \<open>slot_ptr\<close>,
    \<open>try_push\<close>, \<open>try_pop\<close>, \<open>peek\<close> and the diagnostics; \<open>create_new\<close> and
    \<open>open_existing\<close>. The invariant \<open>ring_rel\<close> relates a handle to a stream; the interpretations
    \<open>ring\<close> and \<open>durable\<close> of \<open>spmc_queue\<close> are the refinement theorems, for a handle and for a
    handle together with its file.

  \<^item> \<open>Loan\<close>: \<open>src/loan.rs\<close>. Claim with its compare-exchange loop, commit, abort, drop, and
    executions of producer and consumer calls with open loans.

  \<^item> \<open>Status\<close>: \<open>src/status.rs\<close>, with the trait \<open>PodStatus\<close> as a record whose layout laws are the
    locale \<open>pod_status\<close>.

  \<^item> \<open>Notify\<close>, \<open>Wakeup\<close>: \<open>src/notify.rs\<close>. The operations over a kernel that is a
    parameter (locale \<open>eventfd\<close>, interpreted on a simulated kernel), and the handshake of a
    producer and several consumers as a scheduled system. \<open>Wakeup_Memory\<close> refines that
    handshake to memory accesses, over \<open>Protocol\<close>, with stale loads and any number of readers; the counter is an object
    of the kernel, whose read synchronises with the writes it takes. \<open>Protocol_Acquire\<close> is what such a
    synchronisation does to the protocol's state.

  \<^item> \<open>Handles\<close>: several handles on one file, one per process, and the interpretation
    \<open>handles\<close> of \<open>spmc_queue\<close> on them; \<open>Crash\<close>: producers killed at any store of a push and
    the file opened again, with the interpretation \<open>surviving\<close>; \<open>Hostile\<close>: the operations of ring and
    loans on a file whose counters and slots hold anything.

  \<^item> \<open>Protocol\<close>, \<open>Protocol_Inv\<close>: the same push and pop one memory access at a time, with
    stale loads and acquire/release views, for any number of readers (\<open>src/loom_ring.rs\<close> and
    the accesses of \<open>src/ring.rs\<close>); \<open>Protocol_Progress\<close>: how many accesses a call takes, in
    the locale \<open>wait_free\<close>, interpreted for pushes and pops, which is the case without interference of
    \<open>lock_free\<close>.

  \<^item> \<open>Loan_Protocol\<close>, \<open>Loan_Protocol_Inv\<close>, \<open>Loan_Protocol_Steps\<close>: push, pop, claim,
    commit, abort, deref and drop one memory access at a time, loans being held by threads of their own, and
    the \<open>Relaxed\<close> accesses of \<open>claim_base\<close> and \<open>loan_depth\<close>. \<open>Loan_Protocol_Solo\<close>
    simulates the executions of \<open>Loan\<close> by it, call by call; \<open>Loan_Protocol_Progress\<close> interprets \<open>lock_free\<close> for
    the loop of \<open>claim\<close>.

  \<^item> \<open>Loom_Ring\<close>: \<open>src/loom_ring.rs\<close> as a sequential program; every operation is shown to
    correspond to the ring's, and the interpretation \<open>loom\<close> makes it a second implementation of the stream.
    \<open>Loom_Models\<close>, \<open>Loom_Backpressure\<close>, \<open>Loom_Loans\<close>, \<open>Loom_Notify\<close>: its four model-checking
    scenarios, as thread programs over the accesses of the protocols.

  \<^item> \<open>Status_Race\<close>: the copies of \<open>update\<close> and \<open>read\<close> of \<open>src/status.rs\<close>, byte by byte.

  \<^item> \<open>Fuzz\<close>: the fuzz targets of \<open>fuzz/fuzz_targets/\<close>, as programs over the models of the
    constructors and of two handles.

  \<^item> \<open>Formatting\<close>: the messages of the errors and the \<open>Debug\<close> output of ring, loan and eventfd. A message
    determines its error.

  \<^item> \<open>Sample\<close> holds concrete rings; the \<open>_Props\<close> theories, the theories of the scenarios,
    \<open>Status\<close>, \<open>Wakeup\<close>, \<open>Loom_Ring\<close> and this theory state the properties.

  \<^bold>\<open>What is shown.\<close> A created ring answers every sequence of operations as the stream does, from one
  handle or from the handles of several processes, survives reopening and the death of a producer at any
  store, and delivers broadcast FIFO, in both builds and without a panic or an access outside its
  slots; under every interleaving of memory accesses slots are free of data races and FIFO still holds, pushes and
  pops return within a bounded number of their own accesses, a claim within a number bounded by the spurious failures
  and the aborts that make it retry, and calls that
  run alone are the sequential ones; open loans stay pinned through every execution that aborts only the
  newest loan of a reader, and concurrently, through every execution in which a pop comes after the
  thread has synchronised with the threads that resolved its loans and aborts are of the newest
  loan and synchronised with before the next claim (\<open>orderly\<close>); on hostile files no operation leaves the mapping;
  creation is exclusive and opening refuses what does not fit; a single
  consumer on an eventfd loses no wakeup, and a signalled message is returned within seven of its reader's own
  accesses and system calls; a status read that races with an update returns a mixture with
  the right identity; the four model-checking scenarios pass, in every interleaving. Concrete executions show
  where a guarantee ends: aborting an older loan, using a
  committed loan, dropping loans newest first, resolving a loan on another thread and popping without
  synchronising, headers with a bad reader count or a capacity whose byte size
  wraps, two consumers on one eventfd, sub-millisecond timeouts, torn status reads, and the input bytes on which
  a fuzz target fails.

  \<^bold>\<open>Bounds.\<close> Index counters are \<open>u64\<close>; the refinement theorems count at most
  \<open>2 ^ 64 - 1\<close> pushes, beyond which \<open>write_idx\<close> would wrap. Layouts are assumed to fit the address
  space (\<open>256 + capacity * size < 2 ^ 64\<close>), except where the overflow itself is the subject. The claim loop takes
  the list of its adversary's moves, so it is structurally recursive; after the last move the next
  pass decides. Waits that may last forever are partial functions, and what returns is proved to
  return. The scenarios' executions are bounded by measures: 87, 25, 57 and 35 accesses. \<open>usize\<close> is 64 bits wide.

  \<^bold>\<open>The memory model.\<close> A load returns any message of its location that its thread has not already passed; an
  acquire load of a release store brings the storing thread's view; a read-modify-write reads the last
  message. That is the coherence and release/acquire part of the language's model; an execution is a
  sequence of accesses, so a load never reads a store that comes later. A thread
  that fails a compare-exchange on a different value has read a later message than the one it loaded; it need not have read
  the last one. In the scenarios the counter
  \<open>total_written\<close> is the number of published messages once no push is under way.

  \<^bold>\<open>What is not modelled.\<close> The mapping call of \<open>memmap2\<close> and the kernel (parameters);
  the derived \<open>Debug\<close> of the error type and escapes other than quotes and backslashes; handing out raw descriptors; \<open>src/lib.rs\<close>, which has
  declarations only; \<open>Send\<close> and \<open>Sync\<close>, which are promises to the type checker (what they promise is the
  subject of the concurrent theories); tests and benches, which call the crate.
\<close>

section \<open>Properties of the whole ring\<close>

text \<open>
  C2. A ring created with \<open>c\<close> slots and \<open>n\<close> readers answers every sequence of pushes
  and pops, in either build, exactly as the abstract stream does: no panic, no error, no access outside
  the slots.
\<close>

theorem created_ring_is_stream:
  assumes "pod_type T" and "pod_align T \<le> 64" and "0 < pod_size T" and "is_power_of_two c"
    and "1 \<le> n" and "n \<le> MAX_READERS" and "256 + unat c * unat (pod_size T) < 2 ^ 64"
    and "fs p = None" and "os_grants os p"
    and "list_all (op_valid (unat n)) ops" and "push_count ops \<le> 2 ^ 64 - 1"
  shows "\<exists>r fs' r'. create_new_with_readers b T os p c n fs = (Done r, fs')
    \<and> run_ops (try_push b T) (\<lambda>i. try_pop b T (of_nat i)) ops r
      = (Done (fst (stream_run (unat c) ops (stream_new (unat n)))), r')
    \<and> ring_rel T r' (snd (stream_run (unat c) ops (stream_new (unat n))))"
proof -
  obtain r where r: "create_new_with_readers b T os p c n fs = (Done r, fs(p \<mapsto> bytes_of (mmap r)))"
    "file_rel T (unat c) r (stream_new (unat n))"
    by (rule create_file_rel [where fs = fs and p = p and os = os and b = b, OF assms(1-9)])
  have "list_all (op_valid (length (cursors (stream_new (unat n) :: 'a stream)))) ops"
    and "length (msgs (stream_new (unat n) :: 'a stream)) + push_count ops \<le> 2 ^ 64 - 1"
    using assms(10,11) by (simp_all add: stream_new_def)
  from durable.run_refines [OF r(2) this, of b] r(1) show ?thesis
    by (auto simp: file_rel_def queue_rel_def)
qed

theorem created_ring_is_stream_witness:
  "\<exists>r fs' r'. create_new_with_readers Debug u64_pod quiet_os ''ring'' 2 2 Map.empty = (Done r, fs')
     \<and> run_ops (try_push Debug u64_pod) (\<lambda>i. try_pop Debug u64_pod (of_nat i)) [Push 7, Push 9, Push 11, Pop 1, Pop 0, Push 11] r
       = (Done [Pushed True, Pushed True, Pushed False, Popped (Some 7), Popped (Some 7), Pushed True], r')"
proof -
  let ?ops = "[Push 7, Push 9, Push 11, Pop 1, Pop 0, Push 11] :: u64 ring_op list"
  have "list_all (op_valid 2) ?ops" "push_count ?ops \<le> 2 ^ 64 - 1" by (simp_all add: op_valid_def)
  moreover have "fst (stream_run 2 ?ops (stream_new 2))
      = [Pushed True, Pushed True, Pushed False, Popped (Some 7), Popped (Some 7), Pushed True]"
    by code_simp
  ultimately show ?thesis
    using created_ring_is_stream [where b = Debug and n = 2 and ops = ?ops,
      OF u64_pod.pod_type_axioms sample_args(1,2) power_of_two_2 sample_args(3,4) _ sample_args(5,6)]
    by auto
qed

text \<open>
  C1. Broadcast FIFO. What a reader has popped from a created ring is a prefix of what the producer
  got accepted: in order, with no gap, no duplicate and no torn or stale message, whatever the other readers
  do. The rest, what the reader still has to come, is never more than the capacity.
\<close>

theorem created_ring_fifo:
  assumes "pod_type T" and "pod_align T \<le> 64" and "0 < pod_size T" and "is_power_of_two c"
    and "1 \<le> n" and "n \<le> MAX_READERS" and "256 + unat c * unat (pod_size T) < 2 ^ 64"
    and "fs p = None" and "os_grants os p"
    and "list_all (op_valid (unat n)) ops" and "push_count ops \<le> 2 ^ 64 - 1" and "i < unat n"
  shows "\<exists>r fs' answers r' rest. create_new_with_readers b T os p c n fs = (Done r, fs')
    \<and> run_ops (try_push b T) (\<lambda>i. try_pop b T (of_nat i)) ops r = (Done answers, r')
    \<and> accepted ops answers = reader_view i ops answers @ rest \<and> length rest \<le> unat c"
proof -
  obtain r where r: "create_new_with_readers b T os p c n fs = (Done r, fs(p \<mapsto> bytes_of (mmap r)))"
    "file_rel T (unat c) r (stream_new (unat n))"
    by (rule create_file_rel [where fs = fs and p = p and os = os and b = b, OF assms(1-9)])
  have ops: "list_all (op_valid (length (cursors (stream_new (unat n) :: 'a stream)))) ops"
    "length (msgs (stream_new (unat n) :: 'a stream)) + push_count ops \<le> 2 ^ 64 - 1"
    "i < length (cursors (stream_new (unat n) :: 'a stream))"
    using assms(10-12) by (simp_all add: stream_new_def)
  obtain answers r' S' where run: "run_ops (try_push b T) (\<lambda>i. try_pop b T (of_nat i)) ops r = (Done answers, r')"
    and rel: "file_rel T (unat c) r' S'" and msgs: "msgs S' = accepted ops answers"
    and cur: "cursors S' ! i = length (reader_view i ops answers)"
    and view: "reader_view i ops answers = take (length (reader_view i ops answers)) (accepted ops answers)"
    and readers: "length (cursors S') = unat n"
    by (rule durable.run_fifo [OF r(2) ops, of b]) (use assms(12) in \<open>auto simp: stream_new_def\<close>)
  let ?rest = "drop (length (reader_view i ops answers)) (accepted ops answers)"
  have "accepted ops answers = reader_view i ops answers @ ?rest"
    by (subst view) (simp add: min_def)
  moreover have "length ?rest \<le> unat c"
    using stream_okD(3) [OF durable.rel_ok [OF rel]] slowest_le [of i S'] readers assms(12) cur msgs by simp
  ultimately show ?thesis using r(1) run by blast
qed

theorem created_ring_fifo_witness:
  "\<exists>r fs' answers r' rest. create_new_with_readers Release u64_pod quiet_os ''ring'' 2 2 Map.empty = (Done r, fs')
     \<and> run_ops (try_push Release u64_pod) (\<lambda>i. try_pop Release u64_pod (of_nat i)) [Push 7, Pop 1, Push 9, Pop 1, Pop 1] r
       = (Done answers, r')
     \<and> accepted [Push 7, Pop 1, Push 9, Pop 1, Pop 1] answers
       = reader_view 1 [Push 7, Pop 1, Push 9, Pop 1, Pop 1] answers @ rest \<and> length rest \<le> 2"
  using created_ring_fifo [where b = Release and n = 2 and i = 1 and ops = "[Push 7, Pop 1, Push 9, Pop 1, Pop 1]",
      OF u64_pod.pod_type_axioms sample_args(1,2) power_of_two_2 sample_args(3,4) _ sample_args(5,6)]
  by (simp add: op_valid_def)



end
